(* ===== verification/Prelude.thy ===== *)
theory Prelude
  imports Main "HOL-Library.Sublist" "HOL-Library.Multiset"
begin

text \<open>
  The shared base of the development: time units, the collections the component proofs
  feed to the simplifier, facts about stable sorting by a key, and the interface of a
  bounded retry loop (a locale), which the Kubernetes, connectivity and Ceph gates of the
  deployment tool all have.
\<close>

section \<open>Durations\<close>

text \<open>
  Go's \<open>time.Duration\<close> counts nanoseconds. The constants of the program are far from the
  limits of its 64 bits, so durations and clock readings are integers here.
\<close>

type_synonym duration = int

abbreviation Second :: duration where
  "Second \<equiv> 1000000000"

abbreviation Minute :: duration where
  "Minute \<equiv> 60 * Second"

abbreviation Hour :: duration where
  "Hour \<equiv> 60 * Minute"

text \<open>\<open>int(d.Seconds())\<close>, for the non-negative constants it is applied to.\<close>

definition whole_seconds :: "duration \<Rightarrow> int" where
  "whole_seconds d = d div Second"

section \<open>Collections of facts\<close>

named_theorems extends_intros \<open>which events an operation adds to the trace\<close>
named_theorems quiet_simps \<open>which calls leave the watchdog and the generations alone\<close>

section \<open>Stable sorting\<close>

text \<open>
  \<open>sort.SliceStable\<close> with a \<open>less\<close> that compares a key returns the one permutation
  that is sorted by the key and keeps the order of equal keys: \<open>sort_key\<close> of the
  library. The lemma below is that characterisation.
\<close>

lemma sort_key_stable_eq:
  assumes "mset ys = mset xs" and "sorted (map f ys)"
    and "\<And>k. filter (\<lambda>x. f x = k) ys = filter (\<lambda>x. f x = k) xs"
  shows "ys = sort_key f xs"
proof (rule properties_for_sort_key [symmetric])
  show "filter (\<lambda>x. f k = f x) ys = filter (\<lambda>x. f k = f x) xs" for k
    using assms(3) [of "f k"] by (simp add: eq_commute)
qed (use assms in auto)

lemma distinct_map_sort_key [simp]: "distinct (map g (sort_key f xs)) = distinct (map g xs)"
  by (metis mset_map mset_sort mset_eq_imp_distinct_iff)

lemma distinct_map_inj_on:
  "distinct (map f xs) \<Longrightarrow> x \<in> set xs \<Longrightarrow> y \<in> set xs \<Longrightarrow> f x = f y \<Longrightarrow> x = y"
  by (auto simp: distinct_map dest: inj_onD)

lemma filter_mset_partition:
  "mset (filter P xs) + mset (filter (\<lambda>x. \<not> P x) xs) = mset xs"
  by (induction xs) auto

section \<open>Lists that grow\<close>

text \<open>The events a state has gained since an earlier one.\<close>

definition since :: "'a list \<Rightarrow> 'a list \<Rightarrow> 'a list" where
  "since before after = drop (length before) after"

lemma since_append [simp]: "since xs (xs @ ys) = ys"
  by (simp add: since_def)

lemma since_same_start [simp]: "since (xs @ ys) (xs @ zs) = since ys zs"
  by (simp add: since_def)

lemma since_refl [simp]: "since xs xs = []"
  by (simp add: since_def)

section \<open>The interface of a retry loop\<close>

text \<open>
  Three loops of the program have the shape
  \<^verbatim>\<open>
  for i := 0; i < N; i++ {
      if b, done := attempt(); done { return b }
      if i < N-1 { between() }
  }
  return false
  \<close>
  The locale fixes one such loop by its unfolding equation; a component interprets it on
  its own loop, and the facts about bounds and about what a success means are proved once.
\<close>

locale retry_loop =
  fixes N :: nat
    and loop :: "nat \<Rightarrow> 's \<Rightarrow> bool \<times> 's"
    and attempt :: "'s \<Rightarrow> bool option \<times> 's"
    and between :: "'s \<Rightarrow> 's"
  assumes loop_unfold: "loop i s =
    (if i < N then
       (case attempt s of
          (Some b, s') \<Rightarrow> (b, s')
        | (None, s') \<Rightarrow> loop (Suc i) (if i < N - 1 then between s' else s'))
     else (False, s))"
begin

lemma loop_done: "N \<le> i \<Longrightarrow> loop i s = (False, s)"
  using loop_unfold [of i s] by simp

text \<open>A first attempt that decides ends the loop at once.\<close>

lemma loop_first: "attempt s = (Some b, s') \<Longrightarrow> i < N \<Longrightarrow> loop i s = (b, s')"
  using loop_unfold [of i s] by simp

lemma loop_again:
  "attempt s = (None, s') \<Longrightarrow> i < N \<Longrightarrow>
   loop i s = loop (Suc i) (if i < N - 1 then between s' else s')"
  using loop_unfold [of i s] by simp

text \<open>
  What a loop may cost: with at most \<open>a\<close> per attempt and \<open>c\<close> per pause, the whole
  loop costs at most \<open>N\<close> attempts and \<open>N - 1\<close> pauses.
\<close>

lemma loop_cost:
  fixes cost :: "'s \<Rightarrow> nat"
  assumes att: "\<And>s. cost (snd (attempt s)) \<le> cost s + a"
    and btw: "\<And>s. cost (between s) \<le> cost s + c"
  shows "cost (snd (loop i s)) \<le> cost s + (N - i) * a + (N - 1 - i) * c"
proof (induction "N - i" arbitrary: i s)
  case 0
  then show ?case by (simp add: loop_done)
next
  case (Suc n)
  obtain ob t where a: "attempt s = (ob, t)" by force
  have st: "cost t \<le> cost s + a" using att [of s] a by simp
  have i: "i < N" using Suc.hyps(2) by simp
  have Ni: "N - i = Suc (N - Suc i)" using i by simp
  show ?case
  proof (cases ob)
    case (Some b)
    have "loop i s = (b, t)" using a Some i by (simp add: loop_first)
    then show ?thesis using st by (simp add: Ni)
  next
    case None
    let ?t = "if i < N - 1 then between t else t"
    have eq: "loop i s = loop (Suc i) ?t"
      using None a i loop_again by blast
    have "cost ?t \<le> cost t + (if i < N - 1 then c else 0)"
      using btw by simp
    moreover have "cost (snd (loop (Suc i) ?t)) \<le> cost ?t + (N - Suc i) * a + (N - 1 - Suc i) * c"
      using Suc.hyps(2) by (intro Suc.hyps(1)) simp
    moreover have "(N - 1 - i) * c = (if i < N - 1 then c else 0) + (N - 1 - Suc i) * c"
      using i by (cases "i < N - 1") (simp_all flip: mult_Suc add: Suc_diff_Suc)
    ultimately show ?thesis using st eq by (simp add: Ni)
  qed
qed

text \<open>
  A loop that only stops early on success does not give up before its last attempt: with a
  fixed cost per attempt and per pause, a failure costs all of them.
\<close>

lemma loop_exhausts:
  fixes cost :: "'s \<Rightarrow> nat"
  assumes att: "\<And>s. cost (snd (attempt s)) = cost s + a"
    and btw: "\<And>s. cost (between s) = cost s + c"
    and no_refusal: "\<And>s. fst (attempt s) \<noteq> Some False"
    and failed: "loop i s = (False, s')"
  shows "cost s' = cost s + (N - i) * a + (N - 1 - i) * c"
  using failed
proof (induction "N - i" arbitrary: i s)
  case 0
  then show ?case by (simp add: loop_done)
next
  case (Suc n)
  obtain ob t where a: "attempt s = (ob, t)" by force
  have i: "i < N" using Suc.hyps(2) by simp
  have "ob = None"
  proof (cases ob)
    case (Some b)
    then have "b" using no_refusal [of s] a by (cases b) auto
    then show ?thesis using Some a i Suc.prems by (simp add: loop_first)
  qed
  let ?t = "if i < N - 1 then between t else t"
  have "loop (Suc i) ?t = (False, s')"
    using \<open>ob = None\<close> a i Suc.prems loop_again [of s t i] by simp
  then have "cost s' = cost ?t + (N - Suc i) * a + (N - 1 - Suc i) * c"
    using Suc.hyps(2) by (intro Suc.hyps(1)) simp
  moreover have "cost ?t = cost s + a + (if i < N - 1 then c else 0)"
    using att [of s] btw a by simp
  moreover have "(N - 1 - i) * c = (if i < N - 1 then c else 0) + (N - 1 - Suc i) * c"
    using i by (cases "i < N - 1") (simp_all flip: mult_Suc add: Suc_diff_Suc)
  moreover have "N - i = Suc (N - Suc i)" using i by simp
  ultimately show ?case by simp
qed

end

text \<open>
  A loop whose attempts and pauses respect a preorder on states (here: only certain calls
  are added to the trace) respects it as a whole, and if it succeeds, it does so by an
  attempt made in a state related to the first one.
\<close>

locale related_retry = retry_loop N loop attempt between
  for N :: nat
    and loop :: "nat \<Rightarrow> 's \<Rightarrow> bool \<times> 's"
    and attempt :: "'s \<Rightarrow> bool option \<times> 's"
    and between :: "'s \<Rightarrow> 's" +
  fixes R :: "'s \<Rightarrow> 's \<Rightarrow> bool"
  assumes R_refl: "R s s"
    and R_trans: "R s t \<Longrightarrow> R t u \<Longrightarrow> R s u"
    and R_attempt: "R s (snd (attempt s))"
    and R_between: "R s (between s)"
begin

lemma loop_relates: "R s (snd (loop i s))"
proof (induction "N - i" arbitrary: i s)
  case 0
  then show ?case by (simp add: loop_done R_refl)
next
  case (Suc n)
  then have i: "i < N" by simp
  obtain ob t where a: "attempt s = (ob, t)" by force
  have st: "R s t" using R_attempt [of s] a by simp
  show ?case
  proof (cases ob)
    case (Some b)
    then show ?thesis using a st i by (simp add: loop_first)
  next
    case None
    let ?t = "if i < N - 1 then between t else t"
    have "R t ?t" using R_between R_refl by simp
    moreover have "R ?t (snd (loop (Suc i) ?t))"
      using Suc.hyps(2) by (intro Suc.hyps(1)) simp
    moreover have "loop i s = loop (Suc i) ?t"
      using None a i loop_again by blast
    ultimately show ?thesis using st R_trans by metis
  qed
qed

lemma loop_true_attempt:
  "loop i s = (True, s') \<Longrightarrow> \<exists>t. R s t \<and> attempt t = (Some True, s')"
proof (induction "N - i" arbitrary: i s)
  case 0
  then show ?case by (simp add: loop_done)
next
  case (Suc n)
  then have i: "i < N" by simp
  obtain ob t where a: "attempt s = (ob, t)" by force
  show ?case
  proof (cases ob)
    case (Some b)
    with a i Suc.prems have "attempt s = (Some True, s')" by (simp add: loop_first)
    then show ?thesis using R_refl by blast
  next
    case None
    let ?t = "if i < N - 1 then between t else t"
    have "R s ?t"
      using R_attempt [of s] a R_between [of t] R_trans by (auto split: if_splits)
    moreover have "loop (Suc i) ?t = (True, s')"
      using None a i Suc.prems loop_again [of s t i] by simp
    then have "\<exists>u. R ?t u \<and> attempt u = (Some True, s')"
      using Suc.hyps(2) by (intro Suc.hyps(1)) auto
    ultimately show ?thesis using R_trans by blast
  qed
qed

end


section \<open>Systems of labelled steps\<close>

text \<open>Running a schedule: the labels name the steps, a step that is not enabled ends the run.\<close>

fun run_labels :: "('l \<Rightarrow> 's \<Rightarrow> 's option) \<Rightarrow> 'l list \<Rightarrow> 's \<Rightarrow> 's option" where
  "run_labels step [] s = Some s"
| "run_labels step (l # ls) s =
     (case step l s of None \<Rightarrow> None | Some s' \<Rightarrow> run_labels step ls s')"

lemma run_labels_append:
  "run_labels step (ls @ ms) s =
     (case run_labels step ls s of None \<Rightarrow> None | Some s' \<Rightarrow> run_labels step ms s')"
  by (induction step ls s rule: run_labels.induct) (auto split: option.split)

text \<open>
  The interface of an inductive invariant: it holds in every initial state and every step
  keeps it, so it holds along every schedule.
\<close>

locale inductive_invariant =
  fixes initial :: "'s \<Rightarrow> bool"
    and step :: "'l \<Rightarrow> 's \<Rightarrow> 's option"
    and I :: "'s \<Rightarrow> bool"
  assumes holds_initially: "initial s \<Longrightarrow> I s"
    and preserved: "I s \<Longrightarrow> step l s = Some s' \<Longrightarrow> I s'"
begin

lemma along: "I s \<Longrightarrow> run_labels step ls s = Some s' \<Longrightarrow> I s'"
  by (induction ls arbitrary: s) (auto split: option.splits intro: preserved)

lemma everywhere: "initial s \<Longrightarrow> run_labels step ls s = Some s' \<Longrightarrow> I s'"
  using along holds_initially by blast

end

text \<open>
  A measure that every working step lowers, and any other step raises by at most a constant,
  bounds the number of working steps in any schedule.
\<close>

locale step_measure = inductive_invariant initial step I
  for initial :: "'s \<Rightarrow> bool"
    and step :: "'l \<Rightarrow> 's \<Rightarrow> 's option"
    and I :: "'s \<Rightarrow> bool" +
  fixes work :: "'l \<Rightarrow> bool"
    and size_of :: "'s \<Rightarrow> nat"
    and slack :: nat
  assumes lowers: "I s \<Longrightarrow> step l s = Some s' \<Longrightarrow> work l \<Longrightarrow> size_of s' < size_of s"
    and raises_little: "I s \<Longrightarrow> step l s = Some s' \<Longrightarrow> size_of s' \<le> size_of s + slack"
begin

lemma bounded_work:
  "I s \<Longrightarrow> run_labels step ls s = Some s' \<Longrightarrow>
   length (filter work ls) + size_of s' \<le> size_of s + slack * length (filter (\<lambda>l. \<not> work l) ls)"
proof (induction ls arbitrary: s)
  case (Cons l ls)
  then obtain t where t: "step l s = Some t" "run_labels step ls t = Some s'"
    by (auto split: option.splits)
  with Cons have "length (filter work ls) + size_of s' \<le>
      size_of t + slack * length (filter (\<lambda>l. \<not> work l) ls)"
    using preserved by blast
  then show ?case
    using lowers [of s l t] raises_little [of s l t] t(1) Cons.prems(1) by auto
qed simp

text \<open>A system in which some working step is enabled until it is done can always finish.\<close>

lemma can_finish:
  assumes progress: "\<And>s. I s \<Longrightarrow> \<not> done s \<Longrightarrow> \<exists>l s'. work l \<and> step l s = Some s'"
    and "I s"
  shows "\<exists>ls s'. list_all work ls \<and> run_labels step ls s = Some s' \<and> done s'"
  using assms(2)
proof (induction "size_of s" arbitrary: s rule: less_induct)
  case less
  show ?case
  proof (cases "done s")
    case True
    then show ?thesis by (intro exI [of _ "[]"]) simp
  next
    case False
    then obtain l t where l: "work l" "step l s = Some t" using progress less.prems by blast
    then have "I t" "size_of t < size_of s" using preserved lowers less.prems by blast+
    then obtain ls s' where "list_all work ls" "run_labels step ls t = Some s'" "done s'"
      using less.hyps by blast
    with l show ?thesis by (intro exI [of _ "l # ls"]) auto
  qed
qed

end

text \<open>
  The interface of a refinement: every step of the detailed system either leaves the abstract
  state as it is or is a step of the abstract system, so every schedule is a run of that.
\<close>

locale simulation = inductive_invariant initial step I
  for initial :: "'s \<Rightarrow> bool"
    and step :: "'l \<Rightarrow> 's \<Rightarrow> 's option"
    and I :: "'s \<Rightarrow> bool" +
  fixes abs :: "'s \<Rightarrow> 'a"
    and abs_initial :: "'a \<Rightarrow> bool"
    and abs_step :: "'a \<Rightarrow> 'a \<Rightarrow> bool"
  assumes starts: "initial s \<Longrightarrow> abs_initial (abs s)"
    and matches: "I s \<Longrightarrow> step l s = Some s' \<Longrightarrow> abs s' = abs s \<or> abs_step (abs s) (abs s')"
begin

lemma matches_from: "I s \<Longrightarrow> run_labels step ls s = Some s' \<Longrightarrow> abs_step\<^sup>*\<^sup>* (abs s) (abs s')"
proof (induction ls arbitrary: s)
  case (Cons l ls)
  then obtain t where t: "step l s = Some t" "run_labels step ls t = Some s'"
    by (auto split: option.splits)
  with Cons have "abs_step\<^sup>*\<^sup>* (abs t) (abs s')" using preserved by blast
  with matches [OF Cons.prems(1) t(1)] show ?case by (auto intro: converse_rtranclp_into_rtranclp)
qed simp

lemma every_run_matches:
  "initial s \<Longrightarrow> run_labels step ls s = Some s' \<Longrightarrow>
   abs_initial (abs s) \<and> abs_step\<^sup>*\<^sup>* (abs s) (abs s')"
  using starts holds_initially matches_from by blast

end

section \<open>Replacing one element\<close>

lemma mset_concat_update:
  assumes "i < length ws"
  shows "\<exists>R. mset (concat (map f ws)) = mset (f (ws ! i)) + R \<and>
    (\<forall>w. mset (concat (map f (ws[i := w]))) = mset (f w) + R)"
proof -
  let ?R = "mset (concat (map f (take i ws))) + mset (concat (map f (drop (Suc i) ws)))"
  have "ws = take i ws @ ws ! i # drop (Suc i) ws" using assms by (rule id_take_nth_drop)
  then have "map f ws = map f (take i ws) @ f (ws ! i) # map f (drop (Suc i) ws)"
    by (metis list.simps(9) map_append)
  then have "mset (concat (map f ws)) = mset (f (ws ! i)) + ?R" by simp
  moreover have "mset (concat (map f (ws[i := w]))) = mset (f w) + ?R" for w
    using assms by (simp add: upd_conv_take_nth_drop)
  ultimately show ?thesis by blast
qed

lemma in_updateD: "y \<in> set (xs[i := x]) \<Longrightarrow> y = x \<or> y \<in> set xs"
  by (meson insertE set_update_subset_insert subsetD)

end
