(* ===== verification/Go_Strings.thy ===== *)
theory Go_Strings
  imports Prelude
begin

text \<open>
  The part of Go's \<open>strings\<close> and \<open>strconv\<close> packages the program uses, on strings as
  the language has them: sequences of bytes. \<open>TrimSpace\<close> and \<open>Fields\<close> decide by
  \<open>unicode.IsSpace\<close> over the decoded runes, so besides the six ASCII spaces the UTF-8
  encodings of the Unicode spaces are listed; no such encoding starts inside another rune,
  because its first byte is never a continuation byte.
\<close>

abbreviation newline :: char where
  "newline \<equiv> CHR 0x0A"

section \<open>White space\<close>

definition ascii_space :: "char \<Rightarrow> bool" where
  "ascii_space c \<longleftrightarrow> c \<in> {CHR 0x09, CHR 0x0A, CHR 0x0B, CHR 0x0C, CHR 0x0D, CHR 0x20}"

definition wide_spaces :: "string list" where
  "wide_spaces =
     [[CHR 0xC2, CHR 0x85], [CHR 0xC2, CHR 0xA0], [CHR 0xE1, CHR 0x9A, CHR 0x80],
      [CHR 0xE2, CHR 0x80, CHR 0x80], [CHR 0xE2, CHR 0x80, CHR 0x81],
      [CHR 0xE2, CHR 0x80, CHR 0x82], [CHR 0xE2, CHR 0x80, CHR 0x83],
      [CHR 0xE2, CHR 0x80, CHR 0x84], [CHR 0xE2, CHR 0x80, CHR 0x85],
      [CHR 0xE2, CHR 0x80, CHR 0x86], [CHR 0xE2, CHR 0x80, CHR 0x87],
      [CHR 0xE2, CHR 0x80, CHR 0x88], [CHR 0xE2, CHR 0x80, CHR 0x89],
      [CHR 0xE2, CHR 0x80, CHR 0x8A], [CHR 0xE2, CHR 0x80, CHR 0xA8],
      [CHR 0xE2, CHR 0x80, CHR 0xA9], [CHR 0xE2, CHR 0x80, CHR 0xAF],
      [CHR 0xE2, CHR 0x81, CHR 0x9F], [CHR 0xE3, CHR 0x80, CHR 0x80]]"

text \<open>The width of the space a string starts or ends with, 0 when it does not.\<close>

definition space_at_start :: "string \<Rightarrow> nat" where
  "space_at_start s =
     (case s of [] \<Rightarrow> 0
      | c # _ \<Rightarrow> if ascii_space c then 1
                 else case find (\<lambda>w. prefix w s) wide_spaces of None \<Rightarrow> 0 | Some w \<Rightarrow> length w)"

definition space_at_end :: "string \<Rightarrow> nat" where
  "space_at_end s =
     (if s = [] then 0
      else if ascii_space (last s) then 1
      else case find (\<lambda>w. suffix w s) wide_spaces of None \<Rightarrow> 0 | Some w \<Rightarrow> length w)"

lemma space_at_start_le: "space_at_start s \<le> length s"
  by (auto simp: space_at_start_def find_Some_iff split: list.splits option.splits
      dest: prefix_length_le)

lemma space_at_end_le: "space_at_end s \<le> length s"
  by (auto simp: space_at_end_def find_Some_iff Suc_le_eq split: option.splits
      dest: suffix_length_le)

function trim_left :: "string \<Rightarrow> string" where
  "trim_left s = (if space_at_start s = 0 then s else trim_left (drop (space_at_start s) s))"
  by pat_completeness auto
termination
proof (relation "measure length")
  fix s assume "space_at_start s \<noteq> 0"
  with space_at_start_le [of s] show "(drop (space_at_start s) s, s) \<in> measure length"
    by auto
qed simp

function trim_right :: "string \<Rightarrow> string" where
  "trim_right s =
     (if space_at_end s = 0 then s else trim_right (take (length s - space_at_end s) s))"
  by pat_completeness auto
termination
proof (relation "measure length")
  fix s assume "space_at_end s \<noteq> 0"
  with space_at_end_le [of s]
  show "(take (length s - space_at_end s) s, s) \<in> measure length"
    by auto
qed simp

declare trim_left.simps [simp del] trim_right.simps [simp del]

definition TrimSpace :: "string \<Rightarrow> string" where
  "TrimSpace s = trim_right (trim_left s)"

function fields_from :: "string \<Rightarrow> string \<Rightarrow> string list" where
  "fields_from cur s =
     (if s = [] then (if cur = [] then [] else [cur])
      else if space_at_start s = 0 then fields_from (cur @ [hd s]) (tl s)
      else (if cur = [] then [] else [cur]) @ fields_from [] (drop (space_at_start s) s))"
  by pat_completeness auto
termination
proof (relation "measure (\<lambda>(cur, s). length s)")
  fix cur s :: string assume "s \<noteq> []" and "space_at_start s \<noteq> 0"
  with space_at_start_le [of s]
  show "(([], drop (space_at_start s) s), (cur, s)) \<in> measure (\<lambda>(cur, s). length s)"
    by auto
qed auto

declare fields_from.simps [simp del]

definition Fields :: "string \<Rightarrow> string list" where
  "Fields s = fields_from [] s"

lemma trim_left_ends: "space_at_start (trim_left s) = 0"
  by (induction s rule: trim_left.induct) (simp add: trim_left.simps)

lemma trim_right_ends: "space_at_end (trim_right s) = 0"
  by (induction s rule: trim_right.induct) (simp add: trim_right.simps)

lemma trim_right_prefix: "prefix (trim_right s) s"
proof (induction s rule: trim_right.induct)
  case (1 s)
  then show ?case
    by (cases "space_at_end s = 0")
      (auto simp: trim_right.simps [of s] intro: prefix_order.trans take_is_prefix)
qed

text \<open>A prefix of a string that starts with no space starts with none.\<close>

lemma space_at_start_prefix:
  assumes "prefix s t" and "space_at_start t = 0"
  shows "space_at_start s = 0"
proof (cases s)
  case (Cons c cs)
  with assms(1) obtain t' where t: "t = c # t'" by (auto simp: prefix_def)
  with assms(2) have "\<not> ascii_space c" by (auto simp: space_at_start_def)
  moreover have "find (\<lambda>w. prefix w s) wide_spaces = None"
  proof -
    have "w \<noteq> []" if "w \<in> set wide_spaces" for w
      using that by (auto simp: wide_spaces_def)
    then have "find (\<lambda>w. prefix w t) wide_spaces = None"
      using assms(2) t \<open>\<not> ascii_space c\<close>
      by (auto simp: space_at_start_def split: option.splits dest: find_Some_iff [THEN iffD1])
         (metis find_Some_iff nth_mem)
    then show ?thesis using assms(1)
      by (auto simp: find_None_iff intro: prefix_order.trans)
  qed
  ultimately show ?thesis using Cons by (simp add: space_at_start_def)
qed (simp add: space_at_start_def)

lemma TrimSpace_ends: "space_at_start (TrimSpace s) = 0" "space_at_end (TrimSpace s) = 0"
  unfolding TrimSpace_def
  using trim_left_ends trim_right_ends trim_right_prefix space_at_start_prefix by blast+

lemma TrimSpace_ident: "space_at_start s = 0 \<Longrightarrow> space_at_end s = 0 \<Longrightarrow> TrimSpace s = s"
  by (simp add: TrimSpace_def trim_left.simps [of s] trim_right.simps [of s])

lemma TrimSpace_idem [simp]: "TrimSpace (TrimSpace s) = TrimSpace s"
  by (intro TrimSpace_ident TrimSpace_ends)

lemma TrimSpace_Nil [simp]: "TrimSpace [] = []"
  by (rule TrimSpace_ident) (simp_all add: space_at_start_def space_at_end_def)

section \<open>Joining, splitting, searching\<close>

fun Join :: "string list \<Rightarrow> string \<Rightarrow> string" where
  "Join [] sep = []"
| "Join [x] sep = x"
| "Join (x # y # xs) sep = x @ sep @ Join (y # xs) sep"

text \<open>\<open>strings.Split\<close> with a separator of one byte.\<close>

fun Split :: "string \<Rightarrow> char \<Rightarrow> string list" where
  "Split [] c = [[]]"
| "Split (x # xs) c =
     (if x = c then [] # Split xs c
      else case Split xs c of [] \<Rightarrow> [[x]] | y # ys \<Rightarrow> (x # y) # ys)"

lemma Split_nonempty [simp]: "Split s c \<noteq> []"
  by (cases s) (auto split: list.splits)

lemma Join_Cons: "xs \<noteq> [] \<Longrightarrow> Join (x # xs) sep = x @ sep @ Join xs sep"
  by (cases xs) auto

lemma Join_Split: "Join (Split s c) [c] = s"
proof (induction s)
  case (Cons x xs)
  then show ?case by (cases "Split xs c"; cases "tl (Split xs c)") (auto simp: Join_Cons)
qed simp

lemma Split_pieces: "\<forall>p \<in> set (Split s c). c \<notin> set p"
  by (induction s) (auto split: list.splits)

text \<open>Pieces without the separator come back from their join.\<close>

lemma Split_no_sep: "c \<notin> set s \<Longrightarrow> Split s c = [s]"
  by (induction s) auto

lemma Split_Cons_Join:
  assumes "c \<notin> set x"
  shows "Split (x @ c # s) c = x # Split s c"
  using assms by (induction x) auto

lemma Split_Join: "xs \<noteq> [] \<Longrightarrow> \<forall>x \<in> set xs. c \<notin> set x \<Longrightarrow> Split (Join xs [c]) c = xs"
proof (induction xs)
  case (Cons x xs)
  then show ?case by (cases "xs = []") (simp_all add: Split_no_sep Join_Cons Split_Cons_Join)
qed simp

text \<open>\<open>strings.SplitN(s, sep, 2)[0]\<close>: what comes before the first separator.\<close>

definition before_first :: "string \<Rightarrow> char \<Rightarrow> string" where
  "before_first s c = takeWhile (\<lambda>x. x \<noteq> c) s"

definition HasPrefix :: "string \<Rightarrow> string \<Rightarrow> bool" where
  "HasPrefix s p \<longleftrightarrow> prefix p s"

definition Contains :: "string \<Rightarrow> string \<Rightarrow> bool" where
  "Contains s p \<longleftrightarrow> sublist p s"

text \<open>\<open>strings.IndexByte\<close>, with \<open>None\<close> for the answer -1.\<close>

fun IndexByte :: "string \<Rightarrow> char \<Rightarrow> nat option" where
  "IndexByte [] c = None"
| "IndexByte (x # xs) c = (if x = c then Some 0 else map_option Suc (IndexByte xs c))"

lemma IndexByte_Some:
  "IndexByte s c = Some i \<Longrightarrow> i < length s \<and> s ! i = c \<and> c \<notin> set (take i s)"
  by (induction s arbitrary: i) (auto split: if_splits)

lemma IndexByte_None: "IndexByte s c = None \<longleftrightarrow> c \<notin> set s"
  by (induction s) auto

text \<open>\<open>strings.TrimRight(s, cutset)\<close> for a cutset of one byte.\<close>

definition TrimRight :: "string \<Rightarrow> char \<Rightarrow> string" where
  "TrimRight s c = rev (dropWhile (\<lambda>x. x = c) (rev s))"

text \<open>\<open>strings.EqualFold(s, "y")\<close>: the letter y folds only with its capital.\<close>

definition equal_fold_y :: "string \<Rightarrow> bool" where
  "equal_fold_y s \<longleftrightarrow> s = ''y'' \<or> s = ''Y''"

section \<open>Decimal numbers\<close>

function digits_of :: "int \<Rightarrow> string" where
  "digits_of n =
     (if n < 10 then [''0123456789'' ! nat n]
      else digits_of (n div 10) @ [''0123456789'' ! nat (n mod 10)])"
  by pat_completeness auto
termination by (relation "measure nat") auto

declare digits_of.simps [simp del]

definition Itoa :: "int \<Rightarrow> string" where
  "Itoa i = (if i < 0 then CHR ''-'' # digits_of (- i) else digits_of i)"

end
