(* ===== verification/Hosts.thy ===== *)
theory Hosts
  imports Go_Strings
begin

text \<open>
  \<open>deployment/hosts.go\<close>: the inventory of managed hosts and its three selections (the
  names a predicate picks, the hosts that are only built, the hosts that are deployed).
\<close>

section \<open>Data\<close>

text \<open>\<open>ConnCheck\<close> is a string type: the seven named checks, and any other string.\<close>

datatype conn_check =
    CheckSSH | CheckPingGateway | CheckPing6Gateway | CheckPingInternet
  | CheckDNS | CheckIPv6Tunnel | CheckIPv6Internet | OtherCheck string

record host =
  Name :: string
  FlakeName :: string
  Domain :: string
  SSHAddress :: string
  Order :: int
  K8sHealthCheck :: bool
  CephHealthCheck :: bool
  Groups :: "string list"
  Default :: bool
  ConnChecks :: "conn_check list"

text \<open>Go's zero value of the struct, which the composite literals below start from.\<close>

definition zero_host :: host where
  "zero_host = \<lparr>Name = [], FlakeName = [], Domain = [], SSHAddress = [], Order = 0,
     K8sHealthCheck = False, CephHealthCheck = False, Groups = [], Default = False,
     ConnChecks = []\<rparr>"

definition FQDN :: "host \<Rightarrow> string" where
  "FQDN h =
     (if SSHAddress h \<noteq> [] then SSHAddress h
      else if Domain h = [] then Name h
      else Name h @ ''.'' @ Domain h)"

fun in_group :: "string list \<Rightarrow> string \<Rightarrow> bool" where
  "in_group [] g = False"
| "in_group (hg # hgs) g = (if hg = g then True else in_group hgs g)"

definition InGroup :: "host \<Rightarrow> string \<Rightarrow> bool" where
  "InGroup h g = in_group (Groups h) g"

lemma InGroup_iff: "InGroup h g \<longleftrightarrow> g \<in> set (Groups h)"
proof -
  have "in_group hgs g \<longleftrightarrow> g \<in> set hgs" for hgs by (induction hgs) auto
  then show ?thesis by (simp add: InGroup_def)
qed

section \<open>The inventory\<close>

definition AllHosts :: "host list" where
  "AllHosts =
    [zero_host\<lparr>Name := ''fus'', FlakeName := ''fus'', Order := 10, K8sHealthCheck := True,
       Groups := [''k3s'', ''infra''], Default := True,
       ConnChecks := [CheckSSH, CheckPing6Gateway]\<rparr>,
     zero_host\<lparr>Name := ''ro'', FlakeName := ''ro'', Order := 11, K8sHealthCheck := True,
       Groups := [''k3s'', ''infra''], Default := True,
       ConnChecks := [CheckSSH, CheckPing6Gateway]\<rparr>,
     zero_host\<lparr>Name := ''dah'', FlakeName := ''dah'', Order := 12, K8sHealthCheck := True,
       Groups := [''k3s'', ''infra''], Default := True,
       ConnChecks := [CheckSSH, CheckPing6Gateway]\<rparr>,
     zero_host\<lparr>Name := ''joor'', FlakeName := ''joor'', Order := 13, K8sHealthCheck := True,
       CephHealthCheck := True, Groups := [''k3s'', ''infra''], Default := True,
       ConnChecks := [CheckSSH, CheckPing6Gateway]\<rparr>,
     zero_host\<lparr>Name := ''zah'', FlakeName := ''zah'', Order := 14, K8sHealthCheck := True,
       CephHealthCheck := True, Groups := [''k3s'', ''infra''], Default := True,
       ConnChecks := [CheckSSH, CheckPing6Gateway]\<rparr>,
     zero_host\<lparr>Name := ''frul'', FlakeName := ''frul'', Order := 15, K8sHealthCheck := True,
       CephHealthCheck := True, Groups := [''k3s'', ''infra''], Default := True,
       ConnChecks := [CheckSSH, CheckPing6Gateway]\<rparr>,
     zero_host\<lparr>Name := ''wabbajack'', FlakeName := ''wabbajack'', Order := 20,
       Groups := [''infra''], Default := True,
       ConnChecks := [CheckSSH, CheckPingGateway, CheckPing6Gateway]\<rparr>,
     zero_host\<lparr>Name := ''talos'', FlakeName := ''talos'', Order := 21,
       Groups := [''workstation''], Default := True,
       ConnChecks := [CheckSSH, CheckPingGateway]\<rparr>,
     zero_host\<lparr>Name := ''lydia'', FlakeName := ''lydia'', Order := 30,
       Groups := [''infra''], Default := True,
       ConnChecks := [CheckSSH, CheckPingGateway]\<rparr>,
     zero_host\<lparr>Name := ''dovahkiin'', FlakeName := ''dovahkiin'', Order := 40,
       Groups := [''workstation''], Default := False, ConnChecks := [CheckSSH]\<rparr>,
     zero_host\<lparr>Name := ''guevenne'', FlakeName := ''guevenne'', Order := 41,
       Groups := [''media''], Default := False, ConnChecks := [CheckSSH]\<rparr>,
     zero_host\<lparr>Name := ''skyforge'', FlakeName := ''skyforge'', Order := 50,
       Groups := [''printer''], Default := True, ConnChecks := [CheckSSH]\<rparr>,
     zero_host\<lparr>Name := ''nelkir'', FlakeName := ''nelkir'', Order := 51,
       Groups := [''media''], Default := False, ConnChecks := [CheckSSH]\<rparr>,
     zero_host\<lparr>Name := ''dragonsreach'', FlakeName := ''dragonsreach'',
       SSHAddress := ''10.28.0.1'', Order := 99, Groups := [''infra'', ''router''],
       Default := True,
       ConnChecks := [CheckSSH, CheckPingInternet, CheckDNS, CheckIPv6Tunnel, CheckIPv6Internet]\<rparr>]"

section \<open>Selections\<close>

definition HostNames :: "host list \<Rightarrow> (host \<Rightarrow> bool) \<Rightarrow> string list" where
  "HostNames all pred = map Name (filter pred (sort_key Order all))"

definition BuildOnlyHosts :: "host list \<Rightarrow> string list \<Rightarrow> host list" where
  "BuildOnlyHosts all names =
     (if names \<noteq> [] then []
      else sort_key Order (filter (\<lambda>h. \<not> Default h) all))"

datatype select_error = UnknownHosts "string list" "string list"

text \<open>The map from names to hosts: filled in order, so a later host wins.\<close>

fun by_name_from :: "(string \<rightharpoonup> host) \<Rightarrow> host list \<Rightarrow> (string \<rightharpoonup> host)" where
  "by_name_from m [] = m"
| "by_name_from m (h # hs) = by_name_from (m(Name h \<mapsto> h)) hs"

definition by_name :: "host list \<Rightarrow> (string \<rightharpoonup> host)" where
  "by_name all = by_name_from Map.empty all"

text \<open>The loop over the requested names: what is seen, selected and unknown so far.\<close>

fun select_named :: "(string \<rightharpoonup> host) \<Rightarrow> string list \<Rightarrow> string set \<Rightarrow> host list \<Rightarrow> string list
    \<Rightarrow> host list \<times> string list" where
  "select_named byName [] seen out unknown = (out, unknown)"
| "select_named byName (n # ns) seen out unknown =
     (let n = TrimSpace n in
      if n = [] \<or> n \<in> seen then select_named byName ns seen out unknown
      else case byName n of
             None \<Rightarrow> select_named byName ns (insert n seen) out (unknown @ [n])
           | Some h \<Rightarrow> select_named byName ns (insert n seen) (out @ [h]) unknown)"

definition SelectHosts :: "host list \<Rightarrow> string list \<Rightarrow> select_error + host list" where
  "SelectHosts all names =
     (if names = [] then Inr (sort_key Order (filter Default all))
      else let (out, unknown) = select_named (by_name all) names {} [] [] in
        if unknown \<noteq> [] then Inl (UnknownHosts unknown (map Name all))
        else Inr (sort_key Order out))"

section \<open>Facts about the selections\<close>

text \<open>The names a request stands for: trimmed, the empty ones dropped.\<close>

definition wanted :: "string list \<Rightarrow> string set" where
  "wanted names = {n \<in> TrimSpace ` set names. n \<noteq> []}"

lemma by_name_from_dom: "dom (by_name_from m hs) = dom m \<union> Name ` set hs"
  by (induction hs arbitrary: m) auto

lemma by_name_from_Name:
  "by_name_from m hs n = Some h \<Longrightarrow> m n = Some h \<or> Name h = n"
  by (induction hs arbitrary: m) (fastforce split: if_splits)+

lemma by_name_from_in:
  "by_name_from m hs n = Some h \<Longrightarrow> m n = Some h \<or> h \<in> set hs"
  by (induction hs arbitrary: m) (fastforce split: if_splits)+

lemma by_name_dom: "dom (by_name hs) = Name ` set hs"
  by (simp add: by_name_def by_name_from_dom)

lemma by_name_Some: "by_name hs n = Some h \<Longrightarrow> Name h = n \<and> h \<in> set hs"
  unfolding by_name_def
  using by_name_from_Name [of Map.empty hs n h] by_name_from_in [of Map.empty hs n h] by auto

lemma wanted_Nil [simp]: "wanted [] = {}"
  by (simp add: wanted_def)

lemma wanted_Cons:
  "wanted (n # ns) = (if TrimSpace n = [] then wanted ns else insert (TrimSpace n) (wanted ns))"
  by (auto simp: wanted_def)

text \<open>
  The loop, with its three accumulators: it adds exactly the wanted names it has not seen,
  each once, to the selected hosts or to the unknown names.
\<close>

lemma select_named_out:
  "set (fst (select_named m ns seen out unknown)) =
     set out \<union> {h. \<exists>n \<in> wanted ns - seen. m n = Some h}"
  by (induction m ns seen out unknown rule: select_named.induct)
    (auto simp: Let_def wanted_Cons split: option.splits)

lemma select_named_unknown:
  "set (snd (select_named m ns seen out unknown)) =
     set unknown \<union> {n \<in> wanted ns - seen. m n = None}"
  by (induction m ns seen out unknown rule: select_named.induct)
    (auto simp: Let_def wanted_Cons split: option.splits)

lemma select_named_distinct:
  assumes "\<And>n h. m n = Some h \<Longrightarrow> Name h = n"
    and "distinct (map Name out)" and "Name ` set out \<subseteq> seen"
  shows "distinct (map Name (fst (select_named m ns seen out unknown)))"
  using assms
proof (induction m ns seen out unknown rule: select_named.induct)
  case (2 m n ns seen out unknown)
  let ?n = "TrimSpace n"
  consider (skip) "?n = [] \<or> ?n \<in> seen"
    | (unknown) "?n \<noteq> []" "?n \<notin> seen" "m ?n = None"
    | (known) h where "?n \<noteq> []" "?n \<notin> seen" "m ?n = Some h"
    by (cases "m ?n") auto
  then show ?case
  proof cases
    case skip
    then show ?thesis using "2.IH"(1) [OF refl skip "2.prems"] by (simp add: Let_def)
  next
    case unknown
    then show ?thesis
      using "2.IH"(2) [OF refl _ unknown(3) "2.prems"(1,2)] "2.prems"(3)
      by (auto simp: Let_def)
  next
    case (known h)
    then have "Name h = ?n" using "2.prems"(1) by blast
    then show ?thesis
      using "2.IH"(3) [OF refl _ known(3) "2.prems"(1)] "2.prems"(2,3) known
      by (auto simp: Let_def)
  qed
qed simp

text \<open>What a successful and a failed selection are made of.\<close>

lemma by_name_None: "by_name all n = None \<longleftrightarrow> n \<notin> Name ` set all"
  using by_name_dom [of all] by (auto simp: domIff)

lemma by_name_image:
  "Name ` {h. \<exists>n \<in> N. by_name all n = Some h} = N \<inter> Name ` set all"
proof
  show "N \<inter> Name ` set all \<subseteq> Name ` {h. \<exists>n \<in> N. by_name all n = Some h}"
  proof
    fix n assume n: "n \<in> N \<inter> Name ` set all"
    then obtain h where h: "by_name all n = Some h"
      using by_name_None [of all n] by (cases "by_name all n") auto
    have "n = Name h" using by_name_Some [OF h] by simp
    moreover have "h \<in> {h. \<exists>n \<in> N. by_name all n = Some h}" using n h by blast
    ultimately show "n \<in> Name ` {h. \<exists>n \<in> N. by_name all n = Some h}"
      by (rule image_eqI)
  qed
qed (auto dest: by_name_Some)

lemma SelectHosts_plain: "SelectHosts all [] = Inr (sort_key Order (filter Default all))"
  by (simp add: SelectHosts_def)

lemma filter_sort_Order: "filter P (sort_key Order hs) = sort_key Order (filter P hs)"
  by (rule filter_sort)

text \<open>Whatever is asked for, no name is selected twice, and the inventory has each name once.\<close>

lemma SelectHosts_distinct:
  assumes "SelectHosts all names = Inr hs" and "distinct (map Name all)"
  shows "distinct (map Name hs)"
proof (cases "names = []")
  case True
  then show ?thesis using assms by (auto simp: SelectHosts_plain distinct_map_filter)
next
  case False
  have "distinct (map Name (fst (select_named (by_name all) names {} [] [])))"
    using select_named_distinct [of "by_name all" "[]" "{}" names "[]"] by_name_Some by force
  then show ?thesis using assms(1) False by (auto simp: SelectHosts_def split_beta split: if_splits)
qed

lemma AllHosts_names: "distinct (map Name AllHosts)"
  by (simp add: AllHosts_def zero_host_def)

section \<open>Properties\<close>

text \<open>
  A selection by name is exact. When every wanted name is known, the hosts returned
  carry exactly the wanted names, each once, sorted by their order, and all come from the
  inventory; otherwise the error lists exactly the unknown names and the known ones.
\<close>

theorem SelectHosts_named:
  assumes "names \<noteq> []"
  shows "case SelectHosts all names of
      Inl (UnknownHosts unknown known) \<Rightarrow>
        set unknown = wanted names - Name ` set all \<and> unknown \<noteq> [] \<and> known = map Name all
    | Inr hs \<Rightarrow>
        Name ` set hs = wanted names \<and> set hs \<subseteq> set all \<and>
        distinct (map Name hs) \<and> sorted (map Order hs)"
proof -
  obtain out unknown where
    sel: "select_named (by_name all) names {} [] [] = (out, unknown)" by force
  have out: "set out = {h. \<exists>n \<in> wanted names. by_name all n = Some h}"
    using select_named_out [of "by_name all" names "{}" "[]" "[]"] sel by simp
  have unk: "set unknown = wanted names - Name ` set all"
    using select_named_unknown [of "by_name all" names "{}" "[]" "[]"] sel
    by (auto simp: by_name_None)
  have dist: "distinct (map Name out)"
    using select_named_distinct [of "by_name all" "[]" "{}" names "[]"] sel by_name_Some
    by force
  have names: "Name ` set out = wanted names \<inter> Name ` set all"
    by (simp add: out by_name_image)
  have sub: "set out \<subseteq> set all" using out by_name_Some by fastforce
  show ?thesis
  proof (cases "unknown = []")
    case True
    then have "Name ` set out = wanted names" using names unk by auto
    with True dist sub sel assms show ?thesis by (simp add: SelectHosts_def)
  next
    case False
    with unk sel assms show ?thesis by (simp add: SelectHosts_def)
  qed
qed

theorem SelectHosts_named_witness:
  "Name ` set [zero_host\<lparr>Name := ''ro'', Order := 11\<rparr>] = wanted ['' ro '', ''ro''] \<and>
   SelectHosts [zero_host\<lparr>Name := ''ro'', Order := 11\<rparr>] ['' ro '', ''ro''] =
     Inr [zero_host\<lparr>Name := ''ro'', Order := 11\<rparr>]"
proof -
  let ?all = "[zero_host\<lparr>Name := ''ro'', Order := 11\<rparr>]"
  have sel: "SelectHosts ?all ['' ro '', ''ro''] = Inr ?all" by code_simp
  show ?thesis using SelectHosts_named [of "['' ro '', ''ro'']" ?all] sel by simp
qed

text \<open>
  A run without names splits the inventory. What it deploys and what it only builds
  together are the whole inventory, each host once; the first part are the default hosts,
  the second the others, both in deployment order.
\<close>

theorem plain_run_partitions_inventory:
  "\<exists>hs. SelectHosts all [] = Inr hs \<and>
     mset hs + mset (BuildOnlyHosts all []) = mset all \<and>
     set hs = {h \<in> set all. Default h} \<and>
     set (BuildOnlyHosts all []) = {h \<in> set all. \<not> Default h} \<and>
     sorted (map Order hs) \<and> sorted (map Order (BuildOnlyHosts all []))"
proof -
  have "mset (sort_key Order (filter Default all)) + mset (BuildOnlyHosts all []) = mset all"
    by (simp only: BuildOnlyHosts_def mset_sort filter_mset_partition if_False
        not_not simp_thms)
  then show ?thesis by (auto simp: SelectHosts_plain BuildOnlyHosts_def)
qed

end
