(* ===== verification/Commands.thy ===== *)
theory Commands
  imports Hosts
begin

text \<open>
  The external commands the tool issues, as data, and the argument vectors they are run
  with. A command for the shell of a managed host is a \<open>remote\<close>; \<open>render\<close> gives the exact
  string the code builds for it. A \<open>call\<close> is one process started on the deploying
  machine; \<open>call_argv\<close> gives its argv. The ssh multiplexing options of
  \<open>deployment/ssh.go\<close> are here as well, since they are part of the argv.
\<close>

section \<open>ssh multiplexing options\<close>

record ssh_control =
  Dir :: string

text \<open>A nil \<open>*SSHControl\<close> is \<open>None\<close>; every operation accepts it.\<close>

definition enabled :: "ssh_control option \<Rightarrow> bool" where
  "enabled c = (case c of None \<Rightarrow> False | Some ctl \<Rightarrow> Dir ctl \<noteq> [])"

text \<open>
  \<open>filepath.Join(c.Dir, "%C")\<close>: the directory comes from \<open>os.MkdirTemp("/tmp", ...)\<close>, a
  clean path with no trailing slash. Only called when the control is enabled.
\<close>

definition pathPattern :: "ssh_control option \<Rightarrow> string" where
  "pathPattern c = (case c of None \<Rightarrow> [] | Some ctl \<Rightarrow> Dir ctl @ ''/%C'')"

definition sshConnectTimeout :: duration where
  "sshConnectTimeout = 10 * Second"

definition sshServerAliveInterval :: duration where
  "sshServerAliveInterval = 15 * Second"

definition defaultSSHTimeout :: duration where
  "defaultSSHTimeout = 30 * Second"

definition sshControlPersist :: duration where
  "sshControlPersist = 300 * Second"

definition sshControlDropTimeout :: duration where
  "sshControlDropTimeout = 5 * Second"

definition Opts :: "ssh_control option \<Rightarrow> string list" where
  "Opts c =
     (if \<not> enabled c then []
      else [''-o'', ''ControlMaster=auto'',
            ''-o'', ''ControlPath='' @ pathPattern c,
            ''-o'', ''ControlPersist='' @ Itoa (whole_seconds sshControlPersist)])"

definition sshNoMuxOpts :: "string list" where
  "sshNoMuxOpts = [''-o'', ''ControlMaster=no'', ''-o'', ''ControlPath=none'']"

definition directOpts :: "ssh_control option \<Rightarrow> string list" where
  "directOpts c = (if \<not> enabled c then [] else sshNoMuxOpts)"

definition NixSSHOpts :: "ssh_control option \<Rightarrow> string \<Rightarrow> string list" where
  "NixSSHOpts c existing =
     (if \<not> enabled c then []
      else let joined = Join (Opts c) '' '';
               existing = TrimSpace existing;
               joined = (if existing \<noteq> [] then existing @ '' '' @ joined else joined)
           in [''NIX_SSHOPTS='' @ joined])"

definition sshArgv :: "string list \<Rightarrow> host \<Rightarrow> string \<Rightarrow> duration \<Rightarrow> string list" where
  "sshArgv extra h remoteCmd connectTimeout =
     (let connectTimeout = (if connectTimeout \<le> 0 then sshConnectTimeout else connectTimeout) in
      [''ssh'',
       ''-o'', ''BatchMode=yes'',
       ''-o'', ''ConnectTimeout='' @ Itoa (whole_seconds connectTimeout),
       ''-o'', ''ServerAliveInterval='' @ Itoa (whole_seconds sshServerAliveInterval)]
      @ extra @ [FQDN h, remoteCmd])"

definition SSHArgv :: "ssh_control option \<Rightarrow> host \<Rightarrow> string \<Rightarrow> duration \<Rightarrow> string list" where
  "SSHArgv c h remoteCmd connectTimeout = sshArgv (Opts c) h remoteCmd connectTimeout"

definition SSHArgvDirect :: "ssh_control option \<Rightarrow> host \<Rightarrow> string \<Rightarrow> duration \<Rightarrow> string list" where
  "SSHArgvDirect c h remoteCmd connectTimeout = sshArgv (directOpts c) h remoteCmd connectTimeout"

section \<open>Commands for a managed host\<close>

datatype remote =
    EchoOk
  | ReadActive
  | ReadProfile
  | CleanupUnits
  | ClearRebuildUnit
  | ArmTimer string int
  | StopTimer string
  | SwitchTo string string
  | SetProfile string
  | RebootNow
  | RunningKernel
  | CurrentModules
  | BootedParams
  | CurrentParams
  | PingFrom bool string
  | CephQuery string
  | CephSetNoout string
  | CephUnsetNoout string

definition quote_char :: char where
  "quote_char = CHR 0x27"

definition quoted :: "string \<Rightarrow> string" where
  "quoted s = quote_char # s @ [quote_char]"

fun render :: "remote \<Rightarrow> string" where
  "render EchoOk = ''echo ok''"
| "render ReadActive = ''readlink /run/current-system''"
| "render ReadProfile = ''readlink -f /nix/var/nix/profiles/system''"
| "render CleanupUnits = Join
     [''sudo systemctl stop '' @ quoted ''deploy-watchdog-*.timer'' @ '' '' @
        quoted ''deploy-watchdog-*.service'' @ '' 2>/dev/null || true'',
      ''sudo systemctl reset-failed '' @ quoted ''deploy-watchdog-*'' @ '' 2>/dev/null || true'',
      ''sudo systemctl stop nixos-rebuild-switch-to-configuration.service 2>/dev/null || true'',
      ''sudo systemctl reset-failed nixos-rebuild-switch-to-configuration.service 2>/dev/null || true'']
     ''; ''"
| "render ClearRebuildUnit = Join
     [''sudo systemctl stop nixos-rebuild-switch-to-configuration.service'',
      ''sudo systemctl reset-failed nixos-rebuild-switch-to-configuration.service''] ''; ''"
| "render (ArmTimer unit secs) =
     ''sudo systemd-run --unit='' @ unit @ '' --on-active='' @ Itoa secs @ ''s systemctl reboot''"
| "render (StopTimer unit) = Join
     [''sudo systemctl stop '' @ unit @ ''.timer 2>/dev/null || true'',
      ''sudo systemctl stop '' @ unit] ''; ''"
| "render (SwitchTo path sub) = ''sudo '' @ path @ ''/bin/switch-to-configuration '' @ sub"
| "render (SetProfile path) = ''sudo nix-env --profile /nix/var/nix/profiles/system --set '' @ path"
| "render RebootNow = ''sudo systemctl reboot''"
| "render RunningKernel = ''uname -r''"
| "render CurrentModules = ''ls /run/current-system/kernel-modules/lib/modules/''"
| "render BootedParams = ''cat /run/booted-system/kernel-params''"
| "render CurrentParams = ''cat /run/current-system/kernel-params''"
| "render (PingFrom v6 target) =
     ''ping'' @ '' '' @ Join ((if v6 then [''-6''] else []) @ [''-c'', ''3'', ''-W'', ''5'']) '' ''
       @ '' '' @ target"
| "render (CephQuery args) = ''sudo ceph '' @ args @ '' -f json''"
| "render (CephSetNoout name) = ''sudo ceph osd set-group noout '' @ name"
| "render (CephUnsetNoout name) = ''sudo ceph osd unset-group noout '' @ name"

section \<open>Processes on the deploying machine\<close>

record build_opts =
  MaxJobs :: int
  Cores :: int
  Stream :: bool

definition EvalArgv :: "host \<Rightarrow> string list" where
  "EvalArgv h =
     [''nix'', ''eval'', ''--json'',
      ''--option'', ''eval-cache'', ''false'',
      ''.#nixosConfigurations.'' @ FlakeName h @ ''.config.system.build.toplevel'',
      ''--apply'', ''t: { drv = t.drvPath; out = t.outPath; }'']"

definition BuildArgv :: "string list \<Rightarrow> build_opts \<Rightarrow> string list" where
  "BuildArgv drvs opts =
     [''nix'', ''build'', ''--no-link'', ''--print-build-logs''] @ [''--keep-going'']
     @ (if MaxJobs opts > 0 then [''--max-jobs'', Itoa (MaxJobs opts)] else [])
     @ (if Cores opts > 0 then [''--cores'', Itoa (Cores opts)] else [])
     @ map (\<lambda>d. d @ ''^out'') drvs"

definition CopyArgv :: "host \<Rightarrow> string \<Rightarrow> string list" where
  "CopyArgv h path =
     [''nix'', ''copy'', ''--to'', ''ssh-ng://'' @ FQDN h,
      ''--substitute-on-destination'', ''--no-check-sigs'', path]"

datatype via = Muxed | Direct

datatype call =
    SshCall via host remote
  | SshExitHost host
  | SshExitSocket string
  | NixosRebuild string host
  | KubectlGetNode string
  | PingLocal string bool
  | GetentHosts
  | CurlPrintStats host
  | NixEval host
  | NixBuild "string list" build_opts
  | NixPathInfo string
  | NixCopy host string

fun call_argv :: "ssh_control option \<Rightarrow> call \<Rightarrow> string list" where
  "call_argv c (SshCall Muxed h cmd) = SSHArgv c h (render cmd) sshConnectTimeout"
| "call_argv c (SshCall Direct h cmd) = SSHArgvDirect c h (render cmd) sshConnectTimeout"
| "call_argv c (SshExitHost h) =
     [''ssh'', ''-o'', ''BatchMode=yes'', ''-o'', ''ControlPath='' @ pathPattern c,
      ''-O'', ''exit'', FQDN h]"
| "call_argv c (SshExitSocket sock) =
     [''ssh'', ''-o'', ''BatchMode=yes'', ''-o'', ''ControlPath='' @ sock,
      ''-O'', ''exit'', ''dummyhost'']"
| "call_argv c (NixosRebuild nrMode h) =
     [''nixos-rebuild'', nrMode,
      ''--flake'', ''.#'' @ FlakeName h,
      ''--target-host'', FQDN h,
      ''--use-substitutes'', ''--sudo'', ''--no-reexec'']"
| "call_argv c (KubectlGetNode name) =
     [''kubectl'', ''get'', ''node'', name,
      ''-o'', ''jsonpath={.status.conditions[?(@.type=='' @ quoted ''Ready'' @ '')].status}'']"
| "call_argv c (PingLocal target v6) =
     [''ping''] @ (if v6 then [''-6''] else []) @ [''-c'', ''3'', ''-W'', ''5'', target]"
| "call_argv c GetentHosts = [''getent'', ''hosts'', ''google.com'']"
| "call_argv c (CurlPrintStats h) =
     [''curl'', ''-fsS'', ''--max-time'', ''5'',
      ''http://'' @ FQDN h @ '':7125/printer/objects/query?print_stats'']"
| "call_argv c (NixEval h) = EvalArgv h"
| "call_argv c (NixBuild drvs opts) = BuildArgv drvs opts"
| "call_argv c (NixPathInfo path) = [''nix'', ''path-info'', path]"
| "call_argv c (NixCopy h path) = CopyArgv h path"

lemma call_argv_nonempty: "call_argv c k \<noteq> []"
  by (cases "(c, k)" rule: call_argv.cases)
    (simp_all add: SSHArgv_def SSHArgvDirect_def sshArgv_def EvalArgv_def BuildArgv_def
      CopyArgv_def)

end
