(* ===== verification/Runner.thy ===== *)
theory Runner
  imports Commands
begin

text \<open>
  \<open>deployment/runner.go\<close>: running external commands. The operating system and the
  managed hosts behind it are the parameter of the whole model, a \<open>machine\<close>: what a
  process does, given its argv, environment and time limit, how long it takes, how the
  world changes while the tool sleeps, the wall clock, and the few file system operations
  of the ssh control directory. A run is a state that carries that world, the clock,
  the warnings of the run and, as a ghost, the trace of what was done, which the properties
  are stated over. The second half is the \<open>FakeRunner\<close> of \<open>runner_fake.go\<close>: a machine
  that answers from a script, used to evaluate the model at concrete inputs.
\<close>

section \<open>Results of a command\<close>

record run_result =
  Stdout :: string
  Stderr :: string
  ExitCode :: int
  TimedOut :: bool
  Err :: "string option"

definition zero_result :: run_result where
  "zero_result = \<lparr>Stdout = [], Stderr = [], ExitCode = 0, TimedOut = False, Err = None\<rparr>"

definition Failed :: "run_result \<Rightarrow> bool" where
  "Failed r \<longleftrightarrow> Err r \<noteq> None \<or> TimedOut r \<or> ExitCode r \<noteq> 0"

text \<open>An error of Go: an exit status, an error that wraps another, or any other.\<close>

datatype go_error = ExitError int | Wrapped go_error | OtherError string

fun asExit :: "go_error \<Rightarrow> int option" where
  "asExit (ExitError code) = Some code"
| "asExit (Wrapped e) = asExit e"
| "asExit (OtherError msg) = None"

fun error_text :: "go_error \<Rightarrow> string" where
  "error_text (ExitError code) = ''exit status '' @ Itoa code"
| "error_text (Wrapped e) = error_text e"
| "error_text (OtherError msg) = msg"

text \<open>
  What the operating system reports of a finished process: its two streams, the error of
  \<open>cmd.Run\<close>, whether the deadline of the context had passed, and how long it took.
\<close>

record process =
  proc_out :: string
  proc_err :: string
  run_error :: "go_error option"
  deadline_passed :: bool
  elapsed :: nat

definition result_of :: "process \<Rightarrow> run_result" where
  "result_of p =
     (let res = zero_result\<lparr>Stdout := proc_out p, Stderr := proc_err p\<rparr> in
      if deadline_passed p then res\<lparr>TimedOut := True\<rparr>
      else case run_error p of
             Some err \<Rightarrow>
               (case asExit err of
                  Some code \<Rightarrow> res\<lparr>ExitCode := code\<rparr>
                | None \<Rightarrow> res\<lparr>Err := Some (error_text err)\<rparr>)
           | None \<Rightarrow> res)"

section \<open>Environment of a process\<close>

text \<open>One override: replace the first entry of its key in place, or append.\<close>

fun replace_entry :: "string \<Rightarrow> string \<Rightarrow> string list \<Rightarrow> string list option" where
  "replace_entry key kv [] = None"
| "replace_entry key kv (e # es) =
     (if HasPrefix e key then Some (kv # es)
      else map_option ((#) e) (replace_entry key kv es))"

definition merge_one :: "string list \<Rightarrow> string \<Rightarrow> string list" where
  "merge_one out kv =
     (case IndexByte kv CHR ''='' of
        None \<Rightarrow> out @ [kv]
      | Some eq \<Rightarrow>
          (case replace_entry (take (eq + 1) kv) kv out of
             Some out' \<Rightarrow> out'
           | None \<Rightarrow> out @ [kv]))"

fun mergeEnv :: "string list \<Rightarrow> string list \<Rightarrow> string list" where
  "mergeEnv base [] = base"
| "mergeEnv base (kv # overrides) = mergeEnv (merge_one base kv) overrides"

text \<open>\<open>os.Getenv\<close>: the entry of a name, empty when there is none.\<close>

fun Getenv :: "string list \<Rightarrow> string \<Rightarrow> string" where
  "Getenv [] name = []"
| "Getenv (e # es) name =
     (if HasPrefix e (name @ ''='') then drop (length name + 1) e else Getenv es name)"

section \<open>The machine and the state of a run\<close>

record 'w machine =
  exec :: "string list \<Rightarrow> string list \<Rightarrow> duration \<Rightarrow> 'w \<Rightarrow> process \<times> 'w"
  environ :: "string list"
  nap :: "duration \<Rightarrow> 'w \<Rightarrow> nat \<times> 'w"
  wall_clock :: "'w \<Rightarrow> int"
  mkdir_temp :: "string \<Rightarrow> string \<Rightarrow> 'w \<Rightarrow> (string + string) \<times> 'w"
  list_dir :: "string \<Rightarrow> 'w \<Rightarrow> string list"
  remove_all :: "string \<Rightarrow> 'w \<Rightarrow> 'w"

text \<open>
  \<open>ExecRunner\<close>: whether the command echo is suppressed (\<open>Quiet\<close>, of no effect on what is
  run) and the ssh control directory of the run.
\<close>

record 'w runner =
  Quiet :: bool
  Control :: "ssh_control option"
  os :: "'w machine"

datatype event =
    Ran call run_result
  | Slept duration
  | Asked string bool
  | RemovedDir string

record 'w st =
  world :: 'w
  clock :: int
  warnings :: "string list"
  trace :: "event list"

definition Run :: "'w runner \<Rightarrow> call \<Rightarrow> string list \<Rightarrow> duration \<Rightarrow> 'w st \<Rightarrow> run_result \<times> 'w st" where
  "Run r k env timeout s =
     (let cmd_env = (if env \<noteq> [] then mergeEnv (environ (os r)) env else environ (os r));
          (p, w) = exec (os r) (call_argv (Control r) k) cmd_env timeout (world s);
          res = result_of p
      in (res, s\<lparr>world := w, clock := clock s + int (elapsed p),
                 trace := trace s @ [Ran k res]\<rparr>))"

text \<open>\<open>time.Sleep\<close>: at least the duration; the machine says how much longer it took.\<close>

definition time_sleep :: "'w machine \<Rightarrow> duration \<Rightarrow> 'w st \<Rightarrow> 'w st" where
  "time_sleep m d s =
     (let (extra, w) = nap m d (world s) in
      s\<lparr>world := w, clock := clock s + max 0 d + int extra, trace := trace s @ [Slept d]\<rparr>)"

section \<open>Echo of a command\<close>

definition controlEchoOpts :: "string list" where
  "controlEchoOpts = [''ControlMaster='', ''ControlPath='', ''ControlPersist='']"

fun hasAnyPrefix :: "string \<Rightarrow> string list \<Rightarrow> bool" where
  "hasAnyPrefix s [] = False"
| "hasAnyPrefix s (p # ps) = (if HasPrefix s p then True else hasAnyPrefix s ps)"

fun echoArgv :: "string list \<Rightarrow> string list" where
  "echoArgv [] = []"
| "echoArgv [a] = [a]"
| "echoArgv (a # b # rest) =
     (if a = ''-o'' \<and> hasAnyPrefix b controlEchoOpts then echoArgv rest
      else a # echoArgv (b # rest))"

section \<open>Operations that extend the trace\<close>

text \<open>The class of events in which every process run satisfies a predicate.\<close>

fun runs :: "(call \<Rightarrow> bool) \<Rightarrow> event \<Rightarrow> bool" where
  "runs Q (Ran k res) = Q k"
| "runs Q (Slept d) = True"
| "runs Q (Asked prompt b) = True"
| "runs Q (RemovedDir dir) = True"

lemma runs_mono: "runs P e \<Longrightarrow> (\<And>k. P k \<Longrightarrow> Q k) \<Longrightarrow> runs Q e"
  by (cases e) auto

text \<open>
  The contract every operation on a run keeps: it appends events to the trace in which
  every call is from a given class, the clock never goes back, and the warnings only grow.
\<close>

definition extends :: "(call \<Rightarrow> bool) \<Rightarrow> 'w st \<Rightarrow> 'w st \<Rightarrow> bool" where
  "extends Q s s' \<longleftrightarrow>
     prefix (trace s) (trace s') \<and> list_all (runs Q) (since (trace s) (trace s')) \<and>
     clock s \<le> clock s' \<and> prefix (warnings s) (warnings s')"

lemma extends_refl [simp, extends_intros]: "extends Q s s"
  by (simp add: extends_def)

lemma extends_trans: "extends Q s t \<Longrightarrow> extends Q t u \<Longrightarrow> extends Q s u"
  by (auto simp: extends_def prefix_def since_def list_all_iff)

lemma extends_mono: "extends P s t \<Longrightarrow> (\<And>k. P k \<Longrightarrow> Q k) \<Longrightarrow> extends Q s t"
  by (auto simp: extends_def list_all_iff intro: runs_mono)

lemma extends_since: "extends Q s t \<Longrightarrow> trace t = trace s @ since (trace s) (trace t)"
  by (auto simp: extends_def prefix_def)

lemma extends_clock: "extends Q s t \<Longrightarrow> clock s \<le> clock t"
  by (simp add: extends_def)

lemma extends_events: "extends Q s t \<Longrightarrow> e \<in> set (since (trace s) (trace t)) \<Longrightarrow> runs Q e"
  by (auto simp: extends_def list_all_iff)

lemma since_trans:
  "extends P s t \<Longrightarrow> extends Q t u \<Longrightarrow>
   since (trace s) (trace u) = since (trace s) (trace t) @ since (trace t) (trace u)"
  by (auto simp: extends_def prefix_def)

lemma Run_trace [simp]: "trace (snd (Run r k env t s)) = trace s @ [Ran k (fst (Run r k env t s))]"
  by (simp add: Run_def Let_def split_beta)

lemma Run_warnings [simp]: "warnings (snd (Run r k env t s)) = warnings s"
  by (simp add: Run_def Let_def split_beta)

lemma Run_clock: "clock s \<le> clock (snd (Run r k env t s))"
  by (simp add: Run_def Let_def split_beta)

lemma time_sleep_trace [simp]: "trace (time_sleep m d s) = trace s @ [Slept d]"
  by (simp add: time_sleep_def split_beta)

lemma time_sleep_warnings [simp]: "warnings (time_sleep m d s) = warnings s"
  by (simp add: time_sleep_def split_beta)

lemma time_sleep_clock: "clock s + d \<le> clock (time_sleep m d s)"
  by (simp add: time_sleep_def split_beta)

text \<open>
  The rules by which the component proofs walk through a body: the state before it stays
  fixed, the current state is known to extend it, and each operation moves the current
  state on.
\<close>

lemma extends_bind [extends_intros]:
  "extends Q s (snd m) \<Longrightarrow> (\<And>a u. m = (a, u) \<Longrightarrow> extends Q s u \<Longrightarrow> extends Q s (snd (f a u))) \<Longrightarrow>
   extends Q s (snd (case m of (a, u) \<Rightarrow> f a u))"
  by (cases m) auto

lemma extends_if [extends_intros]:
  "(c \<Longrightarrow> extends Q s (snd a)) \<Longrightarrow> (\<not> c \<Longrightarrow> extends Q s (snd b)) \<Longrightarrow>
   extends Q s (snd (if c then a else b))"
  by simp

lemma extends_if_state [extends_intros]:
  "(c \<Longrightarrow> extends Q s a) \<Longrightarrow> (\<not> c \<Longrightarrow> extends Q s b) \<Longrightarrow> extends Q s (if c then a else b)"
  by simp

lemma extends_Pair [extends_intros]: "extends Q s u \<Longrightarrow> extends Q s (snd (a, u))"
  by simp

lemma Run_extends [extends_intros]:
  "extends Q s u \<Longrightarrow> Q k \<Longrightarrow> extends Q s (snd (Run r k env t u))"
  by (erule extends_trans) (simp add: extends_def Run_clock)

lemma time_sleep_extends [extends_intros]:
  "extends Q s u \<Longrightarrow> 0 \<le> d \<Longrightarrow> extends Q s (time_sleep m d u)"
  using time_sleep_clock [of u d m]
  by - (erule extends_trans, simp add: extends_def)

text \<open>
  The interface the callers of an operation rely on: the class of calls it may make. A
  component interprets it on each operation it offers.
\<close>

locale traced_op =
  fixes op :: "'w st \<Rightarrow> 'a \<times> 'w st"
    and allowed :: "call \<Rightarrow> bool"
  assumes op_extends: "extends allowed s (snd (op s))"
begin

lemma op_from:
  "extends Q s u \<Longrightarrow> (\<And>k. allowed k \<Longrightarrow> Q k) \<Longrightarrow> extends Q s (snd (op u))"
  by (erule extends_trans) (rule extends_mono [OF op_extends])

lemma op_to: "op s = (a, u) \<Longrightarrow> (\<And>k. allowed k \<Longrightarrow> Q k) \<Longrightarrow> extends Q s u"
  using op_from [of Q s s] by auto

lemma op_events: "op s = (a, u) \<Longrightarrow> e \<in> set (since (trace s) (trace u)) \<Longrightarrow> runs allowed e"
  using op_extends [of s] by (auto dest: extends_events)

lemma op_clock: "op s = (a, u) \<Longrightarrow> clock s \<le> clock u"
  using op_extends [of s] by (auto dest: extends_clock)

end

section \<open>Counting events\<close>

fun ran :: "(call \<Rightarrow> bool) \<Rightarrow> event \<Rightarrow> bool" where
  "ran P (Ran k res) = P k"
| "ran P _ = False"

fun is_pause :: "event \<Rightarrow> bool" where
  "is_pause (Slept d) = True"
| "is_pause _ = False"

definition occurs :: "(event \<Rightarrow> bool) \<Rightarrow> event list \<Rightarrow> nat" where
  "occurs P es = length (filter P es)"

lemma occurs_simps [simp]:
  "occurs P [] = 0" "occurs P (e # es) = (if P e then 1 else 0) + occurs P es"
  "occurs P (es @ fs) = occurs P es + occurs P fs"
  by (simp_all add: occurs_def)

lemma occurs_zero: "list_all (\<lambda>e. \<not> P e) es \<Longrightarrow> occurs P es = 0"
  by (induction es) auto

lemma occurs_none: "list_all (runs P) es \<Longrightarrow> (\<And>k. P k \<Longrightarrow> \<not> Q k) \<Longrightarrow> occurs (ran Q) es = 0"
proof (induction es)
  case (Cons e es)
  then show ?case by (cases e) auto
qed simp

lemma occurs_since:
  "extends Q s t \<Longrightarrow> occurs P (trace t) = occurs P (trace s) + occurs P (since (trace s) (trace t))"
  using occurs_simps(3) extends_since by metis

section \<open>The scripted runner\<close>

record fake_response =
  Match :: "string list \<Rightarrow> bool"
  Result :: run_result

fun fake_answer :: "fake_response list \<Rightarrow> string list \<Rightarrow> run_result" where
  "fake_answer [] argv = zero_result"
| "fake_answer (f # fs) argv = (if Match f argv then Result f else fake_answer fs argv)"

fun all_contained :: "string \<Rightarrow> string list \<Rightarrow> bool" where
  "all_contained joined [] = True"
| "all_contained joined (p # ps) = (if \<not> Contains joined p then False else all_contained joined ps)"

definition MatchContains :: "string list \<Rightarrow> string list \<Rightarrow> bool" where
  "MatchContains parts argv = all_contained (Join argv '' '') parts"

text \<open>The recorded calls whose joined argv contains all the parts.\<close>

definition CallsContaining :: "string list list \<Rightarrow> string list \<Rightarrow> string list list" where
  "CallsContaining calls parts = filter (\<lambda>c. all_contained (Join c '' '') parts) calls"

text \<open>
  A process that ends with a given result, so that \<open>result_of\<close> gives the result back for
  the results a script holds: a timeout, an exit code, or a spawn failure.
\<close>

definition process_of :: "run_result \<Rightarrow> process" where
  "process_of res =
     \<lparr>proc_out = Stdout res, proc_err = Stderr res,
      run_error = (case Err res of
                     Some msg \<Rightarrow> Some (OtherError msg)
                   | None \<Rightarrow> if ExitCode res = 0 then None else Some (ExitError (ExitCode res))),
      deadline_passed = TimedOut res, elapsed = 0\<rparr>"

text \<open>
  \<open>FakeRunner.Run\<close> records the argv and answers with the first response that matches. Its
  world is the list of recorded calls.
\<close>

definition fake_machine :: "fake_response list \<Rightarrow> (string list list) machine" where
  "fake_machine responses =
     \<lparr>exec = (\<lambda>argv env timeout calls.
        (process_of (fake_answer responses argv), calls @ [argv])),
      environ = [], nap = (\<lambda>d calls. (0, calls)), wall_clock = (\<lambda>calls. 1700000000),
      mkdir_temp = (\<lambda>dir pre calls. (Inr (dir @ ''/'' @ pre @ ''1''), calls)),
      list_dir = (\<lambda>dir calls. []), remove_all = (\<lambda>dir calls. calls)\<rparr>"

definition fake_runner :: "ssh_control option \<Rightarrow> fake_response list \<Rightarrow> (string list list) runner" where
  "fake_runner c responses = \<lparr>Quiet = False, Control = c, os = fake_machine responses\<rparr>"

definition fresh :: "(string list list) st" where
  "fresh = \<lparr>world = [], clock = 0, warnings = [], trace = []\<rparr>"

section \<open>What the environment of a process holds\<close>

text \<open>The entries of a name, in order: what a reader of the environment can see of it.\<close>

definition entries :: "string \<Rightarrow> string list \<Rightarrow> string list" where
  "entries name es = filter (\<lambda>e. HasPrefix e (name @ ''='')) es"

lemma IndexByte_first: "c \<notin> set xs \<Longrightarrow> IndexByte (xs @ c # ys) c = Some (length xs)"
  by (induction xs) auto

lemma takeWhile_before: "c \<notin> set n \<Longrightarrow> takeWhile (\<lambda>x. x \<noteq> c) (n @ c # v) = n"
  by (induction n) auto

lemma entry_names_differ:
  assumes "CHR ''='' \<notin> set n" "CHR ''='' \<notin> set n'" "n \<noteq> n'"
  shows "\<not> HasPrefix (n @ ''='' @ v) (n' @ ''='')"
proof
  assume "HasPrefix (n @ ''='' @ v) (n' @ ''='')"
  then obtain v' where "n @ CHR ''='' # v = n' @ CHR ''='' # v'"
    by (auto simp: HasPrefix_def prefix_def)
  then have "takeWhile (\<lambda>c. c \<noteq> CHR ''='') (n @ CHR ''='' # v) =
      takeWhile (\<lambda>c. c \<noteq> CHR ''='') (n' @ CHR ''='' # v')" by (rule arg_cong)
  then show False
    using takeWhile_before [OF assms(1)] takeWhile_before [OF assms(2)] assms(3) by metis
qed

lemma replace_entry_None: "replace_entry key kv es = None \<longleftrightarrow> filter (\<lambda>e. HasPrefix e key) es = []"
  by (induction es) auto

lemma replace_entry_same:
  "replace_entry key kv es = Some es' \<Longrightarrow> HasPrefix kv key \<Longrightarrow>
   filter (\<lambda>e. HasPrefix e key) es' = kv # tl (filter (\<lambda>e. HasPrefix e key) es)"
  by (induction es arbitrary: es') (auto split: if_splits)

lemma replace_entry_other:
  "replace_entry key kv es = Some es' \<Longrightarrow> \<not> P kv \<Longrightarrow> (\<And>e. HasPrefix e key \<Longrightarrow> \<not> P e) \<Longrightarrow>
   filter P es' = filter P es"
  by (induction es arbitrary: es') (auto split: if_splits)

lemma merge_one_entries:
  assumes "CHR ''='' \<notin> set name"
  shows "entries name (merge_one base (name @ ''='' @ v)) =
    (name @ ''='' @ v) # tl (entries name base)"
proof -
  have i: "IndexByte (name @ ''='' @ v) CHR ''='' = Some (length name)"
    using IndexByte_first [OF assms, of v] by simp
  have k: "take (length name + 1) (name @ ''='' @ v) = name @ ''=''" by simp
  have pre: "HasPrefix (name @ ''='' @ v) (name @ ''='')" by (simp add: HasPrefix_def)
  show ?thesis
  proof (cases "replace_entry (name @ ''='') (name @ ''='' @ v) base")
    case None
    moreover from this have "filter (\<lambda>e. HasPrefix e (name @ ''='')) base = []"
      by (rule replace_entry_None [THEN iffD1])
    ultimately show ?thesis using i k pre by (simp add: merge_one_def entries_def)
  next
    case (Some es)
    then show ?thesis using i k replace_entry_same [OF Some pre]
      by (simp add: merge_one_def entries_def)
  qed
qed

lemma merge_one_other:
  assumes "CHR ''='' \<notin> set name" "CHR ''='' \<notin> set name'" "name \<noteq> name'"
  shows "entries name' (merge_one base (name @ ''='' @ v)) = entries name' base"
proof -
  have i: "IndexByte (name @ ''='' @ v) CHR ''='' = Some (length name)"
    using IndexByte_first [OF assms(1), of v] by simp
  have k: "take (length name + 1) (name @ ''='' @ v) = name @ ''=''" by simp
  have new: "\<not> HasPrefix (name @ ''='' @ v) (name' @ ''='')"
    using assms by (rule entry_names_differ)
  have old: "\<not> HasPrefix e (name' @ ''='')" if "HasPrefix e (name @ ''='')" for e
  proof -
    from that obtain v where "e = name @ ''='' @ v" by (auto simp: HasPrefix_def prefix_def)
    then show ?thesis using entry_names_differ [OF assms] by simp
  qed
  show ?thesis
  proof (cases "replace_entry (name @ ''='') (name @ ''='' @ v) base")
    case None
    then show ?thesis using i k new by (simp add: merge_one_def entries_def)
  next
    case (Some es)
    then show ?thesis
      using i k replace_entry_other [where P = "\<lambda>e. HasPrefix e (name' @ ''='')", OF Some new old]
      by (simp add: merge_one_def entries_def)
  qed
qed

lemma Getenv_entries:
  "Getenv es name = (case entries name es of [] \<Rightarrow> [] | e # _ \<Rightarrow> drop (length name + 1) e)"
  by (induction es) (auto simp: entries_def)

section \<open>Properties\<close>

text \<open>
  An override wins for every kind of reader. After \<open>NAME=value\<close> is merged into an
  environment that holds the name at most once, the name has exactly one entry, so a
  reader that takes the first one and a reader that takes the last one see the new value;
  every other variable keeps its entries.
\<close>

theorem mergeEnv_overrides:
  assumes "CHR ''='' \<notin> set name" and "length (entries name base) \<le> 1"
  shows "entries name (mergeEnv base [name @ ''='' @ v]) = [name @ ''='' @ v] \<and>
    Getenv (mergeEnv base [name @ ''='' @ v]) name = v \<and>
    (\<forall>name'. CHR ''='' \<in> set name' \<or> name' = name \<or>
       entries name' (mergeEnv base [name @ ''='' @ v]) = entries name' base)"
proof -
  have "tl (entries name base) = []"
    using assms(2) by (cases "entries name base") auto
  then have "entries name (mergeEnv base [name @ ''='' @ v]) = [name @ ''='' @ v]"
    using merge_one_entries [OF assms(1), of base v] by simp
  moreover from this have "Getenv (mergeEnv base [name @ ''='' @ v]) name = v"
    by (subst Getenv_entries) simp
  ultimately show ?thesis using merge_one_other [OF assms(1)] by auto
qed

theorem mergeEnv_overrides_witness:
  "CHR ''='' \<notin> set ''NIX_SSHOPTS'' \<and>
   entries ''NIX_SSHOPTS'' (mergeEnv [''HOME=/root'', ''NIX_SSHOPTS=-i key''] [''NIX_SSHOPTS=-J hop'']) =
     [''NIX_SSHOPTS=-J hop'']"
  using mergeEnv_overrides [of "''NIX_SSHOPTS''" "[''HOME=/root'', ''NIX_SSHOPTS=-i key'']" "''-J hop''"]
  by (simp add: entries_def HasPrefix_def)

end
