(* ===== verification/Ssh.thy ===== *)
theory Ssh
  imports Runner
begin

text \<open>
  \<open>deployment/ssh.go\<close>: running a command on a managed host over the shared ssh master,
  with one redial after a transport failure, once without the redial, or on a connection of
  its own; dropping and closing masters. The argv of each call is in \<open>Commands\<close>.
\<close>

section \<open>The control directory\<close>

text \<open>\<open>NewSSHControl\<close>: no control when the variable is set, an error, or a fresh directory.\<close>

definition NewSSHControl :: "'w machine \<Rightarrow> 'w st \<Rightarrow> (string + ssh_control option) \<times> 'w st" where
  "NewSSHControl m s =
     (if Getenv (environ m) ''DEPLOY_NO_SSH_MUX'' \<noteq> [] then (Inr None, s)
      else case mkdir_temp m ''/tmp'' ''deploy-ssh-'' (world s) of
             (Inl err, w) \<Rightarrow> (Inl err, s\<lparr>world := w\<rparr>)
           | (Inr dir, w) \<Rightarrow> (Inr (Some \<lparr>Dir = dir\<rparr>), s\<lparr>world := w\<rparr>))"

text \<open>
  \<open>Drop\<close> and \<open>Close\<close>. In every use the control is the one the runner carries
  (\<open>controlOf(r)\<close>, or \<open>ctl\<close> with a runner built from it), so it is not a second argument.
\<close>

definition Drop :: "'w runner \<Rightarrow> host \<Rightarrow> 'w st \<Rightarrow> 'w st" where
  "Drop r h s =
     (if \<not> enabled (Control r) then s
      else snd (Run r (SshExitHost h) [] sshControlDropTimeout s))"

definition dropSSHMaster :: "'w runner \<Rightarrow> host \<Rightarrow> 'w st \<Rightarrow> 'w st" where
  "dropSSHMaster r h s = Drop r h s"

fun close_sockets :: "'w runner \<Rightarrow> string list \<Rightarrow> 'w st \<Rightarrow> 'w st" where
  "close_sockets r [] s = s"
| "close_sockets r (sock # socks) s =
     close_sockets r socks (snd (Run r (SshExitSocket sock) [] sshControlDropTimeout s))"

definition remove_dir :: "'w machine \<Rightarrow> string \<Rightarrow> 'w st \<Rightarrow> 'w st" where
  "remove_dir m dir s = s\<lparr>world := remove_all m dir (world s), trace := trace s @ [RemovedDir dir]\<rparr>"

definition Close :: "'w runner \<Rightarrow> 'w st \<Rightarrow> 'w st" where
  "Close r s =
     (case Control r of
        None \<Rightarrow> s
      | Some ctl \<Rightarrow>
          if \<not> enabled (Control r) then s
          else let socks = list_dir (os r) (Dir ctl) (world s)
               in remove_dir (os r) (Dir ctl) (close_sockets r socks s))"

definition nixSSHOptsFor :: "'w runner \<Rightarrow> string list" where
  "nixSSHOptsFor r = NixSSHOpts (Control r) (Getenv (environ (os r)) ''NIX_SSHOPTS'')"

section \<open>Remote commands\<close>

definition transportFailed :: "run_result \<Rightarrow> bool" where
  "transportFailed res \<longleftrightarrow> TimedOut res \<or> ExitCode res = 255"

definition SSHRunOnce :: "'w runner \<Rightarrow> host \<Rightarrow> remote \<Rightarrow> duration \<Rightarrow> 'w st \<Rightarrow> run_result \<times> 'w st" where
  "SSHRunOnce r h cmd timeout s =
     (let timeout = (if timeout \<le> 0 then defaultSSHTimeout else timeout)
      in Run r (SshCall Muxed h cmd) [] timeout s)"

definition SSHRun :: "'w runner \<Rightarrow> host \<Rightarrow> remote \<Rightarrow> duration \<Rightarrow> 'w st \<Rightarrow> run_result \<times> 'w st" where
  "SSHRun r h cmd timeout s =
     (let (res, s) = SSHRunOnce r h cmd timeout s in
      if \<not> transportFailed res \<or> \<not> enabled (Control r) then (res, s)
      else SSHRunOnce r h cmd timeout (dropSSHMaster r h s))"

definition SSHRunDirect :: "'w runner \<Rightarrow> host \<Rightarrow> remote \<Rightarrow> duration \<Rightarrow> 'w st \<Rightarrow> run_result \<times> 'w st" where
  "SSHRunDirect r h cmd timeout s =
     (let timeout = (if timeout \<le> 0 then defaultSSHTimeout else timeout)
      in Run r (SshCall Direct h cmd) [] timeout s)"

definition trimmedEquals :: "string \<Rightarrow> string \<Rightarrow> bool" where
  "trimmedEquals s want \<longleftrightarrow> TrimSpace s = want"

definition sshEchoOK :: "run_result \<Rightarrow> bool" where
  "sshEchoOK res \<longleftrightarrow> \<not> Failed res \<and> trimmedEquals (Stdout res) ''ok''"

definition CheckSSHReachable :: "'w runner \<Rightarrow> host \<Rightarrow> 'w st \<Rightarrow> bool \<times> 'w st" where
  "CheckSSHReachable r h s =
     (let (res, s) = SSHRun r h EchoOk (15 * Second) s in (sshEchoOK res, s))"

definition CheckSSHReachableDirect :: "'w runner \<Rightarrow> host \<Rightarrow> 'w st \<Rightarrow> bool \<times> 'w st" where
  "CheckSSHReachableDirect r h s =
     (let (res, s) = SSHRunDirect r h EchoOk (15 * Second) s in (sshEchoOK res, s))"

section \<open>What the operations add to the trace\<close>

text \<open>The calls of running one remote command over the master.\<close>

definition ssh_calls :: "host \<Rightarrow> remote \<Rightarrow> call \<Rightarrow> bool" where
  "ssh_calls h cmd k \<longleftrightarrow> k = SshCall Muxed h cmd \<or> k = SshExitHost h"

lemma dropSSHMaster_from [extends_intros]:
  "extends Q s u \<Longrightarrow> Q (SshExitHost h) \<Longrightarrow> extends Q s (dropSSHMaster r h u)"
  unfolding dropSSHMaster_def Drop_def by (intro extends_intros)

lemma SSHRunOnce_from [extends_intros]:
  "extends Q s u \<Longrightarrow> Q (SshCall Muxed h cmd) \<Longrightarrow> extends Q s (snd (SSHRunOnce r h cmd t u))"
  unfolding SSHRunOnce_def Let_def by (intro extends_intros)

lemma SSHRunDirect_from [extends_intros]:
  "extends Q s u \<Longrightarrow> Q (SshCall Direct h cmd) \<Longrightarrow> extends Q s (snd (SSHRunDirect r h cmd t u))"
  unfolding SSHRunDirect_def Let_def by (intro extends_intros)

lemma SSHRun_from [extends_intros]:
  "extends Q s u \<Longrightarrow> Q (SshCall Muxed h cmd) \<Longrightarrow> Q (SshExitHost h) \<Longrightarrow>
   extends Q s (snd (SSHRun r h cmd t u))"
  unfolding SSHRun_def Let_def by (intro extends_intros)

interpretation ssh_once: traced_op "SSHRunOnce r h cmd t" "\<lambda>k. k = SshCall Muxed h cmd"
  for r h cmd t
  by unfold_locales (intro extends_intros refl)

interpretation ssh_run: traced_op "SSHRun r h cmd t" "ssh_calls h cmd" for r h cmd t
  by unfold_locales (intro extends_intros; simp add: ssh_calls_def)

interpretation ssh_direct: traced_op "SSHRunDirect r h cmd t" "\<lambda>k. k = SshCall Direct h cmd"
  for r h cmd t
  by unfold_locales (intro extends_intros refl)

interpretation reachable: traced_op "CheckSSHReachable r h" "ssh_calls h EchoOk" for r h
  by unfold_locales
    (unfold CheckSSHReachable_def Let_def, intro extends_intros; simp add: ssh_calls_def)

interpretation reachable_direct:
  traced_op "CheckSSHReachableDirect r h" "\<lambda>k. k = SshCall Direct h EchoOk" for r h
  by unfold_locales (unfold CheckSSHReachableDirect_def Let_def, intro extends_intros refl)

lemma SSHRunOnce_trace [simp]:
  "trace (snd (SSHRunOnce r h cmd t s)) =
     trace s @ [Ran (SshCall Muxed h cmd) (fst (SSHRunOnce r h cmd t s))]"
  by (simp add: SSHRunOnce_def Let_def)

lemma SSHRunDirect_trace [simp]:
  "trace (snd (SSHRunDirect r h cmd t s)) =
     trace s @ [Ran (SshCall Direct h cmd) (fst (SSHRunDirect r h cmd t s))]"
  by (simp add: SSHRunDirect_def Let_def)

lemma dropSSHMaster_no_pause:
  "\<exists>es. trace (dropSSHMaster r h s) = trace s @ es \<and> list_all (\<lambda>e. \<not> is_pause e) es"
  by (simp add: dropSSHMaster_def Drop_def)

text \<open>The answer of \<open>SSHRun\<close> is that of the last command it ran, with no pause before it.\<close>

lemma SSHRun_last:
  assumes "SSHRun r h cmd t s = (res, u)"
  shows "\<exists>es. trace u = trace s @ es @ [Ran (SshCall Muxed h cmd) res] \<and>
    list_all (\<lambda>e. \<not> is_pause e) es"
proof -
  obtain res1 s1 where once: "SSHRunOnce r h cmd t s = (res1, s1)" by force
  have t1: "trace s1 = trace s @ [Ran (SshCall Muxed h cmd) res1]"
    using SSHRunOnce_trace [of r h cmd t s] once by simp
  show ?thesis
  proof (cases "\<not> transportFailed res1 \<or> \<not> enabled (Control r)")
    case True
    then show ?thesis using once assms t1 by (auto simp: SSHRun_def)
  next
    case False
    obtain es where "trace (dropSSHMaster r h s1) = trace s1 @ es"
      and "list_all (\<lambda>e. \<not> is_pause e) es"
      using dropSSHMaster_no_pause by blast
    with False show ?thesis
      using once assms t1 SSHRunOnce_trace [of r h cmd t "dropSSHMaster r h s1"]
      by (auto simp: SSHRun_def intro!: exI [of _ "Ran (SshCall Muxed h cmd) res1 # es"])
  qed
qed

lemma dropSSHMaster_trace:
  "\<exists>es. trace (dropSSHMaster r h s) = trace s @ es \<and>
     (if enabled (Control r) then \<exists>res. es = [Ran (SshExitHost h) res] else es = [])"
  by (simp add: dropSSHMaster_def Drop_def)

section \<open>Which master an ssh process uses\<close>

text \<open>ssh takes the first value it is given for an option: the effective value of a key.\<close>

fun ssh_option :: "string \<Rightarrow> string list \<Rightarrow> string option" where
  "ssh_option key (a # b # rest) =
     (if a = ''-o'' \<and> HasPrefix b (key @ ''='') then Some (drop (length key + 1) b)
      else ssh_option key (b # rest))"
| "ssh_option key _ = None"

section \<open>Properties\<close>

text \<open>
  Liveness probes never ride the shared connection. With multiplexing on, every
  ordinary remote command of the same host names the master's socket, a direct one names
  none and asks for no master; with multiplexing off the two are the same argv.
\<close>

theorem direct_call_bypasses_master:
  "if enabled c
   then ssh_option ''ControlPath'' (call_argv c (SshCall Muxed h cmd)) = Some (pathPattern c) \<and>
        ssh_option ''ControlMaster'' (call_argv c (SshCall Muxed h cmd)) = Some ''auto'' \<and>
        ssh_option ''ControlPath'' (call_argv c (SshCall Direct h cmd)) = Some ''none'' \<and>
        ssh_option ''ControlMaster'' (call_argv c (SshCall Direct h cmd)) = Some ''no''
   else call_argv c (SshCall Direct h cmd) = call_argv c (SshCall Muxed h cmd)"
  by (simp add: SSHArgv_def SSHArgvDirect_def sshArgv_def Opts_def directOpts_def
      sshNoMuxOpts_def HasPrefix_def)

text \<open>
  C33: a remote command over the master is sent once, or twice when the first answer is a
  transport failure and there is a master to discard, which is then dropped in between; the
  answer returned is that of the last attempt, and a command that merely failed is never
  repeated.
\<close>

theorem SSHRun_redials_once:
  "\<exists>first dropped.
     since (trace s) (trace (snd (SSHRun r h cmd t s))) =
       (if transportFailed first \<and> enabled (Control r)
        then [Ran (SshCall Muxed h cmd) first, Ran (SshExitHost h) dropped,
              Ran (SshCall Muxed h cmd) (fst (SSHRun r h cmd t s))]
        else [Ran (SshCall Muxed h cmd) (fst (SSHRun r h cmd t s))]) \<and>
     first = fst (SSHRunOnce r h cmd t s)"
proof -
  obtain res u where u: "SSHRunOnce r h cmd t s = (res, u)" by force
  have tu: "trace u = trace s @ [Ran (SshCall Muxed h cmd) res]"
    using SSHRunOnce_trace [of r h cmd t s] u by simp
  show ?thesis
  proof (cases "transportFailed res \<and> enabled (Control r)")
    case True
    then obtain d where d: "trace (dropSSHMaster r h u) = trace u @ [Ran (SshExitHost h) d]"
      using dropSSHMaster_trace [of r h u] by auto
    show ?thesis using True u tu d by (auto simp: SSHRun_def)
  next
    case False
    then show ?thesis using u tu by (auto simp: SSHRun_def)
  qed
qed

lemma close_sockets_trace:
  "\<exists>ress. length ress = length socks \<and>
     trace (close_sockets r socks s) =
       trace s @ map2 (\<lambda>sock res. Ran (SshExitSocket sock) res) socks ress"
proof (induction socks arbitrary: s)
  case (Cons sock socks)
  let ?run = "Run r (SshExitSocket sock) [] sshControlDropTimeout s"
  obtain ress where "length ress = length socks"
    and "trace (close_sockets r socks (snd ?run)) = trace (snd ?run) @
      map2 (\<lambda>sock res. Ran (SshExitSocket sock) res) socks ress"
    using Cons.IH by blast
  then show ?case by (intro exI [of _ "fst ?run # ress"]) simp
qed simp

lemma close_sockets_from:
  "extends Q s u \<Longrightarrow> (\<And>sock. Q (SshExitSocket sock)) \<Longrightarrow> extends Q s (close_sockets r socks u)"
  by (induction socks arbitrary: u) (auto intro: Run_extends)

lemma remove_dir_from: "extends Q s u \<Longrightarrow> extends Q s (remove_dir m dir u)"
  by (erule extends_trans) (simp add: remove_dir_def extends_def)

lemma Close_from: "extends Q s u \<Longrightarrow> (\<And>sock. Q (SshExitSocket sock)) \<Longrightarrow> extends Q s (Close r u)"
  by (auto simp: Close_def Let_def split: option.split intro!: remove_dir_from close_sockets_from)

text \<open>
  Closing the control directory stops every master it holds, one exit request per
  socket in the order they are listed, and only then removes the directory; without an
  enabled control nothing is done at all.
\<close>

theorem Close_stops_masters_first:
  "if enabled (Control r)
   then \<exists>ress. length ress = length (list_dir (os r) (Dir (the (Control r))) (world s)) \<and>
     since (trace s) (trace (Close r s)) =
       map2 (\<lambda>sock res. Ran (SshExitSocket sock) res)
         (list_dir (os r) (Dir (the (Control r))) (world s)) ress
       @ [RemovedDir (Dir (the (Control r)))]
   else Close r s = s"
proof (cases "enabled (Control r)")
  case True
  then obtain ctl where c: "Control r = Some ctl" by (auto simp: enabled_def split: option.splits)
  let ?socks = "list_dir (os r) (Dir ctl) (world s)"
  obtain ress where "length ress = length ?socks"
    and "trace (close_sockets r ?socks s) =
      trace s @ map2 (\<lambda>sock res. Ran (SshExitSocket sock) res) ?socks ress"
    using close_sockets_trace by blast
  then show ?thesis using True c
    by (auto simp: Close_def Let_def remove_dir_def intro!: exI [of _ ress])
next
  case False
  then show ?thesis by (cases "Control r") (simp_all add: Close_def)
qed

end
