(* ===== verification/Json.thy ===== *)
theory Json
  imports Go_Strings
begin

text \<open>
  What the program uses of Go's \<open>encoding/json\<close>: \<open>json.Unmarshal\<close> into structs of
  strings, integers, booleans, lists and further structs. \<open>parse_json\<close> accepts the grammar the
  library checks before it decodes anything; the decoders follow its rules for a field: the
  key is compared exactly or up to ASCII case, an unknown key is ignored, a later occurrence
  wins, \<open>null\<close> leaves a string or number as it is, any other kind of value is an error.
  Every caller gives up on any error, so the decoders return \<open>None\<close> for all of them. Bytes
  of a string literal that are not an escape are taken as they are (the library replaces
  invalid UTF-8).
\<close>

section \<open>Values and their grammar\<close>

datatype json =
    JNull
  | JBool bool
  | JNum string
  | JStr string
  | JArr "json list"
  | JObj "(string \<times> json) list"

definition json_space :: "char \<Rightarrow> bool" where
  "json_space c \<longleftrightarrow> c \<in> {CHR 0x20, CHR 0x09, CHR 0x0A, CHR 0x0D}"

definition skip_ws :: "string \<Rightarrow> string" where
  "skip_ws s = dropWhile json_space s"

definition is_digit :: "char \<Rightarrow> bool" where
  "is_digit c \<longleftrightarrow> c \<in> set ''0123456789''"

fun index_of :: "char \<Rightarrow> string \<Rightarrow> nat option" where
  "index_of c [] = None"
| "index_of c (x # xs) = (if c = x then Some 0 else map_option Suc (index_of c xs))"

lemma index_of_nth: "distinct xs \<Longrightarrow> n < length xs \<Longrightarrow> index_of (xs ! n) xs = Some n"
proof (induction xs arbitrary: n)
  case (Cons x xs)
  then show ?case by (cases n) auto
qed simp

definition hex_val :: "char \<Rightarrow> nat option" where
  "hex_val c =
     (case index_of c ''0123456789abcdef'' of
        Some n \<Rightarrow> Some n
      | None \<Rightarrow> map_option (\<lambda>n. n + 10) (index_of c ''ABCDEF''))"

text \<open>Four hexadecimal digits at the start of a string.\<close>

fun hex4 :: "string \<Rightarrow> nat option" where
  "hex4 (a # b # c # d # _) =
     (case (hex_val a, hex_val b, hex_val c, hex_val d) of
        (Some w, Some x, Some y, Some z) \<Rightarrow> Some (((w * 16 + x) * 16 + y) * 16 + z)
      | _ \<Rightarrow> None)"
| "hex4 _ = None"

definition byte :: "nat \<Rightarrow> char" where
  "byte n = char_of n"

definition utf8 :: "nat \<Rightarrow> string" where
  "utf8 n =
     (if n < 0x80 then [byte n]
      else if n < 0x800 then [byte (0xC0 + n div 64), byte (0x80 + n mod 64)]
      else if n < 0x10000 then
        [byte (0xE0 + n div 4096), byte (0x80 + n div 64 mod 64), byte (0x80 + n mod 64)]
      else [byte (0xF0 + n div 262144), byte (0x80 + n div 4096 mod 64),
            byte (0x80 + n div 64 mod 64), byte (0x80 + n mod 64)])"

definition escape_char :: "char \<Rightarrow> char option" where
  "escape_char e =
     (if e = CHR 0x22 \<or> e = CHR 0x5C \<or> e = CHR ''/'' then Some e
      else if e = CHR ''b'' then Some CHR 0x08
      else if e = CHR ''f'' then Some CHR 0x0C
      else if e = CHR ''n'' then Some CHR 0x0A
      else if e = CHR ''r'' then Some CHR 0x0D
      else if e = CHR ''t'' then Some CHR 0x09
      else None)"

text \<open>The low half of a surrogate pair written as a second escape, if one follows.\<close>

definition low_surrogate :: "string \<Rightarrow> nat option" where
  "low_surrogate s =
     (if prefix [CHR 0x5C, CHR ''u''] s
      then (case hex4 (drop 2 s) of
              Some n \<Rightarrow> if 0xDC00 \<le> n \<and> n < 0xE000 then Some n else None
            | None \<Rightarrow> None)
      else None)"

text \<open>
  A string literal after its opening quote, and the rest after the closing one. A half
  surrogate becomes U+FFFD.
\<close>

function string_body :: "string \<Rightarrow> (string \<times> string) option" where
  "string_body s =
     (case s of
        [] \<Rightarrow> None
      | c # t \<Rightarrow>
          if c = CHR 0x22 then Some ([], t)
          else if c = CHR 0x5C then
            (case t of
               [] \<Rightarrow> None
             | e # u \<Rightarrow>
                 (case escape_char e of
                    Some d \<Rightarrow> map_option (apfst ((#) d)) (string_body u)
                  | None \<Rightarrow>
                      if e \<noteq> CHR ''u'' then None
                      else case hex4 u of
                             None \<Rightarrow> None
                           | Some n \<Rightarrow>
                               if 0xD800 \<le> n \<and> n < 0xE000 then
                                 (case (if n < 0xDC00 then low_surrogate (drop 4 u) else None) of
                                    Some m \<Rightarrow>
                                      map_option (apfst ((@)
                                        (utf8 (0x10000 + (n - 0xD800) * 1024 + (m - 0xDC00)))))
                                        (string_body (drop 10 u))
                                  | None \<Rightarrow>
                                      map_option (apfst ((@) (utf8 0xFFFD)))
                                        (string_body (drop 4 u)))
                               else map_option (apfst ((@) (utf8 n))) (string_body (drop 4 u))))
          else if (of_char c :: nat) < 0x20 then None
          else map_option (apfst ((#) c)) (string_body t))"
  by pat_completeness auto
termination
  by (relation "measure length") auto

declare string_body.simps [simp del]

definition digits :: "string \<Rightarrow> string \<times> string" where
  "digits s = (takeWhile is_digit s, dropWhile is_digit s)"

text \<open>A number literal: sign, integer part without leading zeros, fraction, exponent.\<close>

definition int_part :: "string \<Rightarrow> (string \<times> string) option" where
  "int_part s =
     (case s of
        [] \<Rightarrow> None
      | c # t \<Rightarrow> if c = CHR ''0'' then Some ([c], t)
                 else if is_digit c then Some (digits s) else None)"

definition frac_part :: "string \<Rightarrow> (string \<times> string) option" where
  "frac_part s =
     (case s of
        c # t \<Rightarrow> if c = CHR ''.'' then
                    (case digits t of ([], _) \<Rightarrow> None | (ds, rest) \<Rightarrow> Some (c # ds, rest))
                  else Some ([], s)
      | [] \<Rightarrow> Some ([], s))"

definition sign_part :: "string \<Rightarrow> string \<times> string" where
  "sign_part s =
     (case s of
        c # t \<Rightarrow> if c = CHR ''+'' \<or> c = CHR ''-'' then ([c], t) else ([], s)
      | [] \<Rightarrow> ([], s))"

definition exp_part :: "string \<Rightarrow> (string \<times> string) option" where
  "exp_part s =
     (case s of
        c # t \<Rightarrow> if c = CHR ''e'' \<or> c = CHR ''E'' then
                    (case sign_part t of (sg, u) \<Rightarrow>
                       (case digits u of
                          ([], _) \<Rightarrow> None
                        | (ds, rest) \<Rightarrow> Some (c # sg @ ds, rest)))
                  else Some ([], s)
      | [] \<Rightarrow> Some ([], s))"

definition number :: "string \<Rightarrow> (string \<times> string) option" where
  "number s =
     (let (sg, s1) = (case s of c # t \<Rightarrow> if c = CHR ''-'' then ([c], t) else ([], s)
                      | [] \<Rightarrow> ([], s)) in
      case int_part s1 of
        None \<Rightarrow> None
      | Some (i, s2) \<Rightarrow>
          (case frac_part s2 of
             None \<Rightarrow> None
           | Some (f, s3) \<Rightarrow>
               (case exp_part s3 of
                  None \<Rightarrow> None
                | Some (e, s4) \<Rightarrow> Some (sg @ i @ f @ e, s4))))"

definition literal :: "string \<Rightarrow> json \<Rightarrow> string \<Rightarrow> (json \<times> string) option" where
  "literal word v s =
     (if prefix word s then Some (v, drop (length word) s) else None)"

text \<open>
  The grammar by recursive descent, with a fuel that every nested value, element and member
  spends; \<open>parse_json\<close> gives it twice the length of the text, and each unit spent comes with
  a byte consumed or a value entered.
\<close>

fun parse_value :: "nat \<Rightarrow> string \<Rightarrow> (json \<times> string) option"
  and parse_elems :: "nat \<Rightarrow> string \<Rightarrow> (json list \<times> string) option"
  and parse_members :: "nat \<Rightarrow> string \<Rightarrow> ((string \<times> json) list \<times> string) option" where
  "parse_value 0 s = None"
| "parse_value (Suc n) s =
     (case skip_ws s of
        [] \<Rightarrow> None
      | c # t \<Rightarrow>
          if c = CHR 0x22 then map_option (apfst JStr) (string_body t)
          else if c = CHR ''{'' then
            (case skip_ws t of
               [] \<Rightarrow> None
             | d # u \<Rightarrow> if d = CHR ''}'' then Some (JObj [], u)
                        else map_option (apfst JObj) (parse_members n (d # u)))
          else if c = CHR ''['' then
            (case skip_ws t of
               [] \<Rightarrow> None
             | d # u \<Rightarrow> if d = CHR '']'' then Some (JArr [], u)
                        else map_option (apfst JArr) (parse_elems n (d # u)))
          else if c = CHR ''t'' then literal ''true'' (JBool True) (c # t)
          else if c = CHR ''f'' then literal ''false'' (JBool False) (c # t)
          else if c = CHR ''n'' then literal ''null'' JNull (c # t)
          else map_option (apfst JNum) (number (c # t)))"
| "parse_elems 0 s = None"
| "parse_elems (Suc n) s =
     (case parse_value n s of
        None \<Rightarrow> None
      | Some (v, rest) \<Rightarrow>
          (case skip_ws rest of
             [] \<Rightarrow> None
           | d # u \<Rightarrow> if d = CHR '']'' then Some ([v], u)
                      else if d = CHR '','' then map_option (apfst ((#) v)) (parse_elems n u)
                      else None))"
| "parse_members 0 s = None"
| "parse_members (Suc n) s =
     (case skip_ws s of
        [] \<Rightarrow> None
      | q # t \<Rightarrow>
          if q \<noteq> CHR 0x22 then None
          else case string_body t of
            None \<Rightarrow> None
          | Some (key, rest) \<Rightarrow>
              (case skip_ws rest of
                 [] \<Rightarrow> None
               | colon # u \<Rightarrow>
                   if colon \<noteq> CHR '':'' then None
                   else case parse_value n u of
                     None \<Rightarrow> None
                   | Some (v, rest2) \<Rightarrow>
                       (case skip_ws rest2 of
                          [] \<Rightarrow> None
                        | d # w \<Rightarrow>
                            if d = CHR ''}'' then Some ([(key, v)], w)
                            else if d = CHR '','' then
                              map_option (apfst ((#) (key, v))) (parse_members n w)
                            else None)))"

definition parse_json :: "string \<Rightarrow> json option" where
  "parse_json s =
     (case parse_value (2 * length s + 2) s of
        Some (v, rest) \<Rightarrow> if skip_ws rest = [] then Some v else None
      | None \<Rightarrow> None)"

section \<open>Decoding into structs\<close>

definition fold_ascii :: "char \<Rightarrow> char" where
  "fold_ascii c =
     (case index_of c ''ABCDEFGHIJKLMNOPQRSTUVWXYZ'' of
        Some n \<Rightarrow> ''abcdefghijklmnopqrstuvwxyz'' ! n
      | None \<Rightarrow> c)"

definition key_is :: "string \<Rightarrow> string \<Rightarrow> bool" where
  "key_is name key \<longleftrightarrow> map fold_ascii key = map fold_ascii name"

definition decode_string :: "string \<Rightarrow> json \<Rightarrow> string option" where
  "decode_string cur v = (case v of JStr s \<Rightarrow> Some s | JNull \<Rightarrow> Some cur | _ \<Rightarrow> None)"

fun digits_value :: "nat \<Rightarrow> string \<Rightarrow> nat" where
  "digits_value acc [] = acc"
| "digits_value acc (c # cs) =
     digits_value (acc * 10 + (case index_of c ''0123456789'' of Some d \<Rightarrow> d | None \<Rightarrow> 0)) cs"

text \<open>A literal without fraction and exponent whose value fits 64 bits.\<close>

definition int_literal :: "string \<Rightarrow> int option" where
  "int_literal lit =
     (let (neg, ds) = (case lit of c # t \<Rightarrow> if c = CHR ''-'' then (True, t) else (False, lit)
                       | [] \<Rightarrow> (False, lit));
          n = int (digits_value 0 ds); i = (if neg then - n else n) in
      if list_all is_digit ds \<and> - (2 ^ 63) \<le> i \<and> i < 2 ^ 63 then Some i else None)"

definition decode_int :: "int \<Rightarrow> json \<Rightarrow> int option" where
  "decode_int cur v = (case v of JNum lit \<Rightarrow> int_literal lit | JNull \<Rightarrow> Some cur | _ \<Rightarrow> None)"

fun decode_all :: "(json \<Rightarrow> 'a option) \<Rightarrow> json list \<Rightarrow> 'a list option" where
  "decode_all dec [] = Some []"
| "decode_all dec (v # vs) =
     (case dec v of
        None \<Rightarrow> None
      | Some x \<Rightarrow> map_option ((#) x) (decode_all dec vs))"

definition decode_list :: "(json \<Rightarrow> 'a option) \<Rightarrow> json \<Rightarrow> 'a list option" where
  "decode_list dec v =
     (case v of JArr vs \<Rightarrow> decode_all dec vs | JNull \<Rightarrow> Some [] | _ \<Rightarrow> None)"

definition decode_bool :: "bool \<Rightarrow> json \<Rightarrow> bool option" where
  "decode_bool cur v = (case v of JBool b \<Rightarrow> Some b | JNull \<Rightarrow> Some cur | _ \<Rightarrow> None)"

text \<open>An object updates the struct member by member; \<open>null\<close> leaves it as it is.\<close>

fun decode_members :: "('a \<Rightarrow> string \<Rightarrow> json \<Rightarrow> 'a option) \<Rightarrow> 'a \<Rightarrow> (string \<times> json) list \<Rightarrow> 'a option" where
  "decode_members upd a [] = Some a"
| "decode_members upd a ((k, v) # ms) =
     (case upd a k v of None \<Rightarrow> None | Some a' \<Rightarrow> decode_members upd a' ms)"

definition decode_struct :: "('a \<Rightarrow> string \<Rightarrow> json \<Rightarrow> 'a option) \<Rightarrow> 'a \<Rightarrow> json \<Rightarrow> 'a option" where
  "decode_struct upd a v =
     (case v of JObj ms \<Rightarrow> decode_members upd a ms | JNull \<Rightarrow> Some a | _ \<Rightarrow> None)"

definition Unmarshal :: "('a \<Rightarrow> json \<Rightarrow> 'a option) \<Rightarrow> 'a \<Rightarrow> string \<Rightarrow> 'a option" where
  "Unmarshal dec a s = (case parse_json s of None \<Rightarrow> None | Some v \<Rightarrow> dec a v)"

end
