(* ===== verification/Build.thy ===== *)
theory Build
  imports Ssh Json
begin

text \<open>
  \<open>deployment/build.go\<close> and \<open>deployment/copy.go\<close>: resolving every host's derivation and
  output path with one evaluation per host, the one build of the fleet, the query whether a
  path was built, and the copy of a closure to its host. The evaluations run concurrently;
  \<open>fan_out\<close> runs the tasks one by one in an arbitrary order and writes each result to the
  slot of its own task, as the goroutines do.
\<close>

section \<open>Concurrent tasks with a slot each\<close>

fun fan_out :: "('a \<Rightarrow> 's \<Rightarrow> 'b \<times> 's) \<Rightarrow> 'a list \<Rightarrow> nat list \<Rightarrow> 'b list \<Rightarrow> 's \<Rightarrow> 'b list \<times> 's" where
  "fan_out task xs [] out s = (out, s)"
| "fan_out task xs (i # is) out s =
     (let (y, s) = task (xs ! i) s in fan_out task xs is (out[i := y]) s)"

text \<open>A schedule runs every task exactly once.\<close>

definition schedule_of :: "'a list \<Rightarrow> nat list \<Rightarrow> bool" where
  "schedule_of xs sched \<longleftrightarrow> distinct sched \<and> set sched = {..<length xs}"

lemma fan_out_length [simp]: "length (fst (fan_out task xs is out s)) = length out"
  by (induction "is" arbitrary: out s) (simp_all add: split_beta)

lemma fan_out_untouched:
  "j \<notin> set is \<Longrightarrow> fst (fan_out task xs is out s) ! j = out ! j"
  by (induction "is" arbitrary: out s) (auto simp: split_beta)

text \<open>
  What every task respects, the whole fan-out respects; and each slot holds the result of
  its own task, run in a state between the start and the end.
\<close>

lemma fan_out_relates:
  assumes "\<And>s. R s s" and "\<And>s t u. R s t \<Longrightarrow> R t u \<Longrightarrow> R s u"
    and "\<And>i s. i \<in> set is \<Longrightarrow> R s (snd (task (xs ! i) s))"
  shows "R s (snd (fan_out task xs is out s))"
  using assms(3)
proof (induction "is" arbitrary: out s)
  case Nil
  then show ?case using assms(1) by simp
next
  case (Cons i js)
  then show ?case
    using assms(2) [of s "snd (task (xs ! i) s)"] by (simp add: split_beta)
qed

lemma fan_out_slot:
  assumes "\<And>s. R s s" and "\<And>s t u. R s t \<Longrightarrow> R t u \<Longrightarrow> R s u"
    and "\<And>i s. i \<in> set is \<Longrightarrow> R s (snd (task (xs ! i) s))"
    and "distinct is" and "j < length out" and "j \<in> set is"
  shows "\<exists>t. R s t \<and> fst (fan_out task xs is out s) ! j = fst (task (xs ! j) t) \<and>
    R (snd (task (xs ! j) t)) (snd (fan_out task xs is out s))"
  using assms(3-6)
proof (induction "is" arbitrary: out s)
  case (Cons i js)
  let ?y = "fst (task (xs ! i) s)" and ?u = "snd (task (xs ! i) s)"
  have eq: "fan_out task xs (i # js) out s = fan_out task xs js (out[i := ?y]) ?u"
    by (simp add: split_beta)
  have step: "R s ?u" using Cons.prems(1) by simp
  have tail: "\<And>i s. i \<in> set js \<Longrightarrow> R s (snd (task (xs ! i) s))" using Cons.prems(1) by simp
  show ?case
  proof (cases "j = i")
    case True
    then have "fst (fan_out task xs js (out[i := ?y]) ?u) ! j = ?y"
      using Cons.prems(2,3) by (simp add: fan_out_untouched)
    moreover have "R ?u (snd (fan_out task xs js (out[i := ?y]) ?u))"
      using assms(1,2) tail by (rule fan_out_relates)
    ultimately show ?thesis using True assms(1) unfolding eq by blast
  next
    case False
    then obtain t where "R ?u t"
      "fst (fan_out task xs js (out[i := ?y]) ?u) ! j = fst (task (xs ! j) t)"
      "R (snd (task (xs ! j) t)) (snd (fan_out task xs js (out[i := ?y]) ?u))"
      using Cons.IH [OF tail, of "out[i := ?y]" ?u] Cons.prems(2-4) by auto
    then show ?thesis using step assms(2) unfolding eq by blast
  qed
qed simp

lemma fan_out_slot_extends:
  assumes "\<And>i s. i \<in> set is \<Longrightarrow> extends Q s (snd (task (xs ! i) s))"
    and "distinct is" and "j < length out" and "j \<in> set is"
  shows "\<exists>t. extends Q s t \<and> fst (fan_out task xs is out s) ! j = fst (task (xs ! j) t) \<and>
    extends Q (snd (task (xs ! j) t)) (snd (fan_out task xs is out s))"
  using assms by (intro fan_out_slot) (auto intro: extends_trans)

section \<open>Resolving toplevels\<close>

definition resolveTimeout :: duration where
  "resolveTimeout = 15 * Minute"

definition buildTimeout :: duration where
  "buildTimeout = 2 * Hour"

definition pathInfoTimeout :: duration where
  "pathInfoTimeout = 30 * Second"

record toplevel =
  Drv :: string
  Out :: string

definition toplevel_member :: "toplevel \<Rightarrow> string \<Rightarrow> json \<Rightarrow> toplevel option" where
  "toplevel_member t key v =
     (if key_is ''drv'' key then map_option (\<lambda>s. t\<lparr>Drv := s\<rparr>) (decode_string (Drv t) v)
      else if key_is ''out'' key then map_option (\<lambda>s. t\<lparr>Out := s\<rparr>) (decode_string (Out t) v)
      else Some t)"

definition decode_toplevel :: "string \<Rightarrow> toplevel option" where
  "decode_toplevel s = Unmarshal (decode_struct toplevel_member) \<lparr>Drv = [], Out = []\<rparr> s"

text \<open>The last lines of a text, where nix puts the error.\<close>

definition lastLines :: "string \<Rightarrow> nat \<Rightarrow> string" where
  "lastLines s n =
     (let lines = Split (TrimRight s CHR 0x0A) CHR 0x0A;
          lines = (if length lines > n then drop (length lines - n) lines else lines)
      in Join lines [CHR 0x0A])"

text \<open>The three errors, each with the name of its host.\<close>

datatype resolve_error =
    EvalFailed string string
  | EvalUnparsable string
  | NoToplevel string string

definition resolveToplevel :: "'w runner \<Rightarrow> host \<Rightarrow> 'w st \<Rightarrow> (resolve_error + toplevel) \<times> 'w st" where
  "resolveToplevel r h s =
     (let (res, s) = Run r (NixEval h) [] resolveTimeout s in
      if Failed res then (Inl (EvalFailed (Name h) (lastLines (Stderr res) 20)), s)
      else case decode_toplevel (Stdout res) of
             None \<Rightarrow> (Inl (EvalUnparsable (Name h)), s)
           | Some t \<Rightarrow>
               let t = t\<lparr>Drv := TrimSpace (Drv t), Out := TrimSpace (Out t)\<rparr> in
               if Drv t = [] \<or> Out t = [] then (Inl (NoToplevel (Name h) (FlakeName h)), s)
               else (Inr t, s))"

text \<open>Collecting the slots in host order: every error, or the map by host name.\<close>

fun collect_toplevels :: "host list \<Rightarrow> (resolve_error + toplevel) list \<Rightarrow> resolve_error list
    \<Rightarrow> (string \<rightharpoonup> toplevel) \<Rightarrow> resolve_error list \<times> (string \<rightharpoonup> toplevel)" where
  "collect_toplevels (h # hs) (Inl err # results) errs out =
     collect_toplevels hs results (errs @ [err]) out"
| "collect_toplevels (h # hs) (Inr t # results) errs out =
     collect_toplevels hs results errs (out(Name h \<mapsto> t))"
| "collect_toplevels _ _ errs out = (errs, out)"

text \<open>The evaluations run in the order of the schedule; the slots start out empty.\<close>

definition ResolveToplevels :: "'w runner \<Rightarrow> nat list \<Rightarrow> host list \<Rightarrow> 'w st
    \<Rightarrow> (resolve_error list + (string \<rightharpoonup> toplevel)) \<times> 'w st" where
  "ResolveToplevels r sched hs s =
     (if hs = [] then (Inr Map.empty, s)
      else let (results, s) = fan_out (resolveToplevel r) hs sched
                 (replicate (length hs) (Inr \<lparr>Drv = [], Out = []\<rparr>)) s;
               (errs, out) = collect_toplevels hs results [] Map.empty
           in (if errs \<noteq> [] then Inl errs else Inr out, s))"

section \<open>Building\<close>

definition BuildAll :: "'w runner \<Rightarrow> string list \<Rightarrow> build_opts \<Rightarrow> 'w st \<Rightarrow> bool \<times> 'w st" where
  "BuildAll r drvs opts s =
     (if drvs = [] then (True, s)
      else let (res, s) = Run r (NixBuild drvs opts) [] buildTimeout s in (\<not> Failed res, s))"

definition BuiltOK :: "'w runner \<Rightarrow> string \<Rightarrow> 'w st \<Rightarrow> bool \<times> 'w st" where
  "BuiltOK r outPath s =
     (if outPath = [] then (False, s)
      else let (res, s) = Run r (NixPathInfo outPath) [] pathInfoTimeout s in (\<not> Failed res, s))"

section \<open>Copying\<close>

definition copyTimeout :: duration where
  "copyTimeout = 60 * Minute"

definition copyEnv :: "'w runner \<Rightarrow> string list" where
  "copyEnv r =
     (let opts = [''-o'', ''BatchMode=yes'',
                  ''-o'', ''ConnectTimeout='' @ Itoa (whole_seconds sshConnectTimeout),
                  ''-o'', ''ServerAliveInterval='' @ Itoa (whole_seconds sshServerAliveInterval)];
          existing = TrimSpace (Getenv (environ (os r)) ''NIX_SSHOPTS'');
          parts = (if existing \<noteq> [] then [existing] else []) @ [Join opts '' '']
            @ (if enabled (Control r) then [Join (Opts (Control r)) '' ''] else [])
      in [''NIX_SSHOPTS='' @ Join parts '' ''])"

definition CopyClosure :: "'w runner \<Rightarrow> host \<Rightarrow> string \<Rightarrow> 'w st \<Rightarrow> bool \<times> 'w st" where
  "CopyClosure r h path s =
     (let (res, s) = Run r (NixCopy h path) (copyEnv r) copyTimeout s in
      if Failed res then (False, s) else (True, s))"

section \<open>Facts\<close>

interpretation resolve: traced_op "resolveToplevel r h" "\<lambda>k. k = NixEval h" for r h
proof unfold_locales
  fix s
  show "extends (\<lambda>k. k = NixEval h) s (snd (resolveToplevel r h s))"
    using Run_extends [OF extends_refl, of "\<lambda>k. k = NixEval h" "NixEval h" s r "[]" resolveTimeout]
    by (simp add: resolveToplevel_def Let_def split_beta split: option.split)
qed

interpretation build: traced_op "BuildAll r drvs opts" "\<lambda>k. k = NixBuild drvs opts" for r drvs opts
  by unfold_locales (unfold BuildAll_def Let_def, intro extends_intros refl)

interpretation built: traced_op "BuiltOK r path" "\<lambda>k. k = NixPathInfo path" for r path
  by unfold_locales (unfold BuiltOK_def Let_def, intro extends_intros refl)

interpretation copy: traced_op "CopyClosure r h path" "\<lambda>k. k = NixCopy h path" for r h path
  by unfold_locales (unfold CopyClosure_def Let_def, intro extends_intros refl)

lemma resolveToplevel_ok:
  assumes "resolveToplevel r h s = (Inr t, u)"
  shows "\<exists>res raw. trace u = trace s @ [Ran (NixEval h) res] \<and> \<not> Failed res \<and>
    decode_toplevel (Stdout res) = Some raw \<and>
    Drv t = TrimSpace (Drv raw) \<and> Out t = TrimSpace (Out raw) \<and> Drv t \<noteq> [] \<and> Out t \<noteq> []"
  using assms
  by (auto simp: resolveToplevel_def Let_def split_beta prod_eq_iff split: if_splits option.splits)

lemma ResolveToplevels_extends:
  fixes s :: "'w st"
  assumes "schedule_of hs sched"
  shows "extends (\<lambda>k. \<exists>h \<in> set hs. k = NixEval h) s (snd (ResolveToplevels r sched hs s))"
proof -
  have "extends (\<lambda>k. \<exists>h \<in> set hs. k = NixEval h) s
      (snd (fan_out (resolveToplevel r) hs sched (replicate (length hs) (Inr \<lparr>Drv = [], Out = []\<rparr>)) s))"
  proof (rule fan_out_relates [where R = "extends (\<lambda>k. \<exists>h \<in> set hs. k = NixEval h)"])
    fix i and u :: "'w st"
    assume "i \<in> set sched"
    then have "hs ! i \<in> set hs" using assms by (auto simp: schedule_of_def)
    then show "extends (\<lambda>k. \<exists>h \<in> set hs. k = NixEval h) u (snd (resolveToplevel r (hs ! i) u))"
      by (intro resolve.op_from extends_refl) blast
  qed (auto intro: extends_trans)
  then show ?thesis by (simp add: ResolveToplevels_def Let_def split_beta)
qed

lemma collect_toplevels_errs:
  "length results = length hs \<Longrightarrow>
   fst (collect_toplevels hs results errs m) = errs @ map projl (filter isl results)"
  by (induction hs results errs m rule: collect_toplevels.induct) auto

lemma collect_toplevels_other:
  "n \<notin> Name ` set hs \<Longrightarrow> snd (collect_toplevels hs results errs m) n = m n"
  by (induction hs results errs m rule: collect_toplevels.induct) auto

lemma collect_toplevels_map:
  "length results = length hs \<Longrightarrow> filter isl results = [] \<Longrightarrow> distinct (map Name hs) \<Longrightarrow>
   i < length hs \<Longrightarrow>
   snd (collect_toplevels hs results errs m) (Name (hs ! i)) = Some (projr (results ! i))"
proof (induction hs results errs m arbitrary: i rule: collect_toplevels.induct)
  case (2 h hs t results errs out)
  show ?case
  proof (cases i)
    case 0
    then show ?thesis using "2.prems" by (simp add: collect_toplevels_other)
  next
    case (Suc j)
    then show ?thesis using "2.IH" [of j] "2.prems" by (simp del: fun_upd_apply)
  qed
qed auto

section \<open>Properties\<close>

text \<open>
  C37: resolving the fleet. Whatever order the concurrent evaluations run in, a success
  gives every host, under its own name, a derivation and an output path that are both
  non-empty and come from one successful evaluation of that very host; no other name gets a
  path.
\<close>

theorem ResolveToplevels_own_paths:
  assumes "ResolveToplevels r sched hs s = (Inr tops, s')"
    and "schedule_of hs sched" and "distinct (map Name hs)" and "h \<in> set hs"
  shows "dom tops \<subseteq> Name ` set hs \<and>
    (\<exists>t res raw. tops (Name h) = Some t \<and> Ran (NixEval h) res \<in> set (since (trace s) (trace s')) \<and>
      \<not> Failed res \<and> decode_toplevel (Stdout res) = Some raw \<and>
      Drv t = TrimSpace (Drv raw) \<and> Out t = TrimSpace (Out raw) \<and> Drv t \<noteq> [] \<and> Out t \<noteq> [])"
proof -
  let ?task = "resolveToplevel r" and ?R = "extends (\<lambda>k. \<exists>h \<in> set hs. k = NixEval h)"
  let ?empty = "replicate (length hs) (Inr \<lparr>Drv = [], Out = []\<rparr>)"
  let ?run = "fan_out ?task hs sched ?empty s"
  let ?col = "collect_toplevels hs (fst ?run) [] Map.empty"
  have sched: "set sched = {..<length hs}" "distinct sched"
    using assms(2) by (simp_all add: schedule_of_def)
  have len: "length (fst ?run) = length hs" by simp
  have col: "fst ?col = []" "tops = snd ?col" "s' = snd ?run"
    using assms(1,4) by (auto simp: ResolveToplevels_def Let_def split_beta split: if_splits)
  from col(1) collect_toplevels_errs [OF len, of "[]" Map.empty]
  have ok: "filter isl (fst ?run) = []" by simp
  have "n \<notin> dom tops" if "n \<notin> Name ` set hs" for n
    using collect_toplevels_other [OF that] col(2) by (simp add: domIff)
  then have dom: "dom tops \<subseteq> Name ` set hs" by blast
  from assms(4) obtain i where i: "i < length hs" "h = hs ! i" by (auto simp: in_set_conv_nth)
  have tops: "tops (Name h) = Some (projr (fst ?run ! i))"
    using collect_toplevels_map [OF len ok assms(3) i(1)] col(2) i(2) by simp
  have task_R: "?R u (snd (?task (hs ! j) u))" if "j \<in> set sched" for j u
    using that sched(1) by (intro resolve.op_from extends_refl) auto
  obtain t where t: "?R s t" "fst ?run ! i = fst (?task (hs ! i) t)"
      "?R (snd (?task (hs ! i) t)) (snd ?run)"
    using fan_out_slot [of ?R sched ?task hs i ?empty s] task_R sched i(1) len
    by (auto intro: extends_trans)
  have "\<not> isl (fst ?run ! i)" using ok i(1) len by (metis filter_empty_conv nth_mem)
  then obtain top where top: "?task h t = (Inr top, snd (?task h t))" "projr (fst ?run ! i) = top"
    using t(2) i(2) by (metis prod.collapse sum.collapse(2))
  from resolveToplevel_ok [OF top(1)] obtain res raw where
    "trace (snd (?task h t)) = trace t @ [Ran (NixEval h) res]" and rest: "\<not> Failed res"
    "decode_toplevel (Stdout res) = Some raw" "Drv top = TrimSpace (Drv raw)"
    "Out top = TrimSpace (Out raw)" "Drv top \<noteq> []" "Out top \<noteq> []"
    by blast
  then have "Ran (NixEval h) res \<in> set (since (trace s) (trace s'))"
    using extends_since [OF t(1)] extends_since [OF t(3)] i(2) col(3)
    by (metis Un_iff append_assoc in_set_conv_decomp list.set_intros(1) set_append since_append)
  with rest tops top(2) dom show ?thesis by blast
qed

theorem ResolveToplevels_own_paths_witness:
  \<open>let r = fake_runner None
         [\<lparr>Match = MatchContains [''Configurations.fus''],
           Result = zero_result\<lparr>Stdout := ''{"drv":"/d/fus.drv","out":"/o/fus"}''\<rparr>\<rparr>,
          \<lparr>Match = MatchContains [''Configurations.ro''],
           Result = zero_result\<lparr>Stdout := ''{"drv":"/d/ro.drv","out":"/o/ro"}''\<rparr>\<rparr>];
       hs = [zero_host\<lparr>Name := ''fus'', FlakeName := ''fus''\<rparr>,
             zero_host\<lparr>Name := ''ro'', FlakeName := ''ro''\<rparr>] in
   \<exists>tops s' t. ResolveToplevels r [1, 0] hs fresh = (Inr tops, s') \<and>
     tops ''ro'' = Some t \<and> Out t \<noteq> []\<close>
proof -
  let ?r = \<open>fake_runner None
         [\<lparr>Match = MatchContains [''Configurations.fus''],
           Result = zero_result\<lparr>Stdout := ''{"drv":"/d/fus.drv","out":"/o/fus"}''\<rparr>\<rparr>,
          \<lparr>Match = MatchContains [''Configurations.ro''],
           Result = zero_result\<lparr>Stdout := ''{"drv":"/d/ro.drv","out":"/o/ro"}''\<rparr>\<rparr>]\<close>
  let ?hs = "[zero_host\<lparr>Name := ''fus'', FlakeName := ''fus''\<rparr>,
             zero_host\<lparr>Name := ''ro'', FlakeName := ''ro''\<rparr>]"
  let ?res = "ResolveToplevels ?r [1, 0] ?hs fresh"
  have "\<not> isl (fst ?res)" by code_simp
  then have eq: "?res = (Inr (projr (fst ?res)), snd ?res)" by (simp add: prod_eq_iff)
  have "schedule_of ?hs [1, 0]" by (auto simp: schedule_of_def)
  from ResolveToplevels_own_paths [OF eq this, of "zero_host\<lparr>Name := ''ro'', FlakeName := ''ro''\<rparr>"]
  obtain t where "projr (fst ?res) ''ro'' = Some t" "Out t \<noteq> []" by auto
  with eq show ?thesis unfolding Let_def by blast
qed

text \<open>What keeping the last lines of a text leaves of it.\<close>

lemma Join_append:
  "xs \<noteq> [] \<Longrightarrow> ys \<noteq> [] \<Longrightarrow> Join (xs @ ys) sep = Join xs sep @ sep @ Join ys sep"
proof (induction xs)
  case (Cons x xs)
  then show ?case by (cases "xs = []") (simp_all add: Join_Cons)
qed simp

lemma Join_drop_suffix: "suffix (Join (drop k xs) sep) (Join xs sep)"
proof (cases "drop k xs = [] \<or> take k xs = []")
  case True
  then show ?thesis by auto
next
  case False
  then have "Join xs sep = Join (take k xs) sep @ sep @ Join (drop k xs) sep"
    using Join_append [of "take k xs" "drop k xs" sep] by simp
  then show ?thesis by (auto simp: suffix_def)
qed

lemma count_Join: "\<forall>p \<in> set ps. c \<notin> set p \<Longrightarrow> count_list (Join ps [c]) c = length ps - 1"
proof (induction ps)
  case (Cons p ps)
  then show ?case by (cases ps) (simp_all add: count_list_append count_notin)
qed simp

text \<open>
  The tail of an error text. What is kept is the end of the text without its trailing
  newlines, it holds at most as many lines as asked for, and a text that is no longer is
  kept whole.
\<close>

theorem lastLines_tail:
  "suffix (lastLines s n) (TrimRight s CHR 0x0A) \<and>
   count_list (lastLines s n) CHR 0x0A \<le> n - 1 \<and>
   lastLines s (Suc (count_list (TrimRight s CHR 0x0A) CHR 0x0A) + k) = TrimRight s CHR 0x0A"
proof -
  let ?t = "TrimRight s CHR 0x0A" and ?nl = "CHR 0x0A"
  let ?ls = "Split ?t ?nl"
  define kept where "kept m = (if length ?ls > m then drop (length ?ls - m) ?ls else ?ls)" for m
  have last: "lastLines s m = Join (kept m) [?nl]" for m
    by (simp add: lastLines_def kept_def Let_def)
  have t: "Join ?ls [?nl] = ?t" by (rule Join_Split)
  have lines: "length ?ls = Suc (count_list ?t ?nl)"
    using count_Join [OF Split_pieces, of ?t ?nl] t by (simp add: Suc_leI)
  have tail: "suffix (lastLines s n) ?t"
    using Join_drop_suffix [of "length ?ls - n" ?ls "[?nl]"] t by (simp add: last kept_def)
  have "\<forall>p \<in> set (kept n). ?nl \<notin> set p"
    using Split_pieces [of ?t ?nl] by (auto simp: kept_def dest: in_set_dropD)
  then have "count_list (lastLines s n) ?nl = length (kept n) - 1"
    using count_Join [of "kept n" ?nl] by (simp add: last)
  moreover have "length (kept n) \<le> n" by (simp add: kept_def)
  ultimately have "count_list (lastLines s n) ?nl \<le> n - 1" by (simp add: diff_le_mono)
  moreover have "lastLines s (Suc (count_list ?t ?nl) + k) = ?t"
    using lines t by (simp add: last kept_def)
  ultimately show ?thesis using tail by simp
qed

end
