(* ===== verification/Precheck.thy ===== *)
theory Precheck
  imports Build
begin

text \<open>
  \<open>deployment/printer.go\<close> and \<open>deployment/precheck.go\<close>, with \<open>hostAtPath\<close> of
  \<open>deployment/deploy.go\<close>: what is decided about a host before anything is built. The
  probes of the hosts run concurrently, as the evaluations do (\<open>fan_out\<close>); the
  semaphore that limits how many run at a time is in theory Goroutines.
\<close>

section \<open>The printer\<close>

text \<open>The only states in which a job is active.\<close>

definition activePrintStates :: "string \<Rightarrow> bool" where
  "activePrintStates state \<longleftrightarrow> state = ''printing'' \<or> state = ''paused''"

definition state_member :: "string \<Rightarrow> string \<Rightarrow> json \<Rightarrow> string option" where
  "state_member st key v = (if key_is ''state'' key then decode_string st v else Some st)"

definition print_stats_member :: "string \<Rightarrow> string \<Rightarrow> json \<Rightarrow> string option" where
  "print_stats_member st key v =
     (if key_is ''print_stats'' key then decode_struct state_member st v else Some st)"

definition status_member :: "string \<Rightarrow> string \<Rightarrow> json \<Rightarrow> string option" where
  "status_member st key v =
     (if key_is ''status'' key then decode_struct print_stats_member st v else Some st)"

definition result_member :: "string \<Rightarrow> string \<Rightarrow> json \<Rightarrow> string option" where
  "result_member st key v =
     (if key_is ''result'' key then decode_struct status_member st v else Some st)"

text \<open>The field \<open>result.status.print_stats.state\<close> of moonraker's answer.\<close>

definition decode_print_state :: "string \<Rightarrow> string option" where
  "decode_print_state s = Unmarshal (decode_struct result_member) [] s"

text \<open>The answer is \<open>(idle, state, queryOK)\<close>.\<close>

definition CheckPrinterIdle :: "'w runner \<Rightarrow> host \<Rightarrow> 'w st \<Rightarrow> (bool \<times> string \<times> bool) \<times> 'w st" where
  "CheckPrinterIdle r h s =
     (let (res, s) = Run r (CurlPrintStats h) [] (10 * Second) s in
      if Failed res then ((False, [], False), s)
      else case decode_print_state (Stdout res) of
             None \<Rightarrow> ((False, [], False), s)
           | Some state \<Rightarrow>
               if state = [] then ((False, [], False), s)
               else ((\<not> activePrintStates state, state, True), s))"

section \<open>Is a host up to date\<close>

definition activeSystemPath :: "'w runner \<Rightarrow> host \<Rightarrow> 'w st \<Rightarrow> string \<times> 'w st" where
  "activeSystemPath r h s =
     (let (res, s) = SSHRun r h ReadActive (15 * Second) s in (TrimSpace (Stdout res), s))"

definition hostAtPath :: "'w runner \<Rightarrow> host \<Rightarrow> string \<Rightarrow> 'w st \<Rightarrow> (bool \<times> string) \<times> 'w st" where
  "hostAtPath r h systemPath s =
     (let (active, s) = activeSystemPath r h s;
          (boot, s) = SSHRun r h ReadProfile (15 * Second) s in
      if systemPath = [] then ((False, active), s)
      else ((active = systemPath \<and> TrimSpace (Stdout boot) = systemPath, active), s))"

section \<open>The precheck\<close>

record plan =
  SystemPath :: string
  DrvPath :: string
  UpToDate :: bool

record precheck_result =
  pr_host :: host
  pr_plan :: plan
  pr_skip :: bool
  pr_failed :: bool
  pr_reason :: string

definition precheckHost :: "'w runner \<Rightarrow> bool \<Rightarrow> host \<Rightarrow> toplevel \<Rightarrow> 'w st \<Rightarrow> precheck_result \<times> 'w st" where
  "precheckHost r force h t s =
     (let res = \<lparr>pr_host = h,
                 pr_plan = \<lparr>SystemPath = Out t, DrvPath = Drv t, UpToDate = False\<rparr>,
                 pr_skip = False, pr_failed = False, pr_reason = []\<rparr>;
          (up, s) = CheckSSHReachable r h s in
      if \<not> up then
        (res\<lparr>pr_skip := True, pr_failed := True, pr_reason := ''SSH unreachable''\<rparr>, s)
      else
        let ((idle, state, queryOK), s) =
              (if InGroup h ''printer'' \<and> \<not> force then CheckPrinterIdle r h s
               else ((True, [], True), s)) in
        if \<not> queryOK then
          (res\<lparr>pr_skip := True, pr_reason := ''moonraker unreachable (--force to override)''\<rparr>, s)
        else if \<not> idle then
          (res\<lparr>pr_skip := True,
               pr_reason := ''print active (state='' @ state @ ''), --force to override''\<rparr>, s)
        else
          let ((upToDate, active), s) = hostAtPath r h (Out t) s in
          (res\<lparr>pr_plan := pr_plan res\<lparr>UpToDate := upToDate\<rparr>\<rparr>, s))"

text \<open>A host without an entry in the map reads as the empty toplevel.\<close>

definition toplevel_of :: "(string \<rightharpoonup> toplevel) \<Rightarrow> host \<Rightarrow> toplevel" where
  "toplevel_of tops h = (case tops (Name h) of Some t \<Rightarrow> t | None \<Rightarrow> \<lparr>Drv = [], Out = []\<rparr>)"

definition zero_precheck :: precheck_result where
  "zero_precheck = \<lparr>pr_host = zero_host,
     pr_plan = \<lparr>SystemPath = [], DrvPath = [], UpToDate = False\<rparr>,
     pr_skip = False, pr_failed = False, pr_reason = []\<rparr>"

definition PrecheckAll :: "'w runner \<Rightarrow> nat list \<Rightarrow> host list \<Rightarrow> (string \<rightharpoonup> toplevel) \<Rightarrow> bool
    \<Rightarrow> 'w st \<Rightarrow> precheck_result list \<times> 'w st" where
  "PrecheckAll r sched hs tops force s =
     fan_out (\<lambda>h. precheckHost r force h (toplevel_of tops h)) hs sched
       (replicate (length hs) zero_precheck) s"

section \<open>Facts\<close>

definition precheck_calls :: "host \<Rightarrow> call \<Rightarrow> bool" where
  "precheck_calls h k \<longleftrightarrow>
     k = SshExitHost h \<or> k = CurlPrintStats h \<or>
     (\<exists>cmd \<in> {EchoOk, ReadActive, ReadProfile}. k = SshCall Muxed h cmd)"

lemma CheckPrinterIdle_from [extends_intros]:
  assumes "extends Q s u" and "Q (CurlPrintStats h)"
  shows "extends Q s (snd (CheckPrinterIdle r h u))"
  using Run_extends [OF assms, of r "[]" "10 * Second"]
  by (simp add: CheckPrinterIdle_def Let_def split_beta split: option.split)

lemma activeSystemPath_from [extends_intros]:
  "extends Q s u \<Longrightarrow> Q (SshCall Muxed h ReadActive) \<Longrightarrow> Q (SshExitHost h) \<Longrightarrow>
   extends Q s (snd (activeSystemPath r h u))"
  unfolding activeSystemPath_def Let_def by (intro extends_intros)

lemma hostAtPath_from [extends_intros]:
  "extends Q s u \<Longrightarrow> Q (SshCall Muxed h ReadActive) \<Longrightarrow> Q (SshCall Muxed h ReadProfile) \<Longrightarrow>
   Q (SshExitHost h) \<Longrightarrow> extends Q s (snd (hostAtPath r h path u))"
  unfolding hostAtPath_def Let_def by (intro extends_intros)

lemma CheckSSHReachable_from [extends_intros]:
  "extends Q s u \<Longrightarrow> Q (SshCall Muxed h EchoOk) \<Longrightarrow> Q (SshExitHost h) \<Longrightarrow>
   extends Q s (snd (CheckSSHReachable r h u))"
  unfolding CheckSSHReachable_def Let_def by (intro extends_intros)

lemma extends_bind2 [extends_intros]:
  "extends Q s (snd m) \<Longrightarrow>
   (\<And>a b u. m = ((a, b), u) \<Longrightarrow> extends Q s u \<Longrightarrow> extends Q s (snd (f a b u))) \<Longrightarrow>
   extends Q s (snd (case m of (x, u) \<Rightarrow> (case x of (a, b) \<Rightarrow> \<lambda>u. f a b u) u))"
  by (cases m) auto

interpretation precheck: traced_op "precheckHost r force h t" "precheck_calls h" for r force h t
proof unfold_locales
  fix s
  obtain up s1 where up: "CheckSSHReachable r h s = (up, s1)" by force
  have e1: "extends (precheck_calls h) s s1"
    using CheckSSHReachable_from [OF extends_refl, of "precheck_calls h" h s r] up
    by (simp add: precheck_calls_def)
  define m where "m = (if InGroup h ''printer'' \<and> \<not> force then CheckPrinterIdle r h s1
      else ((True, [], True), s1))"
  obtain idle state ok s2 where m: "m = ((idle, state, ok), s2)" by (metis surj_pair)
  have "extends (precheck_calls h) s (snd m)"
    unfolding m_def by (intro extends_intros e1) (simp add: precheck_calls_def)
  then have e2: "extends (precheck_calls h) s s2" by (simp add: m)
  then have e3: "extends (precheck_calls h) s (snd (hostAtPath r h (Out t) s2))"
    by (intro extends_intros) (simp_all add: precheck_calls_def)
  show "extends (precheck_calls h) s (snd (precheckHost r force h t s))"
    using e1 e2 e3 up m
    by (simp add: precheckHost_def Let_def split_beta flip: m_def)
qed


lemma CheckSSHReachable_answer:
  assumes "CheckSSHReachable r h s = (up, u)"
  shows "\<exists>es res. trace u = trace s @ es @ [Ran (SshCall Muxed h EchoOk) res] \<and>
    list_all (\<lambda>e. \<not> is_pause e) es \<and> up = sshEchoOK res"
proof -
  obtain res v where v: "SSHRun r h EchoOk (15 * Second) s = (res, v)" by force
  with assms have "v = u" "up = sshEchoOK res" by (auto simp: CheckSSHReachable_def)
  with SSHRun_last [OF v] show ?thesis by blast
qed

lemma activeSystemPath_answer:
  assumes "activeSystemPath r h s = (path, u)"
  shows "\<exists>es res. trace u = trace s @ es @ [Ran (SshCall Muxed h ReadActive) res] \<and>
    list_all (\<lambda>e. \<not> is_pause e) es \<and> path = TrimSpace (Stdout res)"
proof -
  obtain res v where v: "SSHRun r h ReadActive (15 * Second) s = (res, v)" by force
  with assms have "v = u" "path = TrimSpace (Stdout res)" by (auto simp: activeSystemPath_def)
  with SSHRun_last [OF v] show ?thesis by blast
qed

text \<open>Being at a path is being seen there by both readings.\<close>

lemma hostAtPath_answer:
  assumes "hostAtPath r h path s = ((same, active), u)"
  shows "\<exists>es fs a b.
    trace u = trace s @ es @ [Ran (SshCall Muxed h ReadActive) a]
      @ fs @ [Ran (SshCall Muxed h ReadProfile) b] \<and>
    active = TrimSpace (Stdout a) \<and>
    same = (path \<noteq> [] \<and> TrimSpace (Stdout a) = path \<and> TrimSpace (Stdout b) = path)"
proof -
  obtain act v where v: "activeSystemPath r h s = (act, v)" by force
  obtain b w where w: "SSHRun r h ReadProfile (15 * Second) v = (b, w)" by force
  from assms v w have *: "w = u" "active = act"
    "same = (path \<noteq> [] \<and> act = path \<and> TrimSpace (Stdout b) = path)"
    by (auto simp: hostAtPath_def split: if_splits)
  from activeSystemPath_answer [OF v] SSHRun_last [OF w] * show ?thesis by fastforce
qed

lemma CheckPrinterIdle_answer:
  assumes "CheckPrinterIdle r h s = ((idle, state, True), u)"
  shows "\<exists>res. trace u = trace s @ [Ran (CurlPrintStats h) res] \<and> \<not> Failed res \<and>
    decode_print_state (Stdout res) = Some state \<and> state \<noteq> [] \<and>
    idle = (\<not> activePrintStates state)"
proof -
  obtain res v where v: "Run r (CurlPrintStats h) [] (10 * Second) s = (res, v)" by force
  have "trace v = trace s @ [Ran (CurlPrintStats h) res]"
    using Run_trace [of r "CurlPrintStats h" "[]" "10 * Second" s] unfolding v by simp
  with v assms show ?thesis
    by (auto simp: CheckPrinterIdle_def split: if_splits option.splits)
qed

section \<open>Properties\<close>

text \<open>
  A precheck as an elimination rule: the three ways it ends before the paths are read, and
  the way it ends after that, each with the calls that were made.
\<close>

definition bare_result :: "host \<Rightarrow> toplevel \<Rightarrow> precheck_result" where
  "bare_result h t = \<lparr>pr_host = h, pr_plan = \<lparr>SystemPath = Out t, DrvPath = Drv t, UpToDate = False\<rparr>,
     pr_skip = False, pr_failed = False, pr_reason = []\<rparr>"

definition idle_printer :: "host \<Rightarrow> event list \<Rightarrow> bool" where
  "idle_printer h es \<longleftrightarrow> (\<exists>stats state. Ran (CurlPrintStats h) stats \<in> set es \<and> \<not> Failed stats \<and>
     decode_print_state (Stdout stats) = Some state \<and> state \<notin> {[], ''printing'', ''paused''})"

lemma printer_query:
  assumes "(if InGroup h ''printer'' \<and> \<not> force then CheckPrinterIdle r h s else ((True, [], True), s))
      = ((idle, state, qok), s')"
  obtains ys where "trace s' = trace s @ ys" "\<not> qok \<or> \<not> idle \<Longrightarrow> InGroup h ''printer'' \<and> \<not> force"
    "InGroup h ''printer'' \<Longrightarrow> \<not> force \<Longrightarrow> idle \<Longrightarrow> qok \<Longrightarrow> idle_printer h ys"
proof
  have "extends (\<lambda>k. k = CurlPrintStats h) s s'"
    using assms extends_refl [of "\<lambda>k. k = CurlPrintStats h" s]
      CheckPrinterIdle_from [where r = r and h = h, OF extends_refl, of "\<lambda>k. k = CurlPrintStats h" s]
    by (auto split: if_splits)
  then show "trace s' = trace s @ since (trace s) (trace s')" by (rule extends_since)
  show "InGroup h ''printer'' \<and> \<not> force" if "\<not> qok \<or> \<not> idle"
    using that assms by (auto split: if_splits)
  show "idle_printer h (since (trace s) (trace s'))"
    if "InGroup h ''printer''" "\<not> force" "idle" "qok"
    using CheckPrinterIdle_answer [of r h s idle state s'] that assms
    by (fastforce simp: idle_printer_def activePrintStates_def)
qed

lemma precheckHost_cases:
  assumes "precheckHost r force h t s = (res, s')"
  obtains
    (down) es echo where "trace s' = trace s @ es @ [Ran (SshCall Muxed h EchoOk) echo]" "\<not> sshEchoOK echo"
      "res = (bare_result h t)\<lparr>pr_skip := True, pr_failed := True, pr_reason := ''SSH unreachable''\<rparr>"
  | (busy) es echo ys why where
      "trace s' = trace s @ es @ [Ran (SshCall Muxed h EchoOk) echo] @ ys" "sshEchoOK echo"
      "InGroup h ''printer''" "\<not> force" "res = (bare_result h t)\<lparr>pr_skip := True, pr_reason := why\<rparr>"
  | (checked) es echo ys fs a gs b where
      "trace s' = trace s @ es @ [Ran (SshCall Muxed h EchoOk) echo] @ ys @ fs @
        [Ran (SshCall Muxed h ReadActive) a] @ gs @ [Ran (SshCall Muxed h ReadProfile) b]" "sshEchoOK echo"
      "InGroup h ''printer'' \<Longrightarrow> \<not> force \<Longrightarrow> idle_printer h ys"
      "res = (bare_result h t)\<lparr>pr_plan := pr_plan (bare_result h t)\<lparr>UpToDate :=
        (Out t \<noteq> [] \<and> TrimSpace (Stdout a) = Out t \<and> TrimSpace (Stdout b) = Out t)\<rparr>\<rparr>"
proof -
  obtain up s1 where up: "CheckSSHReachable r h s = (up, s1)" by force
  from CheckSSHReachable_answer [OF up] obtain es echo where
    t1: "trace s1 = trace s @ es @ [Ran (SshCall Muxed h EchoOk) echo]" and ok: "up = sshEchoOK echo" by blast
  obtain idle state qok s2 where m: "(if InGroup h ''printer'' \<and> \<not> force then CheckPrinterIdle r h s1
      else ((True, [], True), s1)) = ((idle, state, qok), s2)" by (metis surj_pair)
  from printer_query [OF m] obtain ys where t2: "trace s2 = trace s1 @ ys"
    and free: "\<not> qok \<or> \<not> idle \<Longrightarrow> InGroup h ''printer'' \<and> \<not> force"
    and printer: "InGroup h ''printer'' \<Longrightarrow> \<not> force \<Longrightarrow> idle \<Longrightarrow> qok \<Longrightarrow> idle_printer h ys" by blast
  obtain same active s3 where at: "hostAtPath r h (Out t) s2 = ((same, active), s3)" by (metis surj_pair)
  from hostAtPath_answer [OF at] obtain fs gs a b where
    t3: "trace s3 = trace s2 @ fs @ [Ran (SshCall Muxed h ReadActive) a]
      @ gs @ [Ran (SshCall Muxed h ReadProfile) b]"
    and same: "same = (Out t \<noteq> [] \<and> TrimSpace (Stdout a) = Out t \<and> TrimSpace (Stdout b) = Out t)" by blast
  note eq = assms [unfolded precheckHost_def up Let_def prod.case m at, folded bare_result_def]
  consider "\<not> up" | "up" "\<not> qok \<or> \<not> idle" | "up" "qok" "idle" by blast
  then show ?thesis
  proof cases
    case 1
    then show ?thesis using eq t1 ok by (intro down) (auto simp: bare_result_def)
  next
    case 2
    then have "s' = s2" and res: "res = (bare_result h t)\<lparr>pr_skip := True, pr_reason := pr_reason res\<rparr>"
      using eq by (auto simp: bare_result_def split: if_split_asm)
    then show ?thesis using t1 t2 ok free 2 by (intro busy [of es echo ys "pr_reason res"]) auto
  next
    case 3
    then show ?thesis using eq t1 t2 t3 ok same printer
      by (intro checked [of es echo ys fs a gs b]) (auto simp: bare_result_def)
  qed
qed


text \<open>Each slot of the concurrent precheck, in whatever order the probes run.\<close>

lemma PrecheckAll_each:
  assumes "schedule_of hs sched" and "i < length hs"
  shows "length (fst (PrecheckAll r sched hs tops force s)) = length hs \<and>
    (\<exists>t. extends (\<lambda>k. \<exists>h \<in> set hs. precheck_calls h k) s t \<and>
      fst (PrecheckAll r sched hs tops force s) ! i =
        fst (precheckHost r force (hs ! i) (toplevel_of tops (hs ! i)) t))"
proof -
  let ?R = "extends (\<lambda>k. \<exists>h \<in> set hs. precheck_calls h k)"
  have sched: "set sched = {..<length hs}" "distinct sched"
    using assms(1) by (simp_all add: schedule_of_def)
  have task: "?R u (snd (precheckHost r force (hs ! j) (toplevel_of tops (hs ! j)) u))"
    if "j \<in> set sched" for j u
  proof (rule extends_mono [OF precheck.op_extends])
    show "\<exists>h \<in> set hs. precheck_calls h k" if "precheck_calls (hs ! j) k" for k
      using that
    proof (rule bexI [of _ "hs ! j"])
      show "hs ! j \<in> set hs" using \<open>j \<in> set sched\<close> sched(1) by simp
    qed
  qed
  have i: "i < length (replicate (length hs) zero_precheck)" "i \<in> set sched"
    using assms(2) sched(1) by simp_all
  from fan_out_slot_extends [where task = "\<lambda>h. precheckHost r force h (toplevel_of tops h)",
      OF task sched(2) i, of s]
  obtain t where "?R s t" "fst (fan_out (\<lambda>h. precheckHost r force h (toplevel_of tops h)) hs sched
        (replicate (length hs) zero_precheck) s) ! i =
      fst (precheckHost r force (hs ! i) (toplevel_of tops (hs ! i)) t)" by blast
  then show ?thesis by (auto simp: PrecheckAll_def)
qed

lemma precheckHost_host [simp]: "pr_host (fst (precheckHost r force h t u)) = h"
  by (simp add: precheckHost_def Let_def split_beta)

lemma precheckHost_path [simp]: "SystemPath (pr_plan (fst (precheckHost r force h t u))) = Out t"
  by (simp add: precheckHost_def Let_def split_beta)

lemma PrecheckAll_hosts:
  assumes "schedule_of hs sched"
  shows "map pr_host (fst (PrecheckAll r sched hs tops force s)) = hs"
proof (rule nth_equalityI)
  show len: "length (map pr_host (fst (PrecheckAll r sched hs tops force s))) = length hs"
    by (simp add: PrecheckAll_def)
  fix i
  assume "i < length (map pr_host (fst (PrecheckAll r sched hs tops force s)))"
  then have "i < length hs" using len by simp
  from PrecheckAll_each [OF assms this, of r tops force s] this len
  show "map pr_host (fst (PrecheckAll r sched hs tops force s)) ! i = hs ! i" by auto
qed

lemma PrecheckAll_extends:
  fixes s :: "'w st"
  assumes "schedule_of hs sched"
  shows "extends (\<lambda>k. \<exists>h \<in> set hs. precheck_calls h k) s (snd (PrecheckAll r sched hs tops force s))"
  unfolding PrecheckAll_def
proof (rule fan_out_relates [where R = "extends (\<lambda>k. \<exists>h \<in> set hs. precheck_calls h k)"])
  fix i and u :: "'w st"
  assume "i \<in> set sched"
  then have "hs ! i \<in> set hs" using assms by (auto simp: schedule_of_def)
  then show "extends (\<lambda>k. \<exists>h \<in> set hs. precheck_calls h k) u
      (snd (precheckHost r force (hs ! i) (toplevel_of tops (hs ! i)) u))"
    by (intro precheck.op_from extends_refl) blast
qed (auto intro: extends_trans)

text \<open>
  The precheck of the fleet. Whatever order the concurrent probes run in, the result in
  each slot is the verdict on the host of that slot, with the paths resolved for its name,
  reached in a run that extends the one before.
\<close>

theorem PrecheckAll_slots:
  assumes "schedule_of hs sched" and "i < length hs"
  shows "length (fst (PrecheckAll r sched hs tops force s)) = length hs \<and>
    (\<exists>t. extends (\<lambda>k. \<exists>h \<in> set hs. precheck_calls h k) s t \<and>
      fst (PrecheckAll r sched hs tops force s) ! i =
        fst (precheckHost r force (hs ! i) (toplevel_of tops (hs ! i)) t))"
  using assms by (rule PrecheckAll_each)

theorem PrecheckAll_slots_witness:
  "let hs = [zero_host\<lparr>Name := ''a''\<rparr>, zero_host\<lparr>Name := ''b''\<rparr>] in
   pr_host (fst (PrecheckAll (fake_runner None []) [1, 0] hs Map.empty False fresh) ! 0) =
     zero_host\<lparr>Name := ''a''\<rparr> \<and> schedule_of hs [1, 0]"
proof -
  let ?hs = "[zero_host\<lparr>Name := ''a''\<rparr>, zero_host\<lparr>Name := ''b''\<rparr>]"
  have sched: "schedule_of ?hs [1, 0]" by (auto simp: schedule_of_def)
  obtain t where "fst (PrecheckAll (fake_runner None []) [1, 0] ?hs Map.empty False fresh) ! 0 =
      fst (precheckHost (fake_runner None []) False (?hs ! 0) (toplevel_of Map.empty (?hs ! 0)) t)"
    using PrecheckAll_slots [OF sched, of 0 "fake_runner None []" Map.empty False fresh] by auto
  moreover have "pr_host (fst (precheckHost (fake_runner None []) False h t' u)) = h" for h t' u
    by (simp add: precheckHost_def Let_def split_beta)
  ultimately show ?thesis using sched by (simp add: Let_def)
qed

end
