(* ===== verification/Channel.thy ===== *)
theory Channel
  imports Prelude
begin

text \<open>
  The buffered channels the pipeline is wired with, and the interface it relies on. A send
  on a full channel waits, which is \<open>Full\<close>: the step of the sender is not enabled. A send on
  a closed channel and a second close panic. A receive takes the oldest value, waits on an
  empty open channel, and ends a \<open>range\<close> loop on an empty closed one.
\<close>

record 'a chan =
  cap :: nat
  queue :: "'a list"
  closed :: bool

definition make_chan :: "nat \<Rightarrow> 'a chan" where
  "make_chan n = \<lparr>cap = n, queue = [], closed = False\<rparr>"

datatype 'a sent = Sent "'a chan" | Full | SendPanic

definition send :: "'a chan \<Rightarrow> 'a \<Rightarrow> 'a sent" where
  "send c x =
     (if closed c then SendPanic
      else if length (queue c) < cap c then Sent (c\<lparr>queue := queue c @ [x]\<rparr>)
      else Full)"

datatype 'a received = Got 'a "'a chan" | Empty | Drained

definition receive :: "'a chan \<Rightarrow> 'a received" where
  "receive c =
     (case queue c of
        x # q \<Rightarrow> Got x (c\<lparr>queue := q\<rparr>)
      | [] \<Rightarrow> if closed c then Drained else Empty)"

text \<open>\<open>None\<close> is the panic of a second close.\<close>

definition close :: "'a chan \<Rightarrow> 'a chan option" where
  "close c = (if closed c then None else Some (c\<lparr>closed := True\<rparr>))"

section \<open>The interface\<close>

text \<open>
  What a stage relies on: a bounded first-in first-out store. \<open>put\<close> succeeds exactly when
  there is room, \<open>get\<close> exactly when there is something to get.
\<close>

locale bounded_fifo =
  fixes contents :: "'c \<Rightarrow> 'a list"
    and room :: "'c \<Rightarrow> nat"
    and put :: "'c \<Rightarrow> 'a \<Rightarrow> 'c option"
    and get :: "'c \<Rightarrow> ('a \<times> 'c) option"
  assumes put_room: "0 < room c \<Longrightarrow>
      \<exists>c'. put c x = Some c' \<and> contents c' = contents c @ [x] \<and> Suc (room c') = room c"
    and put_full: "room c = 0 \<Longrightarrow> put c x = None"
    and get_some: "contents c = x # q \<Longrightarrow>
      \<exists>c'. get c = Some (x, c') \<and> contents c' = q \<and> room c \<le> room c'"
    and get_none: "contents c = [] \<Longrightarrow> get c = None"
begin

fun put_all :: "'c \<Rightarrow> 'a list \<Rightarrow> 'c option" where
  "put_all c [] = Some c"
| "put_all c (x # xs) = (case put c x of None \<Rightarrow> None | Some c' \<Rightarrow> put_all c' xs)"

fun get_n :: "nat \<Rightarrow> 'c \<Rightarrow> ('a list \<times> 'c) option" where
  "get_n 0 c = Some ([], c)"
| "get_n (Suc n) c =
     (case get c of
        None \<Rightarrow> None
      | Some (x, c') \<Rightarrow>
          (case get_n n c' of None \<Rightarrow> None | Some (xs, c'') \<Rightarrow> Some (x # xs, c'')))"

lemma put_all_room:
  "length xs \<le> room c \<Longrightarrow>
   \<exists>c'. put_all c xs = Some c' \<and> contents c' = contents c @ xs \<and> room c' + length xs = room c"
proof (induction xs arbitrary: c)
  case (Cons x xs)
  then obtain d where d: "put c x = Some d" "contents d = contents c @ [x]" "Suc (room d) = room c"
    using put_room [of c x] by auto
  with Cons.IH [of d] Cons.prems show ?case by auto
qed simp

lemma put_all_full: "room c < length xs \<Longrightarrow> put_all c xs = None"
proof (induction xs arbitrary: c)
  case (Cons x xs)
  then show ?case
    using put_room [of c x] put_full [of c x] by (cases "room c") (auto split: option.split)
qed simp

lemma get_n_contents:
  "n \<le> length (contents c) \<Longrightarrow>
   \<exists>c'. get_n n c = Some (take n (contents c), c') \<and> contents c' = drop n (contents c) \<and>
     room c \<le> room c'"
proof (induction n arbitrary: c)
  case (Suc n)
  then obtain x q where xq: "contents c = x # q" by (cases "contents c") auto
  then obtain d where d: "get c = Some (x, d)" "contents d = q" "room c \<le> room d"
    using get_some by blast
  with Suc.IH [of d] Suc.prems xq show ?case by fastforce
qed simp

text \<open>First in, first out: what goes in comes out, in order, after what was there.\<close>

lemma put_get:
  "length xs \<le> room c \<Longrightarrow> put_all c xs = Some c' \<Longrightarrow>
   \<exists>c''. get_n (length (contents c) + length xs) c' = Some (contents c @ xs, c'') \<and> contents c'' = []"
  using put_all_room [of xs c] get_n_contents [of "length (contents c) + length xs" c'] by auto

end

definition chan_put :: "'a chan \<Rightarrow> 'a \<Rightarrow> 'a chan option" where
  "chan_put c x = (case send c x of Sent c' \<Rightarrow> Some c' | _ \<Rightarrow> None)"

definition chan_get :: "'a chan \<Rightarrow> ('a \<times> 'a chan) option" where
  "chan_get c = (case receive c of Got x c' \<Rightarrow> Some (x, c') | _ \<Rightarrow> None)"

text \<open>The room an open channel has; a closed one has none.\<close>

definition chan_room :: "'a chan \<Rightarrow> nat" where
  "chan_room c = (if closed c then 0 else cap c - length (queue c))"

interpretation chan: bounded_fifo queue chan_room chan_put chan_get
proof unfold_locales
  fix c :: "'a chan" and x q
  show "\<exists>c'. chan_put c x = Some c' \<and> queue c' = queue c @ [x] \<and> Suc (chan_room c') = chan_room c"
    if "0 < chan_room c"
    using that by (auto simp: chan_put_def send_def chan_room_def split: if_splits)
  show "chan_put c x = None" if "chan_room c = 0"
    using that by (auto simp: chan_put_def send_def chan_room_def split: if_splits)
  show "\<exists>c'. chan_get c = Some (x, c') \<and> queue c' = q \<and> chan_room c \<le> chan_room c'"
    if "queue c = x # q"
    using that by (auto simp: chan_get_def receive_def chan_room_def)
  show "chan_get c = None" if "queue c = []"
    using that by (simp add: chan_get_def receive_def)
qed

text \<open>The facts the stages use, over the operations of the code.\<close>

lemma send_room: "\<not> closed c \<Longrightarrow> length (queue c) < cap c \<Longrightarrow> send c x = Sent (c\<lparr>queue := queue c @ [x]\<rparr>)"
  by (simp add: send_def)

lemma send_Sent:
  "send c x = Sent c' \<longleftrightarrow>
     \<not> closed c \<and> length (queue c) < cap c \<and> c' = c\<lparr>queue := queue c @ [x]\<rparr>"
  by (auto simp: send_def)

lemma send_SendPanic: "send c x = SendPanic \<longleftrightarrow> closed c"
  by (simp add: send_def)

lemma receive_Got: "receive c = Got x c' \<longleftrightarrow> (\<exists>q. queue c = x # q \<and> c' = c\<lparr>queue := q\<rparr>)"
  by (auto simp: receive_def split: list.splits)

lemma receive_Drained: "receive c = Drained \<longleftrightarrow> queue c = [] \<and> closed c"
  by (auto simp: receive_def split: list.splits)

lemma receive_Empty: "receive c = Empty \<longleftrightarrow> queue c = [] \<and> \<not> closed c"
  by (auto simp: receive_def split: list.splits)

section \<open>Properties\<close>

text \<open>
  A channel as wide as what is sent never makes a sender wait, and hands the values to
  its reader in the order they were sent.
\<close>

theorem channel_in_order:
  assumes "length xs \<le> n"
  shows "\<exists>c. bounded_fifo.put_all chan_put (make_chan n) xs = Some c \<and> queue c = xs \<and>
    (\<exists>c'. bounded_fifo.get_n chan_get (length xs) c = Some (xs, c') \<and> queue c' = [])"
proof -
  have room: "length xs \<le> chan_room (make_chan n :: 'a chan)"
    using assms by (simp add: chan_room_def make_chan_def)
  then obtain c where c: "chan.put_all (make_chan n) xs = Some c" "queue c = xs"
    using chan.put_all_room [OF room] by (auto simp: make_chan_def)
  from chan.put_get [OF room c(1)] have "\<exists>c'. chan.get_n (length xs) c = Some (xs, c') \<and> queue c' = []"
    by (simp add: make_chan_def)
  with c show ?thesis by blast
qed

theorem channel_in_order_witness:
  "\<exists>c. bounded_fifo.put_all chan_put (make_chan 3) [1, 2 :: nat] = Some c \<and> queue c = [1, 2]"
  using channel_in_order [of "[1, 2 :: nat]" 3] by auto

end
