(* ===== verification/Goroutines.thy ===== *)
theory Goroutines
  imports Precheck Channel
begin

text \<open>
  The two places where the code starts one goroutine per host and waits for all of them:
  \<open>ResolveToplevels\<close> of \<open>build.go\<close> and \<open>PrecheckAll\<close> of \<open>precheck.go\<close>, the latter with a
  semaphore. The other theories take them as \<open>fan_out\<close> along a schedule; here they are a
  system of labelled steps with the wait group and the semaphore, and the two are shown to be
  the same. The task of a goroutine is one step.
\<close>

section \<open>The goroutines\<close>

text \<open>
  Where a goroutine is: before its send to the semaphore, before its task, before the first
  deferred call (the receive from the semaphore), before the other (\<open>wg.Done\<close>), or gone. The
  goroutines of \<open>ResolveToplevels\<close> have no semaphore and pass its two places by.
\<close>

datatype goroutine_at = AtSend | AtTask | AtReceive | AtDone | Gone

record ('b, 's) group =
  goroutines :: "goroutine_at list"
  semaphore :: "unit chan option"
  wait_group :: nat
  slots :: "'b list"
  group_world :: 's
  group_panicked :: bool

definition group_start :: "nat option \<Rightarrow> 'b list \<Rightarrow> 's \<Rightarrow> ('b, 's) group" where
  "group_start limit out s =
     \<lparr>goroutines = [], semaphore = map_option make_chan limit, wait_group = 0, slots = out,
      group_world = s, group_panicked = False\<rparr>"

definition go_on :: "nat \<Rightarrow> goroutine_at \<Rightarrow> ('b, 's) group \<Rightarrow> ('b, 's) group" where
  "go_on i p G = G\<lparr>goroutines := (goroutines G)[i := p]\<rparr>"

text \<open>One turn of the loop that starts them: the wait group counts before the goroutine runs.\<close>

definition spawn :: "'a list \<Rightarrow> ('b, 's) group \<Rightarrow> ('b, 's) group option" where
  "spawn xs G =
     (if length (goroutines G) < length xs
      then Some (G\<lparr>wait_group := wait_group G + 1, goroutines := goroutines G @ [AtSend]\<rparr>)
      else None)"

definition acquire :: "nat \<Rightarrow> ('b, 's) group \<Rightarrow> ('b, 's) group option" where
  "acquire i G =
     (case semaphore G of
        None \<Rightarrow> Some (go_on i AtTask G)
      | Some c \<Rightarrow>
          (case send c () of
             Sent c' \<Rightarrow> Some (go_on i AtTask G\<lparr>semaphore := Some c'\<rparr>)
           | Full \<Rightarrow> None
           | SendPanic \<Rightarrow> Some (G\<lparr>group_panicked := True\<rparr>)))"

definition run_task :: "('a \<Rightarrow> 's \<Rightarrow> 'b \<times> 's) \<Rightarrow> 'a list \<Rightarrow> nat \<Rightarrow> ('b, 's) group \<Rightarrow> ('b, 's) group" where
  "run_task task xs i G =
     (let (y, s) = task (xs ! i) (group_world G) in
      go_on i AtReceive G\<lparr>slots := (slots G)[i := y], group_world := s\<rparr>)"

definition release :: "nat \<Rightarrow> ('b, 's) group \<Rightarrow> ('b, 's) group option" where
  "release i G =
     (case semaphore G of
        None \<Rightarrow> Some (go_on i AtDone G)
      | Some c \<Rightarrow>
          (case receive c of
             Got u c' \<Rightarrow> Some (go_on i AtDone G\<lparr>semaphore := Some c'\<rparr>)
           | Empty \<Rightarrow> None
           | Drained \<Rightarrow> Some (go_on i AtDone G)))"

text \<open>A counter that would go below zero panics.\<close>

definition wg_done :: "nat \<Rightarrow> ('b, 's) group \<Rightarrow> ('b, 's) group" where
  "wg_done i G =
     (if wait_group G = 0 then G\<lparr>group_panicked := True\<rparr>
      else go_on i Gone G\<lparr>wait_group := wait_group G - 1\<rparr>)"

datatype group_label = Spawn | Go nat

definition go_step :: "('a \<Rightarrow> 's \<Rightarrow> 'b \<times> 's) \<Rightarrow> 'a list \<Rightarrow> nat \<Rightarrow> ('b, 's) group \<Rightarrow> ('b, 's) group option" where
  "go_step task xs i G =
     (if i < length (goroutines G) then
        (case goroutines G ! i of
           AtSend \<Rightarrow> acquire i G
         | AtTask \<Rightarrow> Some (run_task task xs i G)
         | AtReceive \<Rightarrow> release i G
         | AtDone \<Rightarrow> Some (wg_done i G)
         | Gone \<Rightarrow> None)
      else None)"

definition group_step :: "('a \<Rightarrow> 's \<Rightarrow> 'b \<times> 's) \<Rightarrow> 'a list \<Rightarrow> group_label \<Rightarrow> ('b, 's) group
    \<Rightarrow> ('b, 's) group option" where
  "group_step task xs l G =
     (if group_panicked G then None
      else case l of Spawn \<Rightarrow> spawn xs G | Go i \<Rightarrow> go_step task xs i G)"

text \<open>\<open>wg.Wait\<close> returns after the loop, when the counter is zero.\<close>

definition joined :: "'a list \<Rightarrow> ('b, 's) group \<Rightarrow> bool" where
  "joined xs G \<longleftrightarrow> \<not> group_panicked G \<and> length (goroutines G) = length xs \<and> wait_group G = 0"

section \<open>The two uses\<close>

definition precheckConcurrency :: nat where
  "precheckConcurrency = 8"

definition precheck_start :: "host list \<Rightarrow> 'w st \<Rightarrow> (precheck_result, 'w st) group" where
  "precheck_start hs s =
     group_start (Some precheckConcurrency) (replicate (length hs) zero_precheck) s"

definition precheck_step :: "'w runner \<Rightarrow> host list \<Rightarrow> (string \<rightharpoonup> toplevel) \<Rightarrow> bool \<Rightarrow> group_label
    \<Rightarrow> (precheck_result, 'w st) group \<Rightarrow> (precheck_result, 'w st) group option" where
  "precheck_step r hs tops force =
     group_step (\<lambda>h. precheckHost r force h (toplevel_of tops h)) hs"

definition resolve_start :: "host list \<Rightarrow> 'w st \<Rightarrow> (resolve_error + toplevel, 'w st) group" where
  "resolve_start hs s =
     group_start None (replicate (length hs) (Inr \<lparr>Drv = [], Out = []\<rparr>)) s"

definition resolve_step :: "'w runner \<Rightarrow> host list \<Rightarrow> group_label
    \<Rightarrow> (resolve_error + toplevel, 'w st) group \<Rightarrow> (resolve_error + toplevel, 'w st) group option" where
  "resolve_step r hs = group_step (resolveToplevel r) hs"

definition resolve_report :: "host list \<Rightarrow> (resolve_error + toplevel) list
    \<Rightarrow> resolve_error list + (string \<rightharpoonup> toplevel)" where
  "resolve_report hs results =
     (let (errs, out) = collect_toplevels hs results [] Map.empty in
      if errs \<noteq> [] then Inl errs else Inr out)"

section \<open>The invariant\<close>

definition holds :: "goroutine_at \<Rightarrow> bool" where
  "holds p \<longleftrightarrow> p = AtTask \<or> p = AtReceive"

definition has_run :: "goroutine_at \<Rightarrow> bool" where
  "has_run p \<longleftrightarrow> p \<noteq> AtSend \<and> p \<noteq> AtTask"

definition num :: "('p \<Rightarrow> bool) \<Rightarrow> 'p list \<Rightarrow> nat" where
  "num P ps = length (filter P ps)"

lemma num_snoc [simp]: "num P (ps @ [p]) = num P ps + of_bool (P p)"
  by (simp add: num_def)

lemma num_Nil [simp]: "num P [] = 0"
  by (simp add: num_def)

lemma num_update:
  "i < length ps \<Longrightarrow> num P (ps[i := p]) + of_bool (P (ps ! i)) = num P ps + of_bool (P p)"
proof (induction ps arbitrary: i)
  case (Cons q ps)
  then show ?case by (cases i) (auto simp: num_def split: if_splits)
qed simp

lemma num_pos: "i < length ps \<Longrightarrow> P (ps ! i) \<Longrightarrow> 0 < num P ps"
  by (auto simp: num_def filter_empty_conv)

lemma num_zero: "num P ps = 0 \<longleftrightarrow> (\<forall>i < length ps. \<not> P (ps ! i))"
  by (simp add: num_def filter_empty_conv all_set_conv_all_nth)

text \<open>The semaphore holds one token for each goroutine between its send and its receive.\<close>

definition sem_ok :: "nat option \<Rightarrow> ('b, 's) group \<Rightarrow> bool" where
  "sem_ok limit G \<longleftrightarrow>
     (case semaphore G of
        None \<Rightarrow> limit = None
      | Some c \<Rightarrow> limit = Some (cap c) \<and> \<not> closed c \<and> length (queue c) \<le> cap c \<and>
          length (queue c) = num holds (goroutines G))"

definition ran :: "goroutine_at list \<Rightarrow> nat set" where
  "ran ps = {i. i < length ps \<and> has_run (ps ! i)}"

definition done_in_order :: "('a \<Rightarrow> 's \<Rightarrow> 'b \<times> 's) \<Rightarrow> 'a list \<Rightarrow> 'b list \<Rightarrow> 's \<Rightarrow> ('b, 's) group \<Rightarrow> bool" where
  "done_in_order task xs out s G \<longleftrightarrow>
     (\<exists>is. distinct is \<and> set is = ran (goroutines G) \<and>
        fan_out task xs is out s = (slots G, group_world G))"

definition group_inv :: "('a \<Rightarrow> 's \<Rightarrow> 'b \<times> 's) \<Rightarrow> 'a list \<Rightarrow> nat option \<Rightarrow> 'b list \<Rightarrow> 's
    \<Rightarrow> ('b, 's) group \<Rightarrow> bool" where
  "group_inv task xs limit out s G \<longleftrightarrow>
     \<not> group_panicked G \<and> length (goroutines G) \<le> length xs \<and>
     wait_group G = num (\<lambda>p. p \<noteq> Gone) (goroutines G) \<and> sem_ok limit G \<and>
     done_in_order task xs out s G"

text \<open>How far there is to go.\<close>

fun steps_left :: "goroutine_at \<Rightarrow> nat" where
  "steps_left AtSend = 4"
| "steps_left AtTask = 3"
| "steps_left AtReceive = 2"
| "steps_left AtDone = 1"
| "steps_left Gone = 0"

definition group_size :: "'a list \<Rightarrow> ('b, 's) group \<Rightarrow> nat" where
  "group_size xs G =
     5 * (length xs - length (goroutines G)) + sum_list (map steps_left (goroutines G))"

lemma sum_list_map_update:
  fixes f :: "'p \<Rightarrow> nat"
  shows "i < length ps \<Longrightarrow> sum_list (map f (ps[i := p])) + f (ps ! i) = sum_list (map f ps) + f p"
proof (induction ps arbitrary: i)
  case (Cons q ps)
  then show ?case by (cases i) (auto simp: algebra_simps)
qed simp

lemma fan_out_snoc:
  "fan_out task xs (is @ [i]) out s =
     (let (out', s') = fan_out task xs is out s; (y, t) = task (xs ! i) s' in (out'[i := y], t))"
  by (induction "is" arbitrary: out s) (simp_all add: split_beta Let_def)

section \<open>Every step keeps the invariant\<close>

lemma ran_update: "i < length ps \<Longrightarrow> has_run p = has_run (ps ! i) \<Longrightarrow> ran (ps[i := p]) = ran ps"
  by (auto simp: ran_def nth_list_update)

lemma ran_add: "i < length ps \<Longrightarrow> has_run p \<Longrightarrow> ran (ps[i := p]) = insert i (ran ps)"
  by (auto simp: ran_def nth_list_update)

lemma ran_snoc: "ran (ps @ [AtSend]) = ran ps"
  by (auto simp: ran_def nth_append has_run_def)

lemma spawn_inv:
  assumes "group_inv task xs limit out s G" and "spawn xs G = Some G'"
  shows "group_inv task xs limit out s G'"
  using assms
  by (auto simp: group_inv_def spawn_def sem_ok_def done_in_order_def ran_snoc holds_def
      split: if_splits option.splits)

text \<open>A goroutine that goes on without a task of its own.\<close>

lemma done_go_on:
  assumes "done_in_order task xs out s G" and "i < length (goroutines G)"
    and "has_run p = has_run (goroutines G ! i)"
  shows "done_in_order task xs out s (go_on i p G)"
  using assms by (simp add: done_in_order_def go_on_def ran_update)

lemma acquire_inv:
  assumes inv: "group_inv task xs limit out s G" and i: "i < length (goroutines G)"
    and at: "goroutines G ! i = AtSend" and step: "acquire i G = Some G'"
  shows "group_inv task xs limit out s G'"
proof -
  have "num (\<lambda>p. p \<noteq> Gone) ((goroutines G)[i := AtTask]) = num (\<lambda>p. p \<noteq> Gone) (goroutines G)"
    "num holds ((goroutines G)[i := AtTask]) = Suc (num holds (goroutines G))"
    using num_update [OF i, of "\<lambda>p. p \<noteq> Gone" AtTask] num_update [OF i, of holds AtTask]
    by (simp_all add: at holds_def)
  moreover have "ran ((goroutines G)[i := AtTask]) = ran (goroutines G)"
    using i at by (simp add: ran_update has_run_def)
  ultimately show ?thesis
    using inv step
    by (auto simp: group_inv_def acquire_def go_on_def sem_ok_def done_in_order_def send_def
        split: option.splits if_splits)
qed

lemma release_inv:
  assumes inv: "group_inv task xs limit out s G" and i: "i < length (goroutines G)"
    and at: "goroutines G ! i = AtReceive" and step: "release i G = Some G'"
  shows "group_inv task xs limit out s G'"
proof -
  have "num (\<lambda>p. p \<noteq> Gone) ((goroutines G)[i := AtDone]) = num (\<lambda>p. p \<noteq> Gone) (goroutines G)"
    "Suc (num holds ((goroutines G)[i := AtDone])) = num holds (goroutines G)"
    using num_update [OF i, of "\<lambda>p. p \<noteq> Gone" AtDone] num_update [OF i, of holds AtDone]
    by (simp_all add: at holds_def)
  moreover have "ran ((goroutines G)[i := AtDone]) = ran (goroutines G)"
    using i at by (simp add: ran_update has_run_def)
  ultimately show ?thesis
    using inv step
    by (auto simp: group_inv_def release_def go_on_def sem_ok_def done_in_order_def receive_def
        split: option.splits list.splits if_splits)
qed

lemma wg_done_inv:
  assumes inv: "group_inv task xs limit out s G" and i: "i < length (goroutines G)"
    and at: "goroutines G ! i = AtDone"
  shows "group_inv task xs limit out s (wg_done i G) \<and> 0 < wait_group G"
proof -
  have "Suc (num (\<lambda>p. p \<noteq> Gone) ((goroutines G)[i := Gone])) = num (\<lambda>p. p \<noteq> Gone) (goroutines G)"
    "num holds ((goroutines G)[i := Gone]) = num holds (goroutines G)"
    using num_update [OF i, of "\<lambda>p. p \<noteq> Gone" Gone] num_update [OF i, of holds Gone]
    by (simp_all add: at holds_def)
  moreover have "ran ((goroutines G)[i := Gone]) = ran (goroutines G)"
    using i at by (simp add: ran_update has_run_def)
  ultimately show ?thesis
    using inv
    by (auto simp: group_inv_def wg_done_def go_on_def sem_ok_def done_in_order_def
        split: option.splits)
qed

text \<open>The task is what the schedule so far grows by.\<close>

lemma run_task_inv:
  assumes inv: "group_inv task xs limit out s G" and i: "i < length (goroutines G)"
    and at: "goroutines G ! i = AtTask"
  shows "group_inv task xs limit out s (run_task task xs i G)"
proof -
  have nums: "num (\<lambda>p. p \<noteq> Gone) ((goroutines G)[i := AtReceive]) = num (\<lambda>p. p \<noteq> Gone) (goroutines G)"
    "num holds ((goroutines G)[i := AtReceive]) = num holds (goroutines G)"
    using num_update [OF i, of "\<lambda>p. p \<noteq> Gone" AtReceive] num_update [OF i, of holds AtReceive]
    by (simp_all add: at holds_def)
  from inv obtain js where js: "distinct js" "set js = ran (goroutines G)"
    "fan_out task xs js out s = (slots G, group_world G)"
    by (auto simp: group_inv_def done_in_order_def)
  have "i \<notin> set js" using at by (simp add: js(2) ran_def has_run_def)
  moreover have "ran ((goroutines G)[i := AtReceive]) = insert i (ran (goroutines G))"
    using i by (simp add: ran_add has_run_def)
  ultimately have "done_in_order task xs out s (run_task task xs i G)"
    unfolding done_in_order_def using js
    by (intro exI [of _ "js @ [i]"])
      (simp add: fan_out_snoc run_task_def go_on_def split_beta Let_def)
  then show ?thesis
    using inv nums
    by (auto simp: group_inv_def run_task_def go_on_def sem_ok_def split_beta Let_def
        split: option.splits)
qed

lemma group_step_inv:
  assumes "group_inv task xs limit out s G" and "group_step task xs l G = Some G'"
  shows "group_inv task xs limit out s G'"
  using assms spawn_inv acquire_inv release_inv wg_done_inv [THEN conjunct1] run_task_inv
  by (auto simp: group_step_def go_step_def split: if_splits group_label.splits goroutine_at.splits)

lemma group_inv_start: "group_inv task xs limit out s (group_start limit out s)"
proof -
  have "done_in_order task xs out s (group_start limit out s)"
    by (auto simp: done_in_order_def group_start_def ran_def)
  then show ?thesis
    by (cases limit) (simp_all add: group_inv_def sem_ok_def group_start_def make_chan_def)
qed

section \<open>The group always finishes\<close>

lemma group_step_lowers:
  assumes inv: "group_inv task xs limit out s G" and step: "group_step task xs l G = Some G'"
  shows "Suc (group_size xs G') = group_size xs G"
proof (cases l)
  case Spawn
  with step have "spawn xs G = Some G'" by (simp add: group_step_def split: if_splits)
  then show ?thesis by (auto simp: spawn_def group_size_def split: if_splits)
next
  case (Go i)
  with step have i: "i < length (goroutines G)" and go: "go_step task xs i G = Some G'"
    by (auto simp: group_step_def go_step_def split: if_splits)
  have ok: "\<not> group_panicked G'"
    using group_step_inv [OF inv step] by (simp add: group_inv_def)
  have "\<exists>p. goroutines G' = (goroutines G)[i := p] \<and> Suc (steps_left p) = steps_left (goroutines G ! i)"
    using go i ok
    by (cases "goroutines G ! i")
      (auto simp: go_step_def acquire_def run_task_def release_def wg_done_def go_on_def split_beta Let_def
        split: option.splits sent.splits received.splits if_splits)
  then obtain p where "goroutines G' = (goroutines G)[i := p]" "Suc (steps_left p) = steps_left (goroutines G ! i)"
    by blast
  then show ?thesis
    using sum_list_map_update [OF i, of steps_left p] by (simp add: group_size_def)
qed

interpretation group: step_measure "\<lambda>G. G = group_start limit out s" "group_step task xs"
    "group_inv task xs limit out s" "\<lambda>_. True" "group_size xs" 0
  for limit out s task xs
  by unfold_locales (auto simp: group_inv_start
    dest: group_step_inv group_step_lowers)

lemma go_progress:
  assumes inv: "group_inv task xs limit out s G" and "limit \<noteq> Some 0"
    and i: "i < length (goroutines G)" "goroutines G ! i \<noteq> Gone"
  shows "\<exists>j G'. go_step task xs j G = Some G'"
proof (cases "num (\<lambda>p. p \<noteq> Gone \<and> p \<noteq> AtSend) (goroutines G) = 0")
  case True
  then have "\<not> (goroutines G ! i \<noteq> Gone \<and> goroutines G ! i \<noteq> AtSend)" and "num holds (goroutines G) = 0"
    using i(1) by (auto simp: num_zero holds_def)
  then have "goroutines G ! i = AtSend" "sem_ok limit G" "num holds (goroutines G) = 0"
    using i(2) inv by (auto simp: group_inv_def)
  then have "\<exists>G'. acquire i G = Some G'"
    using assms(2) by (auto simp: acquire_def sem_ok_def send_def split: option.splits)
  with i \<open>goroutines G ! i = AtSend\<close> have "\<exists>G'. go_step task xs i G = Some G'" by (simp add: go_step_def)
  then show ?thesis by blast
next
  case False
  then obtain j where j: "j < length (goroutines G)"
    and at: "goroutines G ! j \<noteq> Gone" "goroutines G ! j \<noteq> AtSend" by (auto simp: num_zero)
  have "\<exists>G'. release j G = Some G'" if "goroutines G ! j = AtReceive"
    using num_pos [OF j, of holds] inv that
    by (auto simp: release_def group_inv_def sem_ok_def holds_def receive_def
        split: option.splits list.splits)
  with j at have "\<exists>G'. go_step task xs j G = Some G'"
    by (cases "goroutines G ! j") (simp_all add: go_step_def)
  then show ?thesis by blast
qed

lemma group_progress:
  assumes inv: "group_inv task xs limit out s G" and "limit \<noteq> Some 0" and "\<not> joined xs G"
  shows "\<exists>l G'. group_step task xs l G = Some G'"
proof (cases "length (goroutines G) < length xs")
  case True
  then have "\<exists>G'. group_step task xs Spawn G = Some G'"
    using inv by (simp add: group_step_def group_inv_def spawn_def)
  then show ?thesis by blast
next
  case False
  with assms have "num (\<lambda>p. p \<noteq> Gone) (goroutines G) \<noteq> 0"
    by (auto simp: group_inv_def joined_def)
  then obtain i where "i < length (goroutines G)" "goroutines G ! i \<noteq> Gone" by (auto simp: num_zero)
  from go_progress [OF inv assms(2) this] obtain j G' where "go_step task xs j G = Some G'" by blast
  then have "group_step task xs (Go j) G = Some G'"
    using inv by (simp add: group_step_def group_inv_def)
  then show ?thesis by blast
qed

lemma group_can_finish:
  assumes "group_inv task xs limit out s G" and "limit \<noteq> Some 0"
  shows "\<exists>ms G'. run_labels (group_step task xs) ms G = Some G' \<and> joined xs G'"
proof -
  have "\<exists>l G'. True \<and> group_step task xs l G = Some G'"
    if "group_inv task xs limit out s G" "\<not> joined xs G" for G
    using group_progress [OF that(1) assms(2) that(2)] by simp
  from group.can_finish [OF this assms(1)] show ?thesis by blast
qed

section \<open>The group is the fan-out along a schedule\<close>

lemma joined_fan_out:
  assumes "group_inv task xs limit out s G" and "joined xs G"
  shows "\<exists>sched. schedule_of xs sched \<and> fan_out task xs sched out s = (slots G, group_world G)"
proof -
  have "ran (goroutines G) = {..<length xs}"
    using assms by (auto simp: group_inv_def joined_def num_zero ran_def has_run_def)
  with assms(1) show ?thesis by (auto simp: group_inv_def done_in_order_def schedule_of_def)
qed

text \<open>The other way round, a schedule is what the goroutines do one after the other.\<close>

lemma group_step_Spawn:
  "\<not> group_panicked G \<Longrightarrow> group_step task xs Spawn G = spawn xs G"
  by (simp add: group_step_def)

lemma run_spawns:
  "\<not> group_panicked G \<Longrightarrow> length (goroutines G) + k \<le> length xs \<Longrightarrow>
   run_labels (group_step task xs) (replicate k Spawn) G =
     Some (G\<lparr>goroutines := goroutines G @ replicate k AtSend, wait_group := wait_group G + k\<rparr>)"
proof (induction k arbitrary: G)
  case (Suc k)
  then show ?case by (simp add: group_step_Spawn spawn_def)
qed simp

definition sem_idle :: "('b, 's) group \<Rightarrow> bool" where
  "sem_idle G \<longleftrightarrow>
     (case semaphore G of None \<Rightarrow> True | Some c \<Rightarrow> \<not> closed c \<and> queue c = [] \<and> 0 < cap c)"

lemma run_one:
  assumes "\<not> group_panicked G" and "sem_idle G" and "0 < wait_group G"
    and "i < length (goroutines G)" and "goroutines G ! i = AtSend"
  shows "run_labels (group_step task xs) (replicate 4 (Go i)) G =
    Some (G\<lparr>goroutines := (goroutines G)[i := Gone], wait_group := wait_group G - 1,
      slots := (slots G)[i := fst (task (xs ! i) (group_world G))],
      group_world := snd (task (xs ! i) (group_world G))\<rparr>)"
proof -
  have "replicate 4 (Go i) = [Go i, Go i, Go i, Go i]" by (simp add: numeral_eq_Suc)
  then show ?thesis
    using assms
    by (cases G; cases "semaphore G"; cases "the (semaphore G)")
      (auto simp: group_step_def go_step_def acquire_def run_task_def release_def wg_done_def go_on_def sem_idle_def
        send_def receive_def split_beta Let_def)
qed

lemma run_schedule:
  "\<not> group_panicked G \<Longrightarrow> sem_idle G \<Longrightarrow> length sched \<le> wait_group G \<Longrightarrow> distinct sched \<Longrightarrow>
   \<forall>i \<in> set sched. i < length (goroutines G) \<and> goroutines G ! i = AtSend \<Longrightarrow>
   \<exists>G'. run_labels (group_step task xs) (concat (map (\<lambda>i. replicate 4 (Go i)) sched)) G = Some G' \<and>
     fan_out task xs sched (slots G) (group_world G) = (slots G', group_world G') \<and>
     \<not> group_panicked G' \<and> length (goroutines G') = length (goroutines G) \<and>
     wait_group G' + length sched = wait_group G"
proof (induction sched arbitrary: G)
  case (Cons i sched)
  let ?G = "G\<lparr>goroutines := (goroutines G)[i := Gone], wait_group := wait_group G - 1,
      slots := (slots G)[i := fst (task (xs ! i) (group_world G))],
      group_world := snd (task (xs ! i) (group_world G))\<rparr>"
  have one: "run_labels (group_step task xs) (replicate 4 (Go i)) G = Some ?G"
    using Cons.prems by (intro run_one) auto
  have "\<exists>G'. run_labels (group_step task xs) (concat (map (\<lambda>i. replicate 4 (Go i)) sched)) ?G = Some G' \<and>
     fan_out task xs sched (slots ?G) (group_world ?G) = (slots G', group_world G') \<and>
     \<not> group_panicked G' \<and> length (goroutines G') = length (goroutines ?G) \<and>
     wait_group G' + length sched = wait_group ?G"
    using Cons.prems by (intro Cons.IH) (auto simp: sem_idle_def nth_list_update)
  then show ?case using Cons.prems(3) one by (auto simp: run_labels_append split_beta)
qed simp

lemma fan_out_joined:
  assumes "schedule_of xs sched" and "limit \<noteq> Some 0"
  shows "\<exists>ls G. run_labels (group_step task xs) ls (group_start limit out s) = Some G \<and> joined xs G \<and>
    fan_out task xs sched out s = (slots G, group_world G)"
proof -
  let ?n = "length xs"
  let ?G = "(group_start limit out s)\<lparr>goroutines := replicate ?n AtSend, wait_group := ?n\<rparr>"
  have sched: "distinct sched" "set sched = {..<?n}" using assms(1) by (simp_all add: schedule_of_def)
  then have len: "length sched = ?n" using distinct_card [OF sched(1)] by simp
  have spawns: "run_labels (group_step task xs) (replicate ?n Spawn) (group_start limit out s) = Some ?G"
    using run_spawns [of "group_start limit out s" ?n xs task] by (simp add: group_start_def)
  have "sem_idle ?G" using assms(2) by (auto simp: sem_idle_def group_start_def make_chan_def split: option.split)
  then have "\<exists>G'. run_labels (group_step task xs) (concat (map (\<lambda>i. replicate 4 (Go i)) sched)) ?G = Some G' \<and>
     fan_out task xs sched (slots ?G) (group_world ?G) = (slots G', group_world G') \<and>
     \<not> group_panicked G' \<and> length (goroutines G') = length (goroutines ?G) \<and>
     wait_group G' + length sched = wait_group ?G"
    using sched len by (intro run_schedule) (auto simp: group_start_def)
  then obtain G where "run_labels (group_step task xs) (concat (map (\<lambda>i. replicate 4 (Go i)) sched)) ?G = Some G"
    "fan_out task xs sched out s = (slots G, group_world G)" "joined xs G"
    using len by (auto simp: joined_def group_start_def)
  with spawns show ?thesis
    by (intro exI [of _ "replicate ?n Spawn @ concat (map (\<lambda>i. replicate 4 (Go i)) sched)"] exI [of _ G])
      (simp add: run_labels_append)
qed

lemma group_is_fan_out:
  assumes "limit \<noteq> Some 0"
  shows "(\<exists>ls G. run_labels (group_step task xs) ls (group_start limit out s) = Some G \<and> joined xs G \<and>
      slots G = res \<and> group_world G = t) \<longleftrightarrow>
    (\<exists>sched. schedule_of xs sched \<and> fan_out task xs sched out s = (res, t))"
proof
  assume "\<exists>ls G. run_labels (group_step task xs) ls (group_start limit out s) = Some G \<and> joined xs G \<and>
      slots G = res \<and> group_world G = t"
  then obtain ls G where G: "run_labels (group_step task xs) ls (group_start limit out s) = Some G"
    "joined xs G" "slots G = res" "group_world G = t" by blast
  from joined_fan_out [OF group.everywhere [OF refl G(1)] G(2)] G(3,4)
  show "\<exists>sched. schedule_of xs sched \<and> fan_out task xs sched out s = (res, t)" by simp
next
  assume "\<exists>sched. schedule_of xs sched \<and> fan_out task xs sched out s = (res, t)"
  then obtain sched where "schedule_of xs sched" "fan_out task xs sched out s = (res, t)" by blast
  with fan_out_joined [OF this(1) assms, of task out s]
  show "\<exists>ls G. run_labels (group_step task xs) ls (group_start limit out s) = Some G \<and> joined xs G \<and>
      slots G = res \<and> group_world G = t" by auto
qed

section \<open>Properties\<close>

lemma precheck_limit: "Some precheckConcurrency \<noteq> Some 0"
  by (simp add: precheckConcurrency_def)

lemma ResolveToplevels_report:
  assumes "schedule_of hs sched"
  shows "ResolveToplevels r sched hs s =
     (let (res, u) = fan_out (resolveToplevel r) hs sched (replicate (length hs) (Inr \<lparr>Drv = [], Out = []\<rparr>)) s
      in (resolve_report hs res, u))"
  using assms
  by (cases "hs = []") (simp_all add: ResolveToplevels_def resolve_report_def split_beta Let_def schedule_of_def)


text \<open>
  C40: the semaphore does its work and gets in nobody's way. At every moment of the precheck at
  most eight goroutines are between their send and their receive, a goroutine waits exactly
  when there are eight, nothing panics, and the goroutines always get to the end: until all
  are waited for one of them can go on, and they make five steps per host at most.
\<close>

theorem precheck_pool:
  assumes "run_labels (precheck_step r hs tops force) ls (precheck_start hs s) = Some G"
  shows "\<not> group_panicked G \<and> num holds (goroutines G) \<le> precheckConcurrency \<and>
    (\<forall>i < length (goroutines G). goroutines G ! i = AtSend \<longrightarrow>
      (precheck_step r hs tops force (Go i) G = None \<longleftrightarrow> num holds (goroutines G) = precheckConcurrency)) \<and>
    length ls \<le> 5 * length hs \<and>
    (joined hs G \<or> (\<exists>l G'. precheck_step r hs tops force l G = Some G')) \<and>
    (\<exists>ms G'. run_labels (precheck_step r hs tops force) ms G = Some G' \<and> joined hs G')"
proof -
  let ?task = "\<lambda>h. precheckHost r force h (toplevel_of tops h)"
  let ?inv = "group_inv ?task hs (Some precheckConcurrency) (replicate (length hs) zero_precheck) s"
  have start: "?inv (precheck_start hs s)" by (simp add: precheck_start_def group_inv_start)
  note run = assms [unfolded precheck_step_def]
  have inv: "?inv G" using group.along [OF start run] .
  then have sem: "\<not> group_panicked G" "sem_ok (Some precheckConcurrency) G" by (simp_all add: group_inv_def)
  moreover have "precheck_step r hs tops force (Go i) G = None \<longleftrightarrow> num holds (goroutines G) = precheckConcurrency"
    if "i < length (goroutines G)" "goroutines G ! i = AtSend" for i
    using sem that
    by (auto simp: precheck_step_def group_step_def go_step_def acquire_def sem_ok_def send_def
        split: option.splits)
  moreover have "length ls \<le> 5 * length hs"
    using group.bounded_work [OF start run]
    by (simp add: precheck_start_def group_start_def group_size_def)
  moreover have "joined hs G \<or> (\<exists>l G'. precheck_step r hs tops force l G = Some G')"
    using group_progress [OF inv precheck_limit] by (auto simp: precheck_step_def)
  moreover have "\<exists>ms G'. run_labels (precheck_step r hs tops force) ms G = Some G' \<and> joined hs G'"
    using group_can_finish [OF inv precheck_limit] by (simp add: precheck_step_def)
  ultimately show ?thesis by (auto simp: sem_ok_def split: option.splits)
qed

text \<open>Nine hosts of which eight hold the semaphore: the ninth waits, and the run still ends.\<close>

theorem precheck_pool_witness:
  "let step = precheck_step (fake_runner None []) (replicate 9 zero_host) Map.empty False;
       G = the (run_labels step (replicate 9 Spawn @ map Go [0..<8])
             (precheck_start (replicate 9 zero_host) fresh))
   in num holds (goroutines G) = 8 \<and> step (Go 8) G = None \<and> step (Go 0) G \<noteq> None \<and>
      (\<exists>ms G'. run_labels step ms G = Some G' \<and> joined (replicate 9 zero_host) G')"
proof -
  let ?step = "precheck_step (fake_runner None []) (replicate 9 zero_host) Map.empty False"
  let ?ls = "replicate 9 Spawn @ map Go [0..<8]"
  let ?P = "precheck_start (replicate 9 zero_host) fresh"
  have "\<exists>G. run_labels ?step ?ls ?P = Some G \<and> goroutines G = replicate 8 AtTask @ [AtSend]"
    by (simp add: precheck_step_def precheck_start_def group_start_def precheckConcurrency_def make_chan_def
      group_step_def spawn_def go_step_def acquire_def go_on_def send_def numeral_eq_Suc upt_rec)
  then obtain G where G: "run_labels ?step ?ls ?P = Some G" "goroutines G = replicate 8 AtTask @ [AtSend]"
    by blast
  from precheck_pool [OF G(1)] have "?step (Go 8) G = None \<longleftrightarrow> num holds (goroutines G) = 8"
    "\<exists>ms G'. run_labels ?step ms G = Some G' \<and> joined (replicate 9 zero_host) G'" "\<not> group_panicked G"
    using G(2) by (auto simp: precheckConcurrency_def nth_append)
  moreover have "num holds (goroutines G) = 8" by (simp add: G(2) num_def holds_def)
  moreover have "?step (Go 0) G \<noteq> None"
    using \<open>\<not> group_panicked G\<close> by (simp add: precheck_step_def group_step_def go_step_def G(2) nth_append)
  ultimately show ?thesis using G(1) by (simp add: Let_def)
qed

end
