(* ===== verification/Reboot.thy ===== *)
theory Reboot
  imports Ssh
begin

text \<open>
  \<open>deployment/reboot.go\<close>: the value of \<open>--reboot\<close>, the decision table, and the
  detection of a changed kernel or kernel command line on a host.
\<close>

section \<open>The flag and the decision\<close>

text \<open>\<open>RebootFlag\<close> is a string type: its four values, and any other string.\<close>

datatype reboot_flag =
    RebootFlagAuto | RebootFlagNever | RebootFlagAlways | RebootFlagAsk
  | OtherRebootFlag string

fun flag_string :: "reboot_flag \<Rightarrow> string" where
  "flag_string RebootFlagAuto = ''auto''"
| "flag_string RebootFlagNever = ''never''"
| "flag_string RebootFlagAlways = ''always''"
| "flag_string RebootFlagAsk = ''ask''"
| "flag_string (OtherRebootFlag s) = s"

text \<open>The error carries the offending text.\<close>

definition ParseRebootFlag :: "string \<Rightarrow> string + reboot_flag" where
  "ParseRebootFlag s =
     (if s = ''auto'' then Inr RebootFlagAuto
      else if s = ''never'' then Inr RebootFlagNever
      else if s = ''always'' then Inr RebootFlagAlways
      else if s = ''ask'' then Inr RebootFlagAsk
      else Inl s)"

datatype reboot_action = RebootSkip | RebootDo | RebootPromptUser

fun RebootDecide :: "reboot_flag \<Rightarrow> bool \<Rightarrow> reboot_action" where
  "RebootDecide RebootFlagNever kernelChanged = RebootSkip"
| "RebootDecide RebootFlagAlways kernelChanged = RebootDo"
| "RebootDecide RebootFlagAsk kernelChanged =
     (if \<not> kernelChanged then RebootSkip else RebootPromptUser)"
| "RebootDecide RebootFlagAuto kernelChanged =
     (if \<not> kernelChanged then RebootSkip else RebootDo)"
| "RebootDecide (OtherRebootFlag s) kernelChanged = RebootSkip"

section \<open>Detecting a change\<close>

definition paramSet :: "string \<Rightarrow> string set" where
  "paramSet s = set (Fields s)"

definition setsEqual :: "string set \<Rightarrow> string set \<Rightarrow> bool" where
  "setsEqual a b = (if card a \<noteq> card b then False else \<forall>k \<in> a. k \<in> b)"

definition KernelChanged :: "string \<Rightarrow> string \<Rightarrow> string \<Rightarrow> string \<Rightarrow> bool" where
  "KernelChanged running current bootedParams currentParams =
     (let r = TrimSpace running; c = TrimSpace current in
      if r \<noteq> [] \<and> c \<noteq> [] \<and> r \<noteq> c then True
      else let bp = paramSet bootedParams; cp = paramSet currentParams in
        if 0 < card bp \<and> 0 < card cp \<and> \<not> setsEqual bp cp then True else False)"

text \<open>The four queries; what is printed of the difference is left out.\<close>

definition DetectKernelChange :: "'w runner \<Rightarrow> host \<Rightarrow> 'w st \<Rightarrow> bool \<times> 'w st" where
  "DetectKernelChange r h s =
     (let (running, s) = SSHRun r h RunningKernel (15 * Second) s;
          (current, s) = SSHRun r h CurrentModules (15 * Second) s;
          (bootedParams, s) = SSHRun r h BootedParams (15 * Second) s;
          (currentParams, s) = SSHRun r h CurrentParams (15 * Second) s
      in (KernelChanged (Stdout running) (Stdout current)
            (Stdout bootedParams) (Stdout currentParams), s))"

section \<open>Facts\<close>

lemma setsEqual_iff: "finite a \<Longrightarrow> finite b \<Longrightarrow> setsEqual a b \<longleftrightarrow> a = b"
  by (auto simp: setsEqual_def dest: card_subset_eq)

lemma finite_paramSet [simp]: "finite (paramSet s)"
  by (simp add: paramSet_def)

text \<open>The commands a detection issues.\<close>

definition detect_call :: "host \<Rightarrow> call \<Rightarrow> bool" where
  "detect_call h k \<longleftrightarrow>
     k = SshExitHost h \<or>
     (\<exists>cmd \<in> {RunningKernel, CurrentModules, BootedParams, CurrentParams}. k = SshCall Muxed h cmd)"

interpretation detect: traced_op "DetectKernelChange r h" "detect_call h" for r h
  by unfold_locales
    (unfold DetectKernelChange_def Let_def, intro extends_intros; simp add: detect_call_def)

section \<open>Properties\<close>

text \<open>
  A reboot is seen as owed exactly when a known difference exists. The running and
  current kernels are both known and differ, or the booted and current parameters are both
  known and differ as sets; an answer that could not be read is never a change, and neither
  are a reordering or a repetition of parameters.
\<close>

theorem KernelChanged_iff:
  "KernelChanged running current bootedParams currentParams \<longleftrightarrow>
     (TrimSpace running \<noteq> [] \<and> TrimSpace current \<noteq> [] \<and> TrimSpace running \<noteq> TrimSpace current) \<or>
     (set (Fields bootedParams) \<noteq> {} \<and> set (Fields currentParams) \<noteq> {} \<and>
      set (Fields bootedParams) \<noteq> set (Fields currentParams))"
  by (auto simp: KernelChanged_def Let_def card_gt_0_iff setsEqual_iff paramSet_def)

end
