(* ===== verification/Health.thy ===== *)
theory Health
  imports Ssh
begin

text \<open>
  \<open>deployment/health.go\<close>: waiting for a Kubernetes node to be ready, and the per-host
  connectivity checks after an activation. Both are bounded retry loops and interpret the
  interface of \<open>Prelude\<close>.
\<close>

definition k8sHealthRetries :: nat where
  "k8sHealthRetries = 12"

definition k8sHealthInterval :: duration where
  "k8sHealthInterval = 10 * Second"

definition verifyRetries :: nat where
  "verifyRetries = 3"

definition verifyRetryDelay :: duration where
  "verifyRetryDelay = 2 * Second"

section \<open>Kubernetes readiness\<close>

function k8s_loop :: "'w runner \<Rightarrow> host \<Rightarrow> nat \<Rightarrow> 'w st \<Rightarrow> bool \<times> 'w st" where
  "k8s_loop r h i s =
     (if i < k8sHealthRetries then
        let (res, s) = Run r (KubectlGetNode (Name h)) [] (15 * Second) s;
            status = TrimSpace (Stdout res) in
        if \<not> Failed res \<and> status = ''True'' then (True, s)
        else k8s_loop r h (Suc i)
               (if i < k8sHealthRetries - 1 then time_sleep (os r) k8sHealthInterval s else s)
      else (False, s))"
  by pat_completeness auto
termination
  by (relation "measure (\<lambda>(r, h, i, s). k8sHealthRetries - i)") auto

declare k8s_loop.simps [simp del]

definition WaitForK8sReady :: "'w runner \<Rightarrow> host \<Rightarrow> 'w st \<Rightarrow> bool \<times> 'w st" where
  "WaitForK8sReady r h s = k8s_loop r h 0 s"

section \<open>Connectivity\<close>

text \<open>The synthetic host has the address as its FQDN.\<close>

definition pingVia :: "'w runner \<Rightarrow> string \<Rightarrow> string \<Rightarrow> bool \<Rightarrow> 'w st \<Rightarrow> bool \<times> 'w st" where
  "pingVia r viaHost target v6 s =
     (let (res, s) = SSHRun r (zero_host\<lparr>SSHAddress := viaHost\<rparr>) (PingFrom v6 target) (25 * Second) s
      in (\<not> Failed res, s))"

definition pingLocal :: "'w runner \<Rightarrow> string \<Rightarrow> bool \<Rightarrow> 'w st \<Rightarrow> bool \<times> 'w st" where
  "pingLocal r target v6 s =
     (let (res, s) = Run r (PingLocal target v6) [] (25 * Second) s in (\<not> Failed res, s))"

definition dnsLocal :: "'w runner \<Rightarrow> 'w st \<Rightarrow> bool \<times> 'w st" where
  "dnsLocal r s =
     (let (res, s) = Run r GetentHosts [] (15 * Second) s in (\<not> Failed res, s))"

text \<open>The label of a check, and the check.\<close>

fun conn_label :: "conn_check \<Rightarrow> string" where
  "conn_label CheckSSH = ''SSH''"
| "conn_label CheckPingGateway = ''Ping gateway''"
| "conn_label CheckPing6Gateway = ''Ping6 gateway''"
| "conn_label CheckPingInternet = ''Ping internet (1.1.1.1)''"
| "conn_label CheckDNS = ''DNS resolution''"
| "conn_label CheckIPv6Tunnel = ''IPv6 tunnel (HE)''"
| "conn_label CheckIPv6Internet = ''IPv6 internet''"
| "conn_label (OtherCheck c) = c"

fun conn_check_ok :: "'w runner \<Rightarrow> host \<Rightarrow> conn_check \<Rightarrow> 'w st \<Rightarrow> bool \<times> 'w st" where
  "conn_check_ok r h CheckSSH s = CheckSSHReachableDirect r h s"
| "conn_check_ok r h CheckPingGateway s = pingVia r (FQDN h) ''10.28.0.1'' False s"
| "conn_check_ok r h CheckPing6Gateway s = pingVia r (FQDN h) ''2001:470:482f::1'' True s"
| "conn_check_ok r h CheckPingInternet s = pingLocal r ''1.1.1.1'' False s"
| "conn_check_ok r h CheckDNS s = dnsLocal r s"
| "conn_check_ok r h CheckIPv6Tunnel s = pingVia r (FQDN h) ''2001:470:66:35::1'' True s"
| "conn_check_ok r h CheckIPv6Internet s = pingVia r (FQDN h) ''2001:4860:4860::8888'' True s"
| "conn_check_ok r h (OtherCheck c) s = (False, s)"

definition runConnCheck :: "'w runner \<Rightarrow> host \<Rightarrow> conn_check \<Rightarrow> 'w st \<Rightarrow> (string \<times> bool) \<times> 'w st" where
  "runConnCheck r h c s = (let (ok, s) = conn_check_ok r h c s in ((conn_label c, ok), s))"

text \<open>One attempt: the checks in order, given up at the first that fails.\<close>

fun run_checks :: "'w runner \<Rightarrow> host \<Rightarrow> conn_check list \<Rightarrow> 'w st \<Rightarrow> bool \<times> 'w st" where
  "run_checks r h [] s = (True, s)"
| "run_checks r h (c # cs) s =
     (let ((label, ok), s) = runConnCheck r h c s in
      if ok then run_checks r h cs s else (False, s))"

function verify_loop :: "'w runner \<Rightarrow> host \<Rightarrow> nat \<Rightarrow> 'w st \<Rightarrow> bool \<times> 'w st" where
  "verify_loop r h attempt s =
     (if attempt < verifyRetries then
        let (allOK, s) = run_checks r h (ConnChecks h) s in
        if allOK then (True, s)
        else verify_loop r h (Suc attempt)
               (if attempt < verifyRetries - 1
                then time_sleep (os r) verifyRetryDelay (dropSSHMaster r h s) else s)
      else (False, s))"
  by pat_completeness auto
termination
  by (relation "measure (\<lambda>(r, h, i, s). verifyRetries - i)") auto

declare verify_loop.simps [simp del]

definition VerifyConnectivity :: "'w runner \<Rightarrow> host \<Rightarrow> 'w st \<Rightarrow> bool \<times> 'w st" where
  "VerifyConnectivity r h s = verify_loop r h 0 s"

section \<open>The loops as retry loops\<close>

definition k8s_attempt :: "'w runner \<Rightarrow> host \<Rightarrow> 'w st \<Rightarrow> bool option \<times> 'w st" where
  "k8s_attempt r h s =
     (let (res, s) = Run r (KubectlGetNode (Name h)) [] (15 * Second) s in
      (if \<not> Failed res \<and> TrimSpace (Stdout res) = ''True'' then Some True else None, s))"

definition verify_attempt :: "'w runner \<Rightarrow> host \<Rightarrow> 'w st \<Rightarrow> bool option \<times> 'w st" where
  "verify_attempt r h s =
     (let (ok, s) = run_checks r h (ConnChecks h) s in (if ok then Some True else None, s))"

text \<open>The calls each of them makes.\<close>

definition k8s_calls :: "host \<Rightarrow> call \<Rightarrow> bool" where
  "k8s_calls h k \<longleftrightarrow> k = KubectlGetNode (Name h)"

definition check_calls :: "host \<Rightarrow> call \<Rightarrow> bool" where
  "check_calls h k \<longleftrightarrow>
     k = SshCall Direct h EchoOk \<or> k = SshExitHost h \<or> k = GetentHosts \<or>
     (\<exists>target v6. k = PingLocal target v6) \<or>
     k = SshExitHost (zero_host\<lparr>SSHAddress := FQDN h\<rparr>) \<or>
     (\<exists>target v6. k = SshCall Muxed (zero_host\<lparr>SSHAddress := FQDN h\<rparr>) (PingFrom v6 target))"

lemma check_calls_intros:
  "check_calls h (SshCall Direct h EchoOk)" "check_calls h (SshExitHost h)"
  "check_calls h GetentHosts" "check_calls h (PingLocal target v6)"
  "check_calls h (SshExitHost (zero_host\<lparr>SSHAddress := FQDN h\<rparr>))"
  "check_calls h (SshCall Muxed (zero_host\<lparr>SSHAddress := FQDN h\<rparr>) (PingFrom v6 target))"
  by (simp_all add: check_calls_def)

lemma conn_check_ok_from [extends_intros]:
  assumes "extends Q s u" and "\<And>k. check_calls h k \<Longrightarrow> Q k"
  shows "extends Q s (snd (conn_check_ok r h c u))"
  using assms(1) check_calls_intros [THEN assms(2)]
  by (cases c)
    (simp_all add: pingVia_def pingLocal_def dnsLocal_def Let_def CheckSSHReachableDirect_def
      split_beta SSHRun_from SSHRunDirect_from Run_extends del: extends_Pair)

lemma run_checks_from [extends_intros]:
  "extends Q s u \<Longrightarrow> (\<And>k. check_calls h k \<Longrightarrow> Q k) \<Longrightarrow> extends Q s (snd (run_checks r h cs u))"
proof (induction cs arbitrary: u)
  case (Cons c cs)
  then show ?case
    using conn_check_ok_from [OF Cons.prems(1), of h r c]
    by (simp add: runConnCheck_def split_beta)
qed simp

interpretation k8s: related_retry k8sHealthRetries "k8s_loop r h" "k8s_attempt r h"
    "time_sleep (os r) k8sHealthInterval" "extends (k8s_calls h)"
  for r h
proof unfold_locales
  fix i s
  show "k8s_loop r h i s =
    (if i < k8sHealthRetries then
       (case k8s_attempt r h s of
          (Some b, s') \<Rightarrow> (b, s')
        | (None, s') \<Rightarrow> k8s_loop r h (Suc i)
            (if i < k8sHealthRetries - 1 then time_sleep (os r) k8sHealthInterval s' else s'))
     else (False, s))"
    by (subst k8s_loop.simps) (simp add: k8s_attempt_def Let_def split_beta)
  show "extends (k8s_calls h) s (snd (k8s_attempt r h s))"
    unfolding k8s_attempt_def Let_def by (intro extends_intros) (simp add: k8s_calls_def)
  show "extends (k8s_calls h) s (time_sleep (os r) k8sHealthInterval s)"
    by (intro extends_intros) (simp add: k8sHealthInterval_def)
qed (auto intro: extends_trans)

interpretation verify: related_retry verifyRetries "verify_loop r h" "verify_attempt r h"
    "\<lambda>s. time_sleep (os r) verifyRetryDelay (dropSSHMaster r h s)" "extends (check_calls h)"
  for r h
proof unfold_locales
  fix i s
  show "verify_loop r h i s =
    (if i < verifyRetries then
       (case verify_attempt r h s of
          (Some b, s') \<Rightarrow> (b, s')
        | (None, s') \<Rightarrow> verify_loop r h (Suc i)
            (if i < verifyRetries - 1
             then time_sleep (os r) verifyRetryDelay (dropSSHMaster r h s') else s'))
     else (False, s))"
    by (subst verify_loop.simps) (simp add: verify_attempt_def Let_def split_beta)
  show "extends (check_calls h) s (snd (verify_attempt r h s))"
    unfolding verify_attempt_def Let_def by (intro extends_intros)
  show "extends (check_calls h) s (time_sleep (os r) verifyRetryDelay (dropSSHMaster r h s))"
    by (intro extends_intros) (simp_all add: check_calls_def verifyRetryDelay_def)
qed (auto intro: extends_trans)

interpretation k8s_gate: traced_op "WaitForK8sReady r h" "k8s_calls h" for r h
  by unfold_locales (simp add: WaitForK8sReady_def k8s.loop_relates)

interpretation connectivity: traced_op "VerifyConnectivity r h" "check_calls h" for r h
  by unfold_locales (simp add: VerifyConnectivity_def verify.loop_relates)

section \<open>What a passed gate has seen\<close>

text \<open>The event that shows a check passed.\<close>

fun check_passed :: "host \<Rightarrow> conn_check \<Rightarrow> event \<Rightarrow> bool" where
  "check_passed h CheckSSH (Ran k res) \<longleftrightarrow> k = SshCall Direct h EchoOk \<and> sshEchoOK res"
| "check_passed h CheckPingGateway (Ran k res) \<longleftrightarrow>
     k = SshCall Muxed (zero_host\<lparr>SSHAddress := FQDN h\<rparr>) (PingFrom False ''10.28.0.1'') \<and> \<not> Failed res"
| "check_passed h CheckPing6Gateway (Ran k res) \<longleftrightarrow>
     k = SshCall Muxed (zero_host\<lparr>SSHAddress := FQDN h\<rparr>) (PingFrom True ''2001:470:482f::1'') \<and> \<not> Failed res"
| "check_passed h CheckPingInternet (Ran k res) \<longleftrightarrow> k = PingLocal ''1.1.1.1'' False \<and> \<not> Failed res"
| "check_passed h CheckDNS (Ran k res) \<longleftrightarrow> k = GetentHosts \<and> \<not> Failed res"
| "check_passed h CheckIPv6Tunnel (Ran k res) \<longleftrightarrow>
     k = SshCall Muxed (zero_host\<lparr>SSHAddress := FQDN h\<rparr>) (PingFrom True ''2001:470:66:35::1'') \<and> \<not> Failed res"
| "check_passed h CheckIPv6Internet (Ran k res) \<longleftrightarrow>
     k = SshCall Muxed (zero_host\<lparr>SSHAddress := FQDN h\<rparr>) (PingFrom True ''2001:4860:4860::8888'') \<and> \<not> Failed res"
| "check_passed h _ _ \<longleftrightarrow> False"

lemma conn_check_ok_true:
  assumes "conn_check_ok r h c s = (True, u)"
  shows "\<exists>es. trace u = trace s @ es \<and> list_all (\<lambda>e. \<not> is_pause e) es \<and>
    (\<exists>e \<in> set es. check_passed h c e)"
proof -
  have ping: "\<exists>es. trace u = trace s @ es \<and> list_all (\<lambda>e. \<not> is_pause e) es \<and>
      (\<exists>res. Ran (SshCall Muxed (zero_host\<lparr>SSHAddress := FQDN h\<rparr>) (PingFrom v6 target)) res \<in> set es \<and>
        \<not> Failed res)"
    if p: "pingVia r (FQDN h) target v6 s = (True, u)" for target v6
  proof -
    obtain res where
      "SSHRun r (zero_host\<lparr>SSHAddress := FQDN h\<rparr>) (PingFrom v6 target) (25 * Second) s = (res, u)"
      and ok: "\<not> Failed res"
      using p by (auto simp: pingVia_def split_beta prod_eq_iff)
    from SSHRun_last [OF this(1)] ok show ?thesis by fastforce
  qed
  show ?thesis
  proof (cases c)
    case CheckPingGateway
    with assms ping [of "''10.28.0.1''" False] show ?thesis by force
  next
    case CheckPing6Gateway
    with assms ping [of "''2001:470:482f::1''" True] show ?thesis by force
  next
    case CheckIPv6Tunnel
    with assms ping [of "''2001:470:66:35::1''" True] show ?thesis by force
  next
    case CheckIPv6Internet
    with assms ping [of "''2001:4860:4860::8888''" True] show ?thesis by force
  qed (use assms in \<open>auto simp: CheckSSHReachableDirect_def pingLocal_def dnsLocal_def
      split_beta prod_eq_iff\<close>)
qed

lemma run_checks_true:
  "run_checks r h cs s = (True, u) \<Longrightarrow>
   \<exists>es. trace u = trace s @ es \<and> list_all (\<lambda>e. \<not> is_pause e) es \<and>
     (\<forall>c \<in> set cs. \<exists>e \<in> set es. check_passed h c e)"
proof (induction cs arbitrary: s)
  case (Cons c cs)
  obtain ok v where v: "conn_check_ok r h c s = (ok, v)" by force
  with Cons.prems have ok: "ok" and rest: "run_checks r h cs v = (True, u)"
    by (auto simp: runConnCheck_def split: if_splits)
  from v ok obtain es where "trace v = trace s @ es" "list_all (\<lambda>e. \<not> is_pause e) es"
    "\<exists>e \<in> set es. check_passed h c e"
    using conn_check_ok_true [of r h c s v] by auto
  moreover from Cons.IH [OF rest] obtain fs where "trace u = trace v @ fs"
    "list_all (\<lambda>e. \<not> is_pause e) fs" "\<forall>c \<in> set cs. \<exists>e \<in> set fs. check_passed h c e"
    by blast
  ultimately show ?case by (intro exI [of _ "es @ fs"]) auto
qed simp

text \<open>A successful Kubernetes attempt is a successful query that printed True.\<close>

lemma k8s_attempt_true:
  "k8s_attempt r h s = (Some True, u) \<Longrightarrow>
   \<exists>res. trace u = trace s @ [Ran (KubectlGetNode (Name h)) res] \<and> \<not> Failed res \<and>
     TrimSpace (Stdout res) = ''True''"
  by (auto simp: k8s_attempt_def Let_def split_beta prod_eq_iff split: if_splits)

lemma k8s_query_cost:
  "occurs (ran (k8s_calls h)) (trace (snd (k8s_attempt r h s))) =
     occurs (ran (k8s_calls h)) (trace s) + 1"
  "occurs is_pause (trace (snd (k8s_attempt r h s))) = occurs is_pause (trace s)"
  by (simp_all add: k8s_attempt_def Let_def split_beta k8s_calls_def)

lemma k8s_no_refusal: "fst (k8s_attempt r h s) \<noteq> Some False"
  by (simp add: k8s_attempt_def Let_def split_beta)

text \<open>A verification that succeeds does so by one attempt in which every check passed.\<close>

lemma VerifyConnectivity_stretch:
  assumes "VerifyConnectivity r h s = (True, s')"
  shows "\<exists>earlier last.
    trace s' = trace s @ earlier @ last \<and> occurs is_pause last = 0 \<and>
    (\<forall>c \<in> set (ConnChecks h). \<exists>e \<in> set last. check_passed h c e)"
proof -
  from assms obtain t where t: "extends (check_calls h) s t" "verify_attempt r h t = (Some True, s')"
    using verify.loop_true_attempt [where r = r and h = h and i = 0 and s = s and s' = s'] by (auto simp: VerifyConnectivity_def)
  then have "run_checks r h (ConnChecks h) t = (True, s')"
    by (auto simp: verify_attempt_def split_beta prod_eq_iff split: if_splits)
  from run_checks_true [OF this] obtain es where "trace s' = trace t @ es"
    "list_all (\<lambda>e. \<not> is_pause e) es" "\<forall>c \<in> set (ConnChecks h). \<exists>e \<in> set es. check_passed h c e"
    by blast
  with extends_since [OF t(1)] show ?thesis
    by (intro exI [of _ "since (trace s) (trace t)"] exI [of _ es]) (simp add: occurs_zero)
qed

section \<open>Properties\<close>

text \<open>
  C34: the Kubernetes gate. It asks for the node at most twelve times and pauses at most
  eleven times; when it passes, its last act was a query of this very node that succeeded
  and printed True; when it fails, it has asked all twelve times.
\<close>

theorem WaitForK8sReady_gate:
  "let (ready, s') = WaitForK8sReady r h s;
       new = since (trace s) (trace s');
       asked = occurs (ran (k8s_calls h)) new;
       pauses = occurs is_pause new in
   if ready
   then asked \<le> 12 \<and> pauses \<le> 11 \<and>
     (\<exists>res before. new = before @ [Ran (KubectlGetNode (Name h)) res] \<and> \<not> Failed res \<and>
        TrimSpace (Stdout res) = ''True'')
   else asked = 12 \<and> pauses = 11"
proof -
  obtain ready u where w: "k8s_loop r h 0 s = (ready, u)" by force
  have ext: "extends (k8s_calls h) s u" using k8s.loop_relates [where h = h and s = s and r = r and i = 0] w by simp
  note count = occurs_since [OF ext]
  have asked: "occurs (ran (k8s_calls h)) (trace u) \<le> occurs (ran (k8s_calls h)) (trace s) + 12"
    using k8s.loop_cost [where cost = "\<lambda>s. occurs (ran (k8s_calls h)) (trace s)" and h = h and r = r
        and a = 1 and c = 0 and i = 0 and s = s] w
    by (simp add: k8sHealthRetries_def k8s_query_cost)
  have pauses: "occurs is_pause (trace u) \<le> occurs is_pause (trace s) + 11"
    using k8s.loop_cost [where cost = "\<lambda>s. occurs is_pause (trace s)" and h = h and r = r
        and a = 0 and c = 1 and i = 0 and s = s] w
    by (simp add: k8sHealthRetries_def k8s_query_cost)
  show ?thesis
  proof (cases ready)
    case True
    with w obtain t where t: "extends (k8s_calls h) s t" "k8s_attempt r h t = (Some True, u)"
      using k8s.loop_true_attempt [where r = r and h = h and i = 0 and s = s and s' = u] by auto
    from k8s_attempt_true [OF t(2)] extends_since [OF t(1)]
    obtain res where "trace u = trace s @ since (trace s) (trace t) @ [Ran (KubectlGetNode (Name h)) res]"
      "\<not> Failed res" "TrimSpace (Stdout res) = ''True''"
      by auto
    then have "\<exists>res before. since (trace s) (trace u) = before @ [Ran (KubectlGetNode (Name h)) res] \<and>
        \<not> Failed res \<and> TrimSpace (Stdout res) = ''True''" by auto
    with True w asked pauses count show ?thesis by (simp add: WaitForK8sReady_def Let_def)
  next
    case False
    have "occurs (ran (k8s_calls h)) (trace u) = occurs (ran (k8s_calls h)) (trace s) + 12"
      using k8s.loop_exhausts [where cost = "\<lambda>s. occurs (ran (k8s_calls h)) (trace s)" and r = r
        and h = h and a = 1 and c = 0 and i = 0 and s = s and s' = u]
        w False by (simp add: k8sHealthRetries_def k8s_query_cost k8s_no_refusal)
    moreover have "occurs is_pause (trace u) = occurs is_pause (trace s) + 11"
      using k8s.loop_exhausts [where cost = "\<lambda>s. occurs is_pause (trace s)" and r = r
        and h = h and a = 0 and c = 1 and i = 0 and s = s and s' = u]
        w False by (simp add: k8sHealthRetries_def k8s_query_cost k8s_no_refusal)
    ultimately show ?thesis using False w count by (simp add: WaitForK8sReady_def Let_def)
  qed
qed

text \<open>
  All connectivity checks pass on the same attempt. When the verification succeeds,
  its trace ends with a stretch without any pause in which every check of the host has its
  passing answer; the ssh check among them was made on a connection of its own.
\<close>

theorem VerifyConnectivity_same_attempt:
  assumes "VerifyConnectivity r h s = (True, s')"
  shows "\<exists>earlier last.
    trace s' = trace s @ earlier @ last \<and> occurs is_pause last = 0 \<and>
    (\<forall>c \<in> set (ConnChecks h). \<exists>e \<in> set last. check_passed h c e)"
  using VerifyConnectivity_stretch [OF assms] .

theorem VerifyConnectivity_same_attempt_witness:
  "let r = fake_runner None [\<lparr>Match = MatchContains [''echo ok''],
         Result = zero_result\<lparr>Stdout := ''ok''\<rparr>\<rparr>];
       h = zero_host\<lparr>Name := ''ro'', ConnChecks := [CheckSSH, CheckPing6Gateway]\<rparr>;
       s' = snd (VerifyConnectivity r h fresh) in
   VerifyConnectivity r h fresh = (True, s') \<and>
   (\<exists>e \<in> set (trace s'). check_passed h CheckSSH e)"
proof -
  let ?r = "fake_runner None [\<lparr>Match = MatchContains [''echo ok''],
         Result = zero_result\<lparr>Stdout := ''ok''\<rparr>\<rparr>]"
  let ?h = "zero_host\<lparr>Name := ''ro'', ConnChecks := [CheckSSH, CheckPing6Gateway]\<rparr>"
  have ok: "fst (VerifyConnectivity ?r ?h fresh)" by code_simp
  then have eq: "VerifyConnectivity ?r ?h fresh = (True, snd (VerifyConnectivity ?r ?h fresh))"
    by (simp add: prod_eq_iff)
  from VerifyConnectivity_same_attempt [OF this]
  show ?thesis using eq by (auto simp: Let_def)
qed

end
