(* ===== verification/Ceph.thy ===== *)
theory Ceph
  imports Ssh Json
begin

text \<open>
  \<open>deployment/ceph.go\<close>: the gate around the deploy of a storage node. Before: no OSD of
  another node may be down, then \<open>noout\<close> is set on the node. After: wait until every OSD
  is up and every placement group clean, then clear \<open>noout\<close>.
\<close>

definition cephHealthRetries :: nat where
  "cephHealthRetries = 30"

definition cephHealthInterval :: duration where
  "cephHealthInterval = 10 * Second"

section \<open>The answers of the cluster\<close>

record osd_node =
  node_id :: int
  node_name :: string
  node_type :: string
  node_status :: string
  node_children :: "int list"

record cephOSDTree =
  Nodes :: "osd_node list"

definition zero_node :: osd_node where
  "zero_node = \<lparr>node_id = 0, node_name = [], node_type = [], node_status = [], node_children = []\<rparr>"

definition node_member :: "osd_node \<Rightarrow> string \<Rightarrow> json \<Rightarrow> osd_node option" where
  "node_member n key v =
     (if key_is ''id'' key then map_option (\<lambda>i. n\<lparr>node_id := i\<rparr>) (decode_int (node_id n) v)
      else if key_is ''name'' key then map_option (\<lambda>s. n\<lparr>node_name := s\<rparr>) (decode_string (node_name n) v)
      else if key_is ''type'' key then map_option (\<lambda>s. n\<lparr>node_type := s\<rparr>) (decode_string (node_type n) v)
      else if key_is ''status'' key then
        map_option (\<lambda>s. n\<lparr>node_status := s\<rparr>) (decode_string (node_status n) v)
      else if key_is ''children'' key then
        map_option (\<lambda>is. n\<lparr>node_children := is\<rparr>) (decode_list (decode_int 0) v)
      else Some n)"

definition tree_member :: "cephOSDTree \<Rightarrow> string \<Rightarrow> json \<Rightarrow> cephOSDTree option" where
  "tree_member t key v =
     (if key_is ''nodes'' key
      then map_option (\<lambda>ns. t\<lparr>Nodes := ns\<rparr>) (decode_list (decode_struct node_member zero_node) v)
      else Some t)"

definition decode_tree :: "string \<Rightarrow> cephOSDTree option" where
  "decode_tree s = Unmarshal (decode_struct tree_member) \<lparr>Nodes = []\<rparr> s"

text \<open>The map from an OSD to its CRUSH host; a missing key reads as the empty name.\<close>

fun host_of_from :: "(int \<Rightarrow> string) \<Rightarrow> osd_node list \<Rightarrow> (int \<Rightarrow> string)" where
  "host_of_from m [] = m"
| "host_of_from m (n # ns) =
     host_of_from (if node_type n = ''host''
                   then (\<lambda>c. if c \<in> set (node_children n) then node_name n else m c)
                   else m) ns"

definition hostOf :: "cephOSDTree \<Rightarrow> int \<Rightarrow> string" where
  "hostOf t = host_of_from (\<lambda>_. []) (Nodes t)"

text \<open>\<open>m[k] = append(m[k], v)\<close> on a map kept as an association list.\<close>

fun append_at :: "'k \<Rightarrow> 'v \<Rightarrow> ('k \<times> 'v list) list \<Rightarrow> ('k \<times> 'v list) list" where
  "append_at k v [] = [(k, [v])]"
| "append_at k v ((k', vs) # m) = (if k' = k then (k', vs @ [v]) # m else (k', vs) # append_at k v m)"

fun down_from :: "(int \<Rightarrow> string) \<Rightarrow> osd_node list \<Rightarrow> (string \<times> string list) list
    \<Rightarrow> (string \<times> string list) list" where
  "down_from ho [] down = down"
| "down_from ho (n # ns) down =
     down_from ho ns
       (if node_type n = ''osd'' \<and> node_status n \<noteq> ''up''
        then append_at (ho (node_id n)) (node_name n) down else down)"

definition downOSDsByHost :: "cephOSDTree \<Rightarrow> (string \<times> string list) list" where
  "downOSDsByHost t = down_from (hostOf t) (Nodes t) []"

record pg_state =
  pg_name :: string
  pg_num :: int

record cephPGStat =
  ByState :: "pg_state list"
  NumPGs :: int

definition pg_state_member :: "pg_state \<Rightarrow> string \<Rightarrow> json \<Rightarrow> pg_state option" where
  "pg_state_member p key v =
     (if key_is ''name'' key then map_option (\<lambda>s. p\<lparr>pg_name := s\<rparr>) (decode_string (pg_name p) v)
      else if key_is ''num'' key then map_option (\<lambda>i. p\<lparr>pg_num := i\<rparr>) (decode_int (pg_num p) v)
      else Some p)"

definition pg_summary_member :: "cephPGStat \<Rightarrow> string \<Rightarrow> json \<Rightarrow> cephPGStat option" where
  "pg_summary_member p key v =
     (if key_is ''num_pg_by_state'' key
      then map_option (\<lambda>ps. p\<lparr>ByState := ps\<rparr>)
             (decode_list (decode_struct pg_state_member \<lparr>pg_name = [], pg_num = 0\<rparr>) v)
      else if key_is ''num_pgs'' key then map_option (\<lambda>i. p\<lparr>NumPGs := i\<rparr>) (decode_int (NumPGs p) v)
      else Some p)"

definition pg_stat_member :: "cephPGStat \<Rightarrow> string \<Rightarrow> json \<Rightarrow> cephPGStat option" where
  "pg_stat_member p key v =
     (if key_is ''pg_summary'' key then decode_struct pg_summary_member p v else Some p)"

definition decode_pg_stat :: "string \<Rightarrow> cephPGStat option" where
  "decode_pg_stat s = Unmarshal (decode_struct pg_stat_member) \<lparr>ByState = [], NumPGs = 0\<rparr> s"

fun clean_sum :: "int \<Rightarrow> pg_state list \<Rightarrow> int" where
  "clean_sum clean [] = clean"
| "clean_sum clean (p # ps) =
     clean_sum (if pg_name p = ''active+clean'' then clean + pg_num p else clean) ps"

definition allActiveClean :: "cephPGStat \<Rightarrow> bool" where
  "allActiveClean p \<longleftrightarrow> clean_sum 0 (ByState p) = NumPGs p"

section \<open>The gate\<close>

datatype ceph_error = CephCommandFailed string string | CephBadJSON string

definition cephJSON :: "'w runner \<Rightarrow> host \<Rightarrow> string \<Rightarrow> (string \<Rightarrow> 'a option) \<Rightarrow> 'w st
    \<Rightarrow> (ceph_error + 'a) \<times> 'w st" where
  "cephJSON r h args decode s =
     (let (res, s) = SSHRun r h (CephQuery args) (30 * Second) s in
      if Failed res then (Inl (CephCommandFailed args (TrimSpace (Stderr res))), s)
      else case decode (Stdout res) of
             None \<Rightarrow> (Inl (CephBadJSON args), s)
           | Some out \<Rightarrow> (Inr out, s))"

definition CephBeforeDeploy :: "'w runner \<Rightarrow> host \<Rightarrow> 'w st \<Rightarrow> bool \<times> 'w st" where
  "CephBeforeDeploy r h s =
     (let (answer, s) = cephJSON r h ''osd tree'' decode_tree s in
      case answer of
        Inl err \<Rightarrow> (False, s)
      | Inr tree \<Rightarrow>
          if list_ex (\<lambda>(hn, osds). hn \<noteq> Name h) (downOSDsByHost tree) then (False, s)
          else let (res, s) = SSHRun r h (CephSetNoout (Name h)) (30 * Second) s in
            if Failed res then (False, s) else (True, s))"

text \<open>One round of the wait: \<open>None\<close> to try again, or the answer of the whole wait.\<close>

definition ceph_round :: "'w runner \<Rightarrow> host \<Rightarrow> 'w st \<Rightarrow> bool option \<times> 'w st" where
  "ceph_round r h s =
     (let (t, s) = cephJSON r h ''osd tree'' decode_tree s in
      case t of
        Inl err \<Rightarrow> (None, s)
      | Inr tree \<Rightarrow>
          (let (p, s) = cephJSON r h ''pg stat'' decode_pg_stat s in
           case p of
             Inl err \<Rightarrow> (None, s)
           | Inr pgs \<Rightarrow>
               if 0 < length (downOSDsByHost tree) then (None, s)
               else if \<not> allActiveClean pgs then (None, s)
               else let (res, s) = SSHRun r h (CephUnsetNoout (Name h)) (30 * Second) s in
                 (if Failed res then (Some False, s) else (Some True, s))))"

function ceph_loop :: "'w runner \<Rightarrow> host \<Rightarrow> nat \<Rightarrow> 'w st \<Rightarrow> bool \<times> 'w st" where
  "ceph_loop r h i s =
     (if i < cephHealthRetries then
        (case ceph_round r h s of
           (Some b, s) \<Rightarrow> (b, s)
         | (None, s) \<Rightarrow>
             ceph_loop r h (Suc i)
               (if i < cephHealthRetries - 1 then time_sleep (os r) cephHealthInterval s else s))
      else (False, s))"
  by pat_completeness auto
termination
  by (relation "measure (\<lambda>(r, h, i, s). cephHealthRetries - i)") auto

declare ceph_loop.simps [simp del]

definition CephAfterDeploy :: "'w runner \<Rightarrow> host \<Rightarrow> 'w st \<Rightarrow> bool \<times> 'w st" where
  "CephAfterDeploy r h s = ceph_loop r h 0 s"

definition cephNooutLeftSet :: "host \<Rightarrow> string" where
  "cephNooutLeftSet h =
     Name h @ '': Ceph noout is still set on this host. Once its OSD is back and PGs are ''
       @ ''active+clean, clear it: ssh '' @ FQDN h @ '' sudo ceph osd unset-group noout '' @ Name h"

section \<open>The calls of the gate\<close>

definition ceph_calls :: "host \<Rightarrow> call \<Rightarrow> bool" where
  "ceph_calls h k \<longleftrightarrow>
     k = SshExitHost h \<or> (\<exists>args. k = SshCall Muxed h (CephQuery args)) \<or>
     k = SshCall Muxed h (CephSetNoout (Name h)) \<or> k = SshCall Muxed h (CephUnsetNoout (Name h))"

lemma cephJSON_from [extends_intros]:
  assumes "extends Q s u" and "Q (SshExitHost h)" and "Q (SshCall Muxed h (CephQuery args))"
  shows "extends Q s (snd (cephJSON r h args dec u))"
  using SSHRun_from [OF assms(1,3,2), of r "30 * Second"]
  by (simp add: cephJSON_def Let_def split_beta split: option.split)

lemma extends_case_sum [extends_intros]:
  "(\<And>a. x = Inl a \<Longrightarrow> extends Q s (snd (f a))) \<Longrightarrow> (\<And>b. x = Inr b \<Longrightarrow> extends Q s (snd (g b))) \<Longrightarrow>
   extends Q s (snd (case x of Inl a \<Rightarrow> f a | Inr b \<Rightarrow> g b))"
  by (cases x) auto

interpretation ceph_before: traced_op "CephBeforeDeploy r h" "ceph_calls h" for r h
  by unfold_locales
    (unfold CephBeforeDeploy_def Let_def, intro extends_intros; simp add: ceph_calls_def)

interpretation ceph_round: traced_op "ceph_round r h" "ceph_calls h" for r h
  by unfold_locales
    (unfold ceph_round_def Let_def, intro extends_intros; simp add: ceph_calls_def)

interpretation ceph_wait: related_retry cephHealthRetries "ceph_loop r h" "ceph_round r h"
    "time_sleep (os r) cephHealthInterval" "extends (ceph_calls h)"
  for r h
proof unfold_locales
  fix i s
  show "ceph_loop r h i s =
    (if i < cephHealthRetries then
       (case ceph_round r h s of
          (Some b, s') \<Rightarrow> (b, s')
        | (None, s') \<Rightarrow> ceph_loop r h (Suc i)
            (if i < cephHealthRetries - 1 then time_sleep (os r) cephHealthInterval s' else s'))
     else (False, s))"
    by (rule ceph_loop.simps)
  show "extends (ceph_calls h) s (time_sleep (os r) cephHealthInterval s)"
    by (intro extends_intros) (simp add: cephHealthInterval_def)
qed (auto intro: extends_trans ceph_round.op_extends)

interpretation ceph_after: traced_op "CephAfterDeploy r h" "ceph_calls h" for r h
  by unfold_locales (simp add: CephAfterDeploy_def ceph_wait.loop_relates)

section \<open>What the answers say\<close>

definition osd_down :: "osd_node \<Rightarrow> bool" where
  "osd_down n \<longleftrightarrow> node_type n = ''osd'' \<and> node_status n \<noteq> ''up''"

text \<open>The down OSDs of a CRUSH host, by name and in the order of the tree.\<close>

definition down_names :: "(int \<Rightarrow> string) \<Rightarrow> osd_node list \<Rightarrow> string \<Rightarrow> string list" where
  "down_names ho ns hn = map node_name (filter (\<lambda>n. osd_down n \<and> ho (node_id n) = hn) ns)"

definition entry_of :: "('k \<times> 'v list) list \<Rightarrow> 'k \<Rightarrow> 'v list" where
  "entry_of m k = (case map_of m k of None \<Rightarrow> [] | Some vs \<Rightarrow> vs)"

lemma entry_of_Nil [simp]: "entry_of [] k = []"
  by (simp add: entry_of_def)

lemma append_at_entry: "entry_of (append_at k v m) k' = entry_of m k' @ (if k' = k then [v] else [])"
  by (induction k v m rule: append_at.induct) (auto simp: entry_of_def)

lemma append_at_keys: "fst ` set (append_at k v m) = insert k (fst ` set m)"
  by (induction k v m rule: append_at.induct) auto

lemma append_at_filled: "[] \<notin> snd ` set m \<Longrightarrow> [] \<notin> snd ` set (append_at k v m)"
  by (induction k v m rule: append_at.induct) auto

lemma down_from_entry: "entry_of (down_from ho ns m) hn = entry_of m hn @ down_names ho ns hn"
  by (induction ns arbitrary: m) (auto simp: append_at_entry down_names_def osd_down_def)

lemma down_from_keys:
  "fst ` set (down_from ho ns m) = fst ` set m \<union> (\<lambda>n. ho (node_id n)) ` {n \<in> set ns. osd_down n}"
  by (induction ns arbitrary: m) (auto simp: append_at_keys osd_down_def)

lemma down_elsewhere:
  "list_ex (\<lambda>(hn, osds). hn \<noteq> name) (downOSDsByHost t) \<longleftrightarrow>
     (\<exists>n \<in> set (Nodes t). osd_down n \<and> hostOf t (node_id n) \<noteq> name)"
proof -
  have "list_ex (\<lambda>(hn, osds). hn \<noteq> name) (downOSDsByHost t) \<longleftrightarrow>
      (\<exists>hn \<in> fst ` set (downOSDsByHost t). hn \<noteq> name)"
    by (auto simp: list_ex_iff split_beta)
  then show ?thesis by (auto simp: downOSDsByHost_def down_from_keys)
qed

lemma none_down: "downOSDsByHost t = [] \<longleftrightarrow> (\<forall>n \<in> set (Nodes t). \<not> osd_down n)"
proof -
  have "downOSDsByHost t = [] \<longleftrightarrow> fst ` set (downOSDsByHost t) = {}" by auto
  then show ?thesis by (auto simp: downOSDsByHost_def down_from_keys)
qed

lemma cephJSON_ok:
  assumes "cephJSON r h args dec s = (Inr out, u)"
  shows "\<exists>es res. trace u = trace s @ es @ [Ran (SshCall Muxed h (CephQuery args)) res] \<and>
    \<not> Failed res \<and> dec (Stdout res) = Some out"
proof -
  obtain res v where v: "SSHRun r h (CephQuery args) (30 * Second) s = (res, v)" by force
  with assms have "v = u" "\<not> Failed res" "dec (Stdout res) = Some out"
    by (auto simp: cephJSON_def split: if_splits option.splits)
  with SSHRun_last [OF v] show ?thesis by blast
qed

lemma ceph_round_true:
  assumes "ceph_round r h s = (Some True, u)"
  shows "\<exists>a b c tree_res pg_res res tree pgs.
    trace u = trace s @ a @ [Ran (SshCall Muxed h (CephQuery ''osd tree'')) tree_res]
      @ b @ [Ran (SshCall Muxed h (CephQuery ''pg stat'')) pg_res]
      @ c @ [Ran (SshCall Muxed h (CephUnsetNoout (Name h))) res] \<and>
    \<not> Failed tree_res \<and> decode_tree (Stdout tree_res) = Some tree \<and>
    \<not> Failed pg_res \<and> decode_pg_stat (Stdout pg_res) = Some pgs \<and>
    (\<forall>n \<in> set (Nodes tree). \<not> osd_down n) \<and> allActiveClean pgs \<and> \<not> Failed res"
proof -
  obtain t s1 where t: "cephJSON r h ''osd tree'' decode_tree s = (t, s1)" by force
  then obtain tree where tree: "t = Inr tree"
    using assms by (cases t) (auto simp: ceph_round_def)
  obtain p s2 where p: "cephJSON r h ''pg stat'' decode_pg_stat s1 = (p, s2)" by force
  then obtain pgs where pgs: "p = Inr pgs"
    using assms t tree by (cases p) (auto simp: ceph_round_def)
  obtain res s3 where res: "SSHRun r h (CephUnsetNoout (Name h)) (30 * Second) s2 = (res, s3)"
    by force
  have "downOSDsByHost tree = []" "allActiveClean pgs" "\<not> Failed res" "s3 = u"
    using assms t tree p pgs res by (auto simp: ceph_round_def split: if_splits)
  moreover from this(1) have "\<forall>n \<in> set (Nodes tree). \<not> osd_down n" by (simp add: none_down)
  moreover from cephJSON_ok [OF t [unfolded tree]] obtain a tree_res where
    "trace s1 = trace s @ a @ [Ran (SshCall Muxed h (CephQuery ''osd tree'')) tree_res]"
    "\<not> Failed tree_res" "decode_tree (Stdout tree_res) = Some tree" by blast
  moreover from cephJSON_ok [OF p [unfolded pgs]] obtain b pg_res where
    "trace s2 = trace s1 @ b @ [Ran (SshCall Muxed h (CephQuery ''pg stat'')) pg_res]"
    "\<not> Failed pg_res" "decode_pg_stat (Stdout pg_res) = Some pgs" by blast
  moreover from SSHRun_last [OF res] obtain c where
    "trace s3 = trace s2 @ c @ [Ran (SshCall Muxed h (CephUnsetNoout (Name h))) res]" by blast
  ultimately show ?thesis
    by (intro exI [of _ a] exI [of _ b] exI [of _ c] exI [of _ tree_res] exI [of _ pg_res]
        exI [of _ res] exI [of _ tree] exI [of _ pgs]) simp
qed

lemma cephJSON_no_pause:
  "occurs is_pause (trace (snd (cephJSON r h args dec s))) = occurs is_pause (trace s)"
proof -
  obtain res u where u: "SSHRun r h (CephQuery args) (30 * Second) s = (res, u)" by force
  from SSHRun_last [OF u] have "occurs is_pause (trace u) = occurs is_pause (trace s)"
    by (auto simp: occurs_zero)
  then show ?thesis using u by (auto simp: cephJSON_def split: option.split)
qed

lemma ceph_round_no_pause:
  "occurs is_pause (trace (snd (ceph_round r h s))) = occurs is_pause (trace s)"
proof -
  obtain t s1 where t: "cephJSON r h ''osd tree'' decode_tree s = (t, s1)" by force
  obtain p s2 where p: "cephJSON r h ''pg stat'' decode_pg_stat s1 = (p, s2)" by force
  obtain res s3 where res: "SSHRun r h (CephUnsetNoout (Name h)) (30 * Second) s2 = (res, s3)"
    by force
  have "occurs is_pause (trace s1) = occurs is_pause (trace s)"
    "occurs is_pause (trace s2) = occurs is_pause (trace s1)"
    using t p cephJSON_no_pause by (metis snd_conv)+
  moreover have "occurs is_pause (trace s3) = occurs is_pause (trace s2)"
    using SSHRun_last [OF res] by (auto simp: occurs_zero)
  ultimately show ?thesis
    using t p res by (auto simp: ceph_round_def split: sum.split)
qed

section \<open>Properties\<close>

text \<open>
  The account of down OSDs is exact. For every CRUSH host the map lists, in the order
  of the tree, the names of the OSDs that are not up and that the tree puts under that host,
  and a host has an entry only if it has such an OSD; an OSD under no host is charged to the
  empty name, which is no host's.
\<close>

theorem downOSDsByHost_exact:
  "entry_of (downOSDsByHost t) hn = down_names (hostOf t) (Nodes t) hn \<and>
   fst ` set (downOSDsByHost t) = (\<lambda>n. hostOf t (node_id n)) ` {n \<in> set (Nodes t). osd_down n}"
  by (simp add: downOSDsByHost_def down_from_entry down_from_keys)

text \<open>
  C35: a storage node is touched only while all other nodes' OSDs are up. When the gate
  before a deploy opens, the cluster's tree was read successfully on the node, every OSD in
  it that is not up belongs to the node itself, and setting noout on the node succeeded
  after that.
\<close>

theorem CephBeforeDeploy_safe:
  assumes "CephBeforeDeploy r h s = (True, s')"
  shows "\<exists>a b tree_res set_res tree.
    trace s' = trace s @ a @ [Ran (SshCall Muxed h (CephQuery ''osd tree'')) tree_res]
      @ b @ [Ran (SshCall Muxed h (CephSetNoout (Name h))) set_res] \<and>
    \<not> Failed tree_res \<and> decode_tree (Stdout tree_res) = Some tree \<and>
    (\<forall>n \<in> set (Nodes tree). osd_down n \<longrightarrow> hostOf tree (node_id n) = Name h) \<and>
    \<not> Failed set_res"
proof -
  obtain t s1 where t: "cephJSON r h ''osd tree'' decode_tree s = (t, s1)" by force
  then obtain tree where tree: "t = Inr tree"
    using assms by (cases t) (auto simp: CephBeforeDeploy_def)
  obtain res s2 where res: "SSHRun r h (CephSetNoout (Name h)) (30 * Second) s1 = (res, s2)"
    by force
  have "\<not> list_ex (\<lambda>(hn, osds). hn \<noteq> Name h) (downOSDsByHost tree)" "\<not> Failed res" "s2 = s'"
    using assms t tree res by (auto simp: CephBeforeDeploy_def split: if_splits)
  moreover from this(1) have "\<forall>n \<in> set (Nodes tree). osd_down n \<longrightarrow> hostOf tree (node_id n) = Name h"
    unfolding down_elsewhere by blast
  moreover from cephJSON_ok [OF t [unfolded tree]] obtain a tree_res where
    "trace s1 = trace s @ a @ [Ran (SshCall Muxed h (CephQuery ''osd tree'')) tree_res]"
    "\<not> Failed tree_res" "decode_tree (Stdout tree_res) = Some tree" by blast
  moreover from SSHRun_last [OF res] obtain b where
    "trace s2 = trace s1 @ b @ [Ran (SshCall Muxed h (CephSetNoout (Name h))) res]" by blast
  ultimately show ?thesis
    by (intro exI [of _ a] exI [of _ b] exI [of _ tree_res] exI [of _ res] exI [of _ tree]) simp
qed

theorem CephBeforeDeploy_safe_witness:
  \<open>let r = fake_runner None [\<lparr>Match = MatchContains [''osd tree''],
         Result = zero_result\<lparr>Stdout := ''{"nodes":[{"id":0,"name":"osd.0","type":"osd","status":"down"},{"id":-2,"name":"zah","type":"host","children":[0]}]}''\<rparr>\<rparr>];
       h = zero_host\<lparr>Name := ''zah'', CephHealthCheck := True\<rparr>;
       s' = snd (CephBeforeDeploy r h fresh) in
   CephBeforeDeploy r h fresh = (True, s') \<and>
   (\<exists>res. Ran (SshCall Muxed h (CephSetNoout ''zah'')) res \<in> set (trace s') \<and> \<not> Failed res)\<close>
proof -
  let ?r = \<open>fake_runner None [\<lparr>Match = MatchContains [''osd tree''],
         Result = zero_result\<lparr>Stdout := ''{"nodes":[{"id":0,"name":"osd.0","type":"osd","status":"down"},{"id":-2,"name":"zah","type":"host","children":[0]}]}''\<rparr>\<rparr>]\<close>
  let ?h = "zero_host\<lparr>Name := ''zah'', CephHealthCheck := True\<rparr>"
  have ok: "fst (CephBeforeDeploy ?r ?h fresh)" by code_simp
  then have eq: "CephBeforeDeploy ?r ?h fresh = (True, snd (CephBeforeDeploy ?r ?h fresh))"
    by (simp add: prod_eq_iff)
  from CephBeforeDeploy_safe [OF this] eq show ?thesis by (auto simp: Let_def)
qed

text \<open>When the gate opens, the last thing it did was to clear noout.\<close>

lemma CephAfterDeploy_clears:
  assumes "CephAfterDeploy r h s = (True, u)"
  shows "\<exists>es res. trace u = trace s @ es @ [Ran (SshCall Muxed h (CephUnsetNoout (Name h))) res] \<and>
    \<not> Failed res"
proof -
  obtain t where t: "extends (ceph_calls h) s t" "ceph_round r h t = (Some True, u)"
    using ceph_wait.loop_true_attempt [where r = r and h = h and i = 0 and s = s and s' = u] assms
    by (auto simp: CephAfterDeploy_def)
  from ceph_round_true [OF t(2)] obtain es res where
    "trace u = trace t @ es @ [Ran (SshCall Muxed h (CephUnsetNoout (Name h))) res]" "\<not> Failed res"
    by (metis append.assoc append_Cons)
  moreover from this(1) have "trace u = trace s @ (since (trace s) (trace t) @ es) @
      [Ran (SshCall Muxed h (CephUnsetNoout (Name h))) res]"
    using extends_since [OF t(1)] by simp
  ultimately show ?thesis by blast
qed

text \<open>
  C36: noout is cleared only on a healthy cluster, and the wait is bounded. When the gate
  after a deploy opens, its last round read a tree with no OSD down and then a summary with
  every placement group active+clean, and then cleared noout successfully; in every case it
  paused at most 29 times.
\<close>

theorem CephAfterDeploy_healthy:
  "let (ok, s') = CephAfterDeploy r h s in
   occurs is_pause (since (trace s) (trace s')) \<le> 29 \<and>
   (if ok then \<exists>a b c tree_res pg_res res tree pgs.
      trace s' = trace s @ a @ [Ran (SshCall Muxed h (CephQuery ''osd tree'')) tree_res]
        @ b @ [Ran (SshCall Muxed h (CephQuery ''pg stat'')) pg_res]
        @ c @ [Ran (SshCall Muxed h (CephUnsetNoout (Name h))) res] \<and>
      \<not> Failed tree_res \<and> decode_tree (Stdout tree_res) = Some tree \<and>
      \<not> Failed pg_res \<and> decode_pg_stat (Stdout pg_res) = Some pgs \<and>
      filter osd_down (Nodes tree) = [] \<and> allActiveClean pgs \<and> \<not> Failed res
    else True)"
proof -
  obtain ok u where w: "ceph_loop r h 0 s = (ok, u)" by force
  have ext: "extends (ceph_calls h) s u"
    using ceph_wait.loop_relates [where h = h and s = s and r = r and i = 0] w by simp
  have "occurs is_pause (trace u) \<le> occurs is_pause (trace s) + 29"
    using ceph_wait.loop_cost [where cost = "\<lambda>s. occurs is_pause (trace s)" and h = h and r = r
        and a = 0 and c = 1 and i = 0 and s = s] w
    by (simp add: cephHealthRetries_def ceph_round_no_pause)
  then have pauses: "occurs is_pause (since (trace s) (trace u)) \<le> 29"
    using occurs_since [OF ext, of is_pause] by simp
  show ?thesis
  proof (cases ok)
    case True
    with w obtain t where t: "extends (ceph_calls h) s t" "ceph_round r h t = (Some True, u)"
      using ceph_wait.loop_true_attempt [where r = r and h = h and i = 0 and s = s and s' = u]
      by auto
    from ceph_round_true [OF t(2)] obtain a b c tree_res pg_res res tree pgs where
      "trace u = trace t @ a @ [Ran (SshCall Muxed h (CephQuery ''osd tree'')) tree_res]
        @ b @ [Ran (SshCall Muxed h (CephQuery ''pg stat'')) pg_res]
        @ c @ [Ran (SshCall Muxed h (CephUnsetNoout (Name h))) res]"
      and "\<not> Failed tree_res" "decode_tree (Stdout tree_res) = Some tree" "\<not> Failed pg_res"
      "decode_pg_stat (Stdout pg_res) = Some pgs" "\<forall>n \<in> set (Nodes tree). \<not> osd_down n"
      "allActiveClean pgs" "\<not> Failed res"
      by blast
    moreover from this(1) have "trace u = trace s @ (since (trace s) (trace t) @ a)
        @ [Ran (SshCall Muxed h (CephQuery ''osd tree'')) tree_res]
        @ b @ [Ran (SshCall Muxed h (CephQuery ''pg stat'')) pg_res]
        @ c @ [Ran (SshCall Muxed h (CephUnsetNoout (Name h))) res]"
      using extends_since [OF t(1)] by simp
    ultimately have "\<exists>a b c tree_res pg_res res tree pgs.
      trace u = trace s @ a @ [Ran (SshCall Muxed h (CephQuery ''osd tree'')) tree_res]
        @ b @ [Ran (SshCall Muxed h (CephQuery ''pg stat'')) pg_res]
        @ c @ [Ran (SshCall Muxed h (CephUnsetNoout (Name h))) res] \<and>
      \<not> Failed tree_res \<and> decode_tree (Stdout tree_res) = Some tree \<and>
      \<not> Failed pg_res \<and> decode_pg_stat (Stdout pg_res) = Some pgs \<and>
      filter osd_down (Nodes tree) = [] \<and> allActiveClean pgs \<and> \<not> Failed res"
      unfolding filter_empty_conv by blast
    with pauses True w show ?thesis by (simp only: CephAfterDeploy_def Let_def prod.case if_True)
  next
    case False
    with pauses w show ?thesis by (simp add: CephAfterDeploy_def)
  qed
qed

end
