(* ===== verification/Deploy.thy ===== *)
theory Deploy
  imports Reboot Health Ceph Precheck
begin

text \<open>
  \<open>deployment/deploy.go\<close>: deploying one host. The watchdog-protected flow \<open>deploySafe\<close>
  arms a reboot timer on the host, activates the new system, verifies it, makes it the boot
  default and disarms the timer; \<open>deployUnsafe\<close> is a single \<open>nixos-rebuild\<close>; both end with
  the reboot decision and the Kubernetes gate. The second half states what the commands do
  to a host, and shows that the flow keeps the host recoverable at every moment.

  \<open>DeployContext\<close> has two fields that only tests set, a sleeper and a clock; the tool leaves
  them nil, which is \<open>time_sleep\<close> and the clock of the run. The lines the code prints are
  left out.
\<close>

section \<open>Constants, mode and context\<close>

definition watchdogTimeout :: duration where
  "watchdogTimeout = 120 * Second"

definition activationTimeout :: duration where
  "activationTimeout = 90 * Second"

text \<open>\<open>Mode\<close> is a string type: its three values, and any other string.\<close>

datatype deploy_mode = ModeSafe | ModeSwitch | ModeBoot | OtherMode string

fun mode_string :: "deploy_mode \<Rightarrow> string" where
  "mode_string ModeSafe = ''safe''"
| "mode_string ModeSwitch = ''switch''"
| "mode_string ModeBoot = ''boot''"
| "mode_string (OtherMode s) = s"

text \<open>The error carries the offending text.\<close>

definition ParseMode :: "string \<Rightarrow> string + deploy_mode" where
  "ParseMode s =
     (if s = ''safe'' then Inr ModeSafe
      else if s = ''switch'' then Inr ModeSwitch
      else if s = ''boot'' then Inr ModeBoot
      else Inl s)"

text \<open>
  A nil prompter is \<open>None\<close>; \<open>collects\<close> says that the pointer to the warnings of the run is
  not nil.
\<close>

record 'w deploy_ctx =
  ctx_runner :: "'w runner"
  Prompter :: "(string \<Rightarrow> 'w \<Rightarrow> bool \<times> 'w) option"
  RebootFlag :: reboot_flag
  collects :: bool

definition appendWarning :: "'w deploy_ctx \<Rightarrow> string \<Rightarrow> 'w st \<Rightarrow> 'w st" where
  "appendWarning c msg s = (if collects c then s\<lparr>warnings := warnings s @ [msg]\<rparr> else s)"

text \<open>Calling the prompter, recorded in the trace.\<close>

definition ask :: "(string \<Rightarrow> 'w \<Rightarrow> bool \<times> 'w) \<Rightarrow> string \<Rightarrow> 'w st \<Rightarrow> bool \<times> 'w st" where
  "ask p prompt s =
     (let (yes, w) = p prompt (world s)
      in (yes, s\<lparr>world := w, trace := trace s @ [Asked prompt yes]\<rparr>))"

section \<open>Units on the host\<close>

definition cleanupStaleUnits :: "'w deploy_ctx \<Rightarrow> host \<Rightarrow> 'w st \<Rightarrow> 'w st" where
  "cleanupStaleUnits c h s = snd (SSHRun (ctx_runner c) h CleanupUnits (15 * Second) s)"

definition clearRebuildUnit :: "'w deploy_ctx \<Rightarrow> host \<Rightarrow> 'w st \<Rightarrow> 'w st" where
  "clearRebuildUnit c h s = snd (SSHRun (ctx_runner c) h ClearRebuildUnit (10 * Second) s)"

definition armWatchdog :: "'w deploy_ctx \<Rightarrow> host \<Rightarrow> duration \<Rightarrow> 'w st \<Rightarrow> (string \<times> bool) \<times> 'w st" where
  "armWatchdog c h timeout s =
     (let unit = ''deploy-watchdog-'' @ Itoa (wall_clock (os (ctx_runner c)) (world s));
          (res, s) = SSHRunOnce (ctx_runner c) h (ArmTimer unit (whole_seconds timeout)) (30 * Second) s in
      if Failed res then ((unit, False), s) else ((unit, True), s))"

definition disarmWatchdog :: "'w deploy_ctx \<Rightarrow> host \<Rightarrow> string \<Rightarrow> 'w st \<Rightarrow> 'w st" where
  "disarmWatchdog c h unit s = snd (SSHRun (ctx_runner c) h (StopTimer unit) (30 * Second) s)"

section \<open>Activation and persistence\<close>

text \<open>The second component is what the code stores through \<open>timedOut\<close>.\<close>

definition activate :: "'w deploy_ctx \<Rightarrow> host \<Rightarrow> string \<Rightarrow> string \<Rightarrow> 'w st \<Rightarrow> (bool \<times> bool) \<times> 'w st" where
  "activate c h systemPath sub s =
     (let (res, s) = SSHRunOnce (ctx_runner c) h (SwitchTo systemPath sub) activationTimeout s;
          s = dropSSHMaster (ctx_runner c) h s in
      if \<not> Failed res then ((True, False), s)
      else if sub = ''test'' then
        let s = time_sleep (os (ctx_runner c)) (5 * Second) s;
            (up, s) = CheckSSHReachableDirect (ctx_runner c) h s in
        if up then ((True, True), s) else ((False, False), s)
      else ((False, False), s))"

definition alreadyDeployed :: "'w deploy_ctx \<Rightarrow> host \<Rightarrow> string \<Rightarrow> 'w st \<Rightarrow> (bool \<times> string) \<times> 'w st" where
  "alreadyDeployed c h systemPath s = hostAtPath (ctx_runner c) h systemPath s"

definition verifyActivePath :: "'w deploy_ctx \<Rightarrow> host \<Rightarrow> string \<Rightarrow> 'w st \<Rightarrow> (bool \<times> string) \<times> 'w st" where
  "verifyActivePath c h expected s =
     (let (got, s) = activeSystemPath (ctx_runner c) h s in
      if got = [] then ((False, []), s)
      else if got \<noteq> expected then ((False, got), s)
      else ((True, got), s))"

definition persistBoot :: "'w deploy_ctx \<Rightarrow> host \<Rightarrow> string \<Rightarrow> 'w st \<Rightarrow> bool \<times> 'w st" where
  "persistBoot c h systemPath s =
     (let (res, s) = SSHRun (ctx_runner c) h (SetProfile systemPath) (30 * Second) s in
      if Failed res then (False, s)
      else let (res, s) = SSHRun (ctx_runner c) h (SwitchTo systemPath ''boot'') activationTimeout s in
        if Failed res then (False, s) else (True, s))"

section \<open>Rebooting\<close>

definition rebootWaitInitial :: duration where
  "rebootWaitInitial = 30 * Second"

definition rebootWaitInterval :: duration where
  "rebootWaitInterval = 10 * Second"

definition rebootWaitMax :: duration where
  "rebootWaitMax = 300 * Second"

text \<open>
  The polling loop. It ends because every round sleeps ten seconds, so the clock reaches the
  deadline.
\<close>

function reboot_poll :: "'w deploy_ctx \<Rightarrow> host \<Rightarrow> int \<Rightarrow> 'w st \<Rightarrow> bool \<times> 'w st" where
  "reboot_poll c h deadline s =
     (if clock s < deadline then
        let (up, s) = CheckSSHReachableDirect (ctx_runner c) h s in
        if up then (True, s)
        else reboot_poll c h deadline (time_sleep (os (ctx_runner c)) rebootWaitInterval s)
      else (False, s))"
  by pat_completeness auto
termination
proof (relation "measure (\<lambda>(c, h, deadline, s). nat (deadline - clock s))")
  fix c :: "'w deploy_ctx" and h deadline and s :: "'w st" and x up u
  assume "clock s < deadline" "x = CheckSSHReachableDirect (ctx_runner c) h s" "(up, u) = x"
  then have "clock s \<le> clock u" by (metis reachable_direct.op_clock)
  moreover have "clock u < clock (time_sleep (os (ctx_runner c)) rebootWaitInterval u)"
    using time_sleep_clock [of u rebootWaitInterval "os (ctx_runner c)"]
    by (simp add: rebootWaitInterval_def)
  ultimately show "((c, h, deadline, time_sleep (os (ctx_runner c)) rebootWaitInterval u), (c, h, deadline, s))
      \<in> measure (\<lambda>(c, h, deadline, s). nat (deadline - clock s))"
    using \<open>clock s < deadline\<close> by simp
qed simp

declare reboot_poll.simps [simp del]

definition rebootAndWait :: "'w deploy_ctx \<Rightarrow> host \<Rightarrow> 'w st \<Rightarrow> bool \<times> 'w st" where
  "rebootAndWait c h s =
     (let (res, s) = SSHRunOnce (ctx_runner c) h RebootNow (10 * Second) s;
          s = dropSSHMaster (ctx_runner c) h s;
          s = time_sleep (os (ctx_runner c)) rebootWaitInitial s
      in reboot_poll c h (clock s + rebootWaitMax) s)"

definition applyReboot :: "'w deploy_ctx \<Rightarrow> host \<Rightarrow> bool \<Rightarrow> 'w st \<Rightarrow> bool \<times> 'w st" where
  "applyReboot c h changed s =
     (case RebootDecide (RebootFlag c) changed of
        RebootSkip \<Rightarrow>
          (True,
           if changed
           then appendWarning c (Name h @ '' needs reboot (skipped due to --reboot ''
                  @ flag_string (RebootFlag c) @ '')'') s
           else s)
      | RebootPromptUser \<Rightarrow>
          (let (yes, s) =
             (case Prompter c of
                None \<Rightarrow> (False, s)
              | Some p \<Rightarrow> ask p (''  Reboot '' @ Name h @ ''? [y/N]: '') s) in
           if \<not> yes then (True, appendWarning c (Name h @ '' needs reboot (user declined)'') s)
           else rebootAndWait c h s)
      | RebootDo \<Rightarrow> rebootAndWait c h s)"

definition handleReboot :: "'w deploy_ctx \<Rightarrow> host \<Rightarrow> 'w st \<Rightarrow> bool \<times> 'w st" where
  "handleReboot c h s =
     (let (changed, s) = DetectKernelChange (ctx_runner c) h s in applyReboot c h changed s)"

section \<open>Deploying\<close>

definition deploySafe :: "'w deploy_ctx \<Rightarrow> host \<Rightarrow> plan \<Rightarrow> 'w st \<Rightarrow> bool \<times> 'w st" where
  "deploySafe c h p s =
     (let systemPath = SystemPath p;
          ((upToDate, priorPath), s) = alreadyDeployed c h systemPath s in
      if upToDate then
        let (back, s) = handleReboot c h s in
        if \<not> back then (False, s)
        else if K8sHealthCheck h then WaitForK8sReady (ctx_runner c) h s
        else (True, s)
      else
        let s = cleanupStaleUnits c h s;
            ((unit, ok), s) = armWatchdog c h watchdogTimeout s in
        if \<not> ok then (False, disarmWatchdog c h unit s)
        else
          let ((ok, testTimedOut), s) = activate c h systemPath ''test'' s in
          if \<not> ok then (False, s)
          else
            let (ok, s) = VerifyConnectivity (ctx_runner c) h s in
            if \<not> ok then (False, s)
            else
              let ((ok, got), s) = verifyActivePath c h systemPath s in
              if \<not> ok then
                if got \<noteq> [] \<and> got = priorPath then (False, disarmWatchdog c h unit s)
                else (False, s)
              else
                let s = (if testTimedOut then clearRebuildUnit c h s else s);
                    (ok, s) = persistBoot c h systemPath s in
                if \<not> ok then (False, disarmWatchdog c h unit s)
                else
                  let s = disarmWatchdog c h unit s;
                      (back, s) = handleReboot c h s in
                  if \<not> back then (False, s)
                  else if K8sHealthCheck h then
                    let (ready, s) = WaitForK8sReady (ctx_runner c) h s in
                    if \<not> ready then (False, s) else (True, s)
                  else (True, s))"

definition deployUnsafe :: "'w deploy_ctx \<Rightarrow> host \<Rightarrow> string \<Rightarrow> 'w st \<Rightarrow> bool \<times> 'w st" where
  "deployUnsafe c h nrMode s =
     (let (res, s) = Run (ctx_runner c) (NixosRebuild nrMode h) (nixSSHOptsFor (ctx_runner c))
            (10 * Minute) s;
          s = dropSSHMaster (ctx_runner c) h s in
      if Failed res then (False, s)
      else
        let (back, s) = (if nrMode = ''boot'' then applyReboot c h True s else handleReboot c h s) in
        if \<not> back then (False, s)
        else if K8sHealthCheck h then
          let (ready, s) = WaitForK8sReady (ctx_runner c) h s in
          if \<not> ready then (False, s) else (True, s)
        else (True, s))"

text \<open>An unknown mode deploys nothing and fails.\<close>

definition Deploy :: "'w deploy_ctx \<Rightarrow> host \<Rightarrow> deploy_mode \<Rightarrow> plan \<Rightarrow> 'w st \<Rightarrow> bool \<times> 'w st" where
  "Deploy c h mode p s =
     (let (up, s) = CheckSSHReachable (ctx_runner c) h s in
      if \<not> up then (False, s)
      else
        let (go, s) = (if CephHealthCheck h then CephBeforeDeploy (ctx_runner c) h s else (True, s)) in
        if \<not> go then (False, s)
        else
          let (ok, s) =
                (case mode of
                   ModeSafe \<Rightarrow> deploySafe c h p s
                 | ModeSwitch \<Rightarrow> deployUnsafe c h ''switch'' s
                 | ModeBoot \<Rightarrow> deployUnsafe c h ''boot'' s
                 | OtherMode m \<Rightarrow> (False, s)) in
          if CephHealthCheck h then
            let (ok, s) = (if ok then CephAfterDeploy (ctx_runner c) h s else (ok, s)) in
            (ok, if \<not> ok then appendWarning c (cephNooutLeftSet h) s else s)
          else (ok, s))"


section \<open>The calls of a deployment\<close>

definition pings :: "remote \<Rightarrow> bool" where
  "pings cmd = (case cmd of PingFrom v6 target \<Rightarrow> True | _ \<Rightarrow> False)"

text \<open>
  The calls that concern a host: commands on it, its own masters, and queries about it; the
  pings of the connectivity checks go to its address.
\<close>

fun concerns :: "host \<Rightarrow> call \<Rightarrow> bool" where
  "concerns h (SshCall v h' cmd) \<longleftrightarrow> h' = h \<or> h' = zero_host\<lparr>SSHAddress := FQDN h\<rparr> \<and> pings cmd"
| "concerns h (SshExitHost h') \<longleftrightarrow> h' = h \<or> h' = zero_host\<lparr>SSHAddress := FQDN h\<rparr>"
| "concerns h (NixosRebuild m h') \<longleftrightarrow> h' = h"
| "concerns h (KubectlGetNode n) \<longleftrightarrow> n = Name h"
| "concerns h (CurlPrintStats h') \<longleftrightarrow> h' = h"
| "concerns h (NixEval h') \<longleftrightarrow> h' = h"
| "concerns h (NixCopy h' path) \<longleftrightarrow> h' = h"
| "concerns h (PingLocal target v6) \<longleftrightarrow> True"
| "concerns h GetentHosts \<longleftrightarrow> True"
| "concerns h (SshExitSocket sock) \<longleftrightarrow> False"
| "concerns h (NixBuild drvs opts) \<longleftrightarrow> False"
| "concerns h (NixPathInfo path) \<longleftrightarrow> False"

definition reboot_calls :: "host \<Rightarrow> call \<Rightarrow> bool" where
  "reboot_calls h k \<longleftrightarrow>
     detect_call h k \<or> k = SshCall Muxed h RebootNow \<or> k = SshCall Direct h EchoOk"

lemma classes_concern:
  "ssh_calls h cmd k \<Longrightarrow> concerns h k" "detect_call h k \<Longrightarrow> concerns h k"
  "reboot_calls h k \<Longrightarrow> concerns h k" "k8s_calls h k \<Longrightarrow> concerns h k"
  "check_calls h k \<Longrightarrow> concerns h k" "ceph_calls h k \<Longrightarrow> concerns h k"
  by (auto simp: ssh_calls_def detect_call_def reboot_calls_def k8s_calls_def check_calls_def
      ceph_calls_def pings_def)

lemma appendWarning_from [extends_intros]:
  "extends Q s u \<Longrightarrow> extends Q s (appendWarning c msg u)"
  by (erule extends_trans) (simp add: appendWarning_def extends_def)

lemma ask_from [extends_intros]: "extends Q s u \<Longrightarrow> extends Q s (snd (ask p prompt u))"
  by (erule extends_trans) (simp add: ask_def extends_def split_beta)

lemma reboot_poll_from [extends_intros]:
  "extends Q s u \<Longrightarrow> Q (SshCall Direct h EchoOk) \<Longrightarrow> extends Q s (snd (reboot_poll c h d u))"
proof (induction c h d u rule: reboot_poll.induct)
  case (1 c h d u)
  obtain up v where v: "CheckSSHReachableDirect (ctx_runner c) h u = (up, v)" by force
  have sv: "extends Q s v"
    using reachable_direct.op_from [OF "1.prems"(1), of h "ctx_runner c"] "1.prems"(2) v by auto
  show ?case
  proof (cases "clock u < d \<and> \<not> up")
    case True
    moreover from this have "extends Q s (snd (reboot_poll c h d
        (time_sleep (os (ctx_runner c)) rebootWaitInterval v)))"
      using sv "1.prems"(2) v
      by (intro "1.IH") (auto simp: rebootWaitInterval_def intro: time_sleep_extends)
    ultimately show ?thesis using v by (subst reboot_poll.simps) auto
  next
    case False
    then show ?thesis using "1.prems"(1) sv v by (subst reboot_poll.simps) auto
  qed
qed

interpretation reboot_and_wait: traced_op "rebootAndWait c h" "reboot_calls h" for c h
  by unfold_locales (unfold rebootAndWait_def Let_def, intro extends_intros;
      simp add: reboot_calls_def detect_call_def rebootWaitInitial_def)

lemma applyReboot_from [extends_intros]:
  assumes "extends Q s u" and "\<And>k. reboot_calls h k \<Longrightarrow> Q k"
  shows "extends Q s (snd (applyReboot c h changed u))"
proof (cases "RebootDecide (RebootFlag c) changed")
  case RebootPromptUser
  obtain yes v where v: "(case Prompter c of None \<Rightarrow> (False, u)
      | Some p \<Rightarrow> ask p (''  Reboot '' @ Name h @ ''? [y/N]: '') u) = (yes, v)" by force
  then have "extends Q s v"
  proof (cases "Prompter c")
    case None
    then show ?thesis using v assms(1) by simp
  next
    case (Some p)
    then show ?thesis using v ask_from [OF assms(1)] by (metis option.simps(5) snd_conv)
  qed
  then show ?thesis
    using RebootPromptUser assms(2) reboot_and_wait.op_from [of Q s v h c]
    by (auto simp: applyReboot_def v intro: extends_intros)
qed (use assms in \<open>auto simp: applyReboot_def intro: extends_intros reboot_and_wait.op_from\<close>)

interpretation handle_reboot: traced_op "handleReboot c h" "reboot_calls h" for c h
proof unfold_locales
  fix s
  show "extends (reboot_calls h) s (snd (handleReboot c h s))"
    unfolding handleReboot_def Let_def
    by (intro extends_intros detect.op_from) (simp_all add: reboot_calls_def)
qed


section \<open>The ways a protected deployment ends\<close>

text \<open>What follows a persisted or an already current system.\<close>

definition post_checks :: "'w deploy_ctx \<Rightarrow> host \<Rightarrow> 'w st \<Rightarrow> bool \<times> 'w st" where
  "post_checks c h s =
     (let (back, s) = handleReboot c h s in
      if \<not> back then (False, s)
      else if K8sHealthCheck h then WaitForK8sReady (ctx_runner c) h s
      else (True, s))"

lemma post_checks_from [extends_intros]:
  "extends Q s u \<Longrightarrow> (\<And>k. reboot_calls h k \<or> k8s_calls h k \<Longrightarrow> Q k) \<Longrightarrow>
   extends Q s (snd (post_checks c h u))"
  unfolding post_checks_def Let_def
  by (intro extends_intros handle_reboot.op_from k8s_gate.op_from) auto

text \<open>The eight ways through \<open>deploySafe\<close>, each with the results of the stages it ran.\<close>

lemma deploySafe_cases:
  assumes "deploySafe c h p s = (ok, u)"
  obtains
    (Current) prior s1 where
      "alreadyDeployed c h (SystemPath p) s = ((True, prior), s1)"
      "post_checks c h s1 = (ok, u)"
  | (NotArmed) prior s1 unit s2 where
      "alreadyDeployed c h (SystemPath p) s = ((False, prior), s1)"
      "armWatchdog c h watchdogTimeout (cleanupStaleUnits c h s1) = ((unit, False), s2)"
      "\<not> ok" "u = disarmWatchdog c h unit s2"
  | (NotActivated) prior s1 unit s2 lost where
      "alreadyDeployed c h (SystemPath p) s = ((False, prior), s1)"
      "armWatchdog c h watchdogTimeout (cleanupStaleUnits c h s1) = ((unit, True), s2)"
      "activate c h (SystemPath p) ''test'' s2 = ((False, lost), u)"
      "\<not> ok"
  | (NotConnected) prior s1 unit s2 lost s3 where
      "alreadyDeployed c h (SystemPath p) s = ((False, prior), s1)"
      "armWatchdog c h watchdogTimeout (cleanupStaleUnits c h s1) = ((unit, True), s2)"
      "activate c h (SystemPath p) ''test'' s2 = ((True, lost), s3)"
      "VerifyConnectivity (ctx_runner c) h s3 = (False, u)"
      "\<not> ok"
  | (Mismatch) prior s1 unit s2 lost s3 s4 got s5 where
      "alreadyDeployed c h (SystemPath p) s = ((False, prior), s1)"
      "armWatchdog c h watchdogTimeout (cleanupStaleUnits c h s1) = ((unit, True), s2)"
      "activate c h (SystemPath p) ''test'' s2 = ((True, lost), s3)"
      "VerifyConnectivity (ctx_runner c) h s3 = (True, s4)"
      "verifyActivePath c h (SystemPath p) s4 = ((False, got), s5)"
      "\<not> ok"
      "u = (if got \<noteq> [] \<and> got = prior then disarmWatchdog c h unit s5 else s5)"
  | (NotPersisted) prior s1 unit s2 lost s3 s4 got s5 s6 where
      "alreadyDeployed c h (SystemPath p) s = ((False, prior), s1)"
      "armWatchdog c h watchdogTimeout (cleanupStaleUnits c h s1) = ((unit, True), s2)"
      "activate c h (SystemPath p) ''test'' s2 = ((True, lost), s3)"
      "VerifyConnectivity (ctx_runner c) h s3 = (True, s4)"
      "verifyActivePath c h (SystemPath p) s4 = ((True, got), s5)"
      "persistBoot c h (SystemPath p) (if lost then clearRebuildUnit c h s5 else s5) = (False, s6)"
      "\<not> ok" "u = disarmWatchdog c h unit s6"
  | (Persisted) prior s1 unit s2 lost s3 s4 got s5 s6 where
      "alreadyDeployed c h (SystemPath p) s = ((False, prior), s1)"
      "armWatchdog c h watchdogTimeout (cleanupStaleUnits c h s1) = ((unit, True), s2)"
      "activate c h (SystemPath p) ''test'' s2 = ((True, lost), s3)"
      "VerifyConnectivity (ctx_runner c) h s3 = (True, s4)"
      "verifyActivePath c h (SystemPath p) s4 = ((True, got), s5)"
      "persistBoot c h (SystemPath p) (if lost then clearRebuildUnit c h s5 else s5) = (True, s6)"
      "post_checks c h (disarmWatchdog c h unit s6) = (ok, u)"
proof -
  obtain cur prior s1 where already: "alreadyDeployed c h (SystemPath p) s = ((cur, prior), s1)"
    by (metis surj_pair)
  obtain unit armed s2 where
    arm: "armWatchdog c h watchdogTimeout (cleanupStaleUnits c h s1) = ((unit, armed), s2)"
    by (metis surj_pair)
  obtain act lost s3 where act: "activate c h (SystemPath p) ''test'' s2 = ((act, lost), s3)"
    by (metis surj_pair)
  obtain conn s4 where conn: "VerifyConnectivity (ctx_runner c) h s3 = (conn, s4)" by force
  obtain same got s5 where path: "verifyActivePath c h (SystemPath p) s4 = ((same, got), s5)"
    by (metis surj_pair)
  obtain kept s6 where
    persist: "persistBoot c h (SystemPath p) (if lost then clearRebuildUnit c h s5 else s5) = (kept, s6)"
    by force
  have body: "deploySafe c h p s =
    (if cur then post_checks c h s1
     else if \<not> armed then (False, disarmWatchdog c h unit s2)
     else if \<not> act then (False, s3)
     else if \<not> conn then (False, s4)
     else if \<not> same then
       (if got \<noteq> [] \<and> got = prior then (False, disarmWatchdog c h unit s5) else (False, s5))
     else if \<not> kept then (False, disarmWatchdog c h unit s6)
     else post_checks c h (disarmWatchdog c h unit s6))"
    unfolding deploySafe_def Let_def prod.case already arm act conn path persist post_checks_def
    by (auto split: prod.split)
  consider (a) "cur" | (b) "\<not> cur" "\<not> armed" | (c) "\<not> cur" "armed" "\<not> act"
    | (d) "\<not> cur" "armed" "act" "\<not> conn" | (e) "\<not> cur" "armed" "act" "conn" "\<not> same"
    | (f) "\<not> cur" "armed" "act" "conn" "same" "\<not> kept"
    | (g) "\<not> cur" "armed" "act" "conn" "same" "kept"
    by blast
  then show thesis
  proof cases
    case a
    then show ?thesis using Current already body assms by auto
  next
    case b
    then show ?thesis using NotArmed already arm body assms by auto
  next
    case c
    then show ?thesis using NotActivated already arm act body assms by auto
  next
    case d
    then show ?thesis using NotConnected already arm act conn body assms by auto
  next
    case e
    then show ?thesis using Mismatch already arm act conn path body assms by (auto split: if_splits)
  next
    case f
    then show ?thesis using NotPersisted already arm act conn path persist body assms by auto
  next
    case g
    then show ?thesis using Persisted already arm act conn path persist body assms by auto
  qed
qed


section \<open>The stages extend the run\<close>

lemma stop_from [extends_intros]:
  "extends Q s u \<Longrightarrow> Q (SshCall Muxed h (StopTimer unit)) \<Longrightarrow> Q (SshExitHost h) \<Longrightarrow>
   extends Q s (disarmWatchdog c h unit u)"
  unfolding disarmWatchdog_def by (intro extends_intros)

lemma cleanup_from [extends_intros]:
  "extends Q s u \<Longrightarrow> Q (SshCall Muxed h CleanupUnits) \<Longrightarrow> Q (SshExitHost h) \<Longrightarrow>
   extends Q s (cleanupStaleUnits c h u)"
  unfolding cleanupStaleUnits_def by (intro extends_intros)

lemma clear_from [extends_intros]:
  "extends Q s u \<Longrightarrow> Q (SshCall Muxed h ClearRebuildUnit) \<Longrightarrow> Q (SshExitHost h) \<Longrightarrow>
   extends Q s (clearRebuildUnit c h u)"
  unfolding clearRebuildUnit_def by (intro extends_intros)

lemma arm_from [extends_intros]:
  "extends Q s u \<Longrightarrow> (\<And>unit n. Q (SshCall Muxed h (ArmTimer unit n))) \<Longrightarrow>
   extends Q s (snd (armWatchdog c h t u))"
  unfolding armWatchdog_def Let_def by (intro extends_intros)

lemma activate_from [extends_intros]:
  "extends Q s u \<Longrightarrow> Q (SshCall Muxed h (SwitchTo path sub)) \<Longrightarrow> Q (SshExitHost h) \<Longrightarrow>
   Q (SshCall Direct h EchoOk) \<Longrightarrow> extends Q s (snd (activate c h path sub u))"
  unfolding activate_def Let_def by (intro extends_intros reachable_direct.op_from; simp)

lemma already_from [extends_intros]:
  "extends Q s u \<Longrightarrow> Q (SshCall Muxed h ReadActive) \<Longrightarrow> Q (SshCall Muxed h ReadProfile) \<Longrightarrow>
   Q (SshExitHost h) \<Longrightarrow> extends Q s (snd (alreadyDeployed c h path u))"
  unfolding alreadyDeployed_def by (intro extends_intros)

lemma verify_path_from [extends_intros]:
  "extends Q s u \<Longrightarrow> Q (SshCall Muxed h ReadActive) \<Longrightarrow> Q (SshExitHost h) \<Longrightarrow>
   extends Q s (snd (verifyActivePath c h path u))"
  unfolding verifyActivePath_def Let_def by (intro extends_intros)

lemma persist_from [extends_intros]:
  "extends Q s u \<Longrightarrow> Q (SshCall Muxed h (SetProfile path)) \<Longrightarrow>
   Q (SshCall Muxed h (SwitchTo path ''boot'')) \<Longrightarrow> Q (SshExitHost h) \<Longrightarrow>
   extends Q s (snd (persistBoot c h path u))"
  unfolding persistBoot_def Let_def by (intro extends_intros)

text \<open>The same rules for the equations that \<open>deploySafe_cases\<close> gives.\<close>

lemma snd_eqI: "m = (a, u) \<Longrightarrow> P (snd m) \<Longrightarrow> P u"
  by simp

interpretation deploy_safe: traced_op "deploySafe c h p" "concerns h" for c h p
proof unfold_locales
  fix s
  let ?E = "extends (concerns h)"
  obtain ok u where run: "deploySafe c h p s = (ok, u)" by force
  have read: "?E s v" if "alreadyDeployed c h path s = (x, v)" for x path v
    using that by (rule snd_eqI) (intro extends_intros; simp)
  have arm: "?E s w" if "?E s v" "armWatchdog c h t (cleanupStaleUnits c h v) = (x, w)" for v w t x
    using that(2) by (rule snd_eqI) (intro extends_intros that(1); simp)
  have act: "?E s w" if "?E s v" "activate c h path sub v = (x, w)" for v w path sub x
    using that(2) by (rule snd_eqI) (intro extends_intros that(1); simp)
  have conn: "?E s w" if "?E s v" "VerifyConnectivity (ctx_runner c) h v = (x, w)" for v w x
    using that(2) by (rule snd_eqI) (intro connectivity.op_from that(1) classes_concern)
  have path: "?E s w" if "?E s v" "verifyActivePath c h path v = (x, w)" for v w path x
    using that(2) by (rule snd_eqI) (intro extends_intros that(1); simp)
  have clear: "?E s (if b then clearRebuildUnit c h v else v)" if "?E s v" for v b
    by (intro extends_intros that; simp)
  have keep: "?E s w" if "?E s v" "persistBoot c h path v = (x, w)" for v w path x
    using that(2) by (rule snd_eqI) (intro extends_intros that(1); simp)
  have stop: "?E s (disarmWatchdog c h unit v)" if "?E s v" for v unit
    by (intro extends_intros that; simp)
  have checks: "?E s w" if "?E s v" "post_checks c h v = (x, w)" for v w x
    using that(2) by (rule snd_eqI) (intro extends_intros that(1); auto dest: classes_concern)
  from run have "?E s u"
  proof (cases rule: deploySafe_cases)
    case (Current prior s1)
    then show ?thesis using read checks by blast
  next
    case (NotArmed prior s1 unit s2)
    then show ?thesis using read arm stop by blast
  next
    case (NotActivated prior s1 unit s2 lost)
    then show ?thesis using read arm act by blast
  next
    case (NotConnected prior s1 unit s2 lost s3)
    then show ?thesis using read arm act conn by blast
  next
    case (Mismatch prior s1 unit s2 lost s3 s4 got s5)
    then have "?E s s5" using read arm act conn path by blast
    then show ?thesis using stop Mismatch(7) by simp
  next
    case (NotPersisted prior s1 unit s2 lost s3 s4 got s5 s6)
    then have "?E s s5" using read arm act conn path by blast
    then show ?thesis using clear keep stop NotPersisted(6,8) by blast
  next
    case (Persisted prior s1 unit s2 lost s3 s4 got s5 s6)
    then have "?E s s5" using read arm act conn path by blast
    then show ?thesis using clear keep stop checks Persisted(6,7) by blast
  qed
  then show "?E s (snd (deploySafe c h p s))" using run by simp
qed

interpretation deploy_unsafe: traced_op "deployUnsafe c h m" "concerns h" for c h m
  by unfold_locales
    (unfold deployUnsafe_def Let_def,
      intro extends_intros handle_reboot.op_from k8s_gate.op_from; auto intro: classes_concern)

interpretation deploy: traced_op "Deploy c h mode p" "concerns h" for c h mode p
proof unfold_locales
  fix s
  let ?E = "extends (concerns h)"
  obtain up s1 where up: "CheckSSHReachable (ctx_runner c) h s = (up, s1)" by force
  then have e1: "?E s s1"
    using reachable.op_to [OF up, of "concerns h"] classes_concern by blast
  obtain go s2 where go: "(if CephHealthCheck h then CephBeforeDeploy (ctx_runner c) h s1
      else (True, s1)) = (go, s2)" by force
  then have e2: "?E s s2"
    using ceph_before.op_from [OF e1, where r = "ctx_runner c" and h = h] classes_concern e1
    by (auto split: if_splits dest: arg_cong [of _ _ snd])
  obtain ok s3 where main: "(case mode of
       ModeSafe \<Rightarrow> deploySafe c h p s2 | ModeSwitch \<Rightarrow> deployUnsafe c h ''switch'' s2
     | ModeBoot \<Rightarrow> deployUnsafe c h ''boot'' s2 | OtherMode m \<Rightarrow> (False, s2)) = (ok, s3)"
    by force
  then have e3: "?E s s3"
    using deploy_safe.op_from [OF e2, where c = c and h = h and p = p]
      deploy_unsafe.op_from [OF e2, where c = c and h = h and m = "''switch''"]
      deploy_unsafe.op_from [OF e2, where c = c and h = h and m = "''boot''"] e2
    by (auto split: deploy_mode.splits dest: arg_cong [of _ _ snd])
  obtain fin s4 where after: "(if ok then CephAfterDeploy (ctx_runner c) h s3 else (ok, s3)) = (fin, s4)"
    by force
  then have e4: "?E s s4"
    using ceph_after.op_from [OF e3, where r = "ctx_runner c" and h = h] classes_concern e3
    by (auto split: if_splits dest: arg_cong [of _ _ snd])
  have e5: "?E s (if \<not> fin then appendWarning c (cephNooutLeftSet h) s4 else s4)"
    by (intro extends_intros e4)
  show "?E s (snd (Deploy c h mode p s))"
    unfolding Deploy_def Let_def prod.case up go main after using e1 e2 e3 e5 by simp
qed

section \<open>Facts for the properties\<close>

definition is_echo :: "host \<Rightarrow> call \<Rightarrow> bool" where
  "is_echo h k \<longleftrightarrow> k = SshCall Direct h EchoOk"

lemma CheckSSHReachableDirect_answer:
  assumes "CheckSSHReachableDirect r h s = (up, u)"
  shows "\<exists>res. trace u = trace s @ [Ran (SshCall Direct h EchoOk) res] \<and> up = sshEchoOK res"
proof -
  obtain res v where v: "SSHRunDirect r h EchoOk (15 * Second) s = (res, v)" by force
  then have "trace v = trace s @ [Ran (SshCall Direct h EchoOk) res]"
    by (metis SSHRunDirect_trace fst_conv snd_conv)
  moreover have "v = u" "up = sshEchoOK res"
    using v assms by (auto simp: CheckSSHReachableDirect_def)
  ultimately show ?thesis by blast
qed

lemma one_more_poll:
  fixes n i d s w :: int
  assumes "s + i \<le> w" "n * i < max 0 (d - w) + i" "s < d" "0 < i" "0 \<le> n"
  shows "(1 + n) * i < max 0 (d - s) + i"
proof (cases "w \<le> d")
  case True
  then show ?thesis using assms by (simp add: distrib_right)
next
  case False
  then have "n * i < 1 * i" using assms by simp
  then have "n = 0" using assms(4,5) by (simp add: mult_less_cancel_right)
  then show ?thesis using assms by simp
qed

text \<open>What may happen while waiting for a host that reboots.\<close>

fun waits :: "host \<Rightarrow> event \<Rightarrow> bool" where
  "waits h (Ran k res) \<longleftrightarrow> k = SshExitHost h \<or> k = SshCall Direct h EchoOk"
| "waits h (Slept d) \<longleftrightarrow> True"
| "waits h (Asked prompt yes) \<longleftrightarrow> False"
| "waits h (RemovedDir dir) \<longleftrightarrow> False"

text \<open>
  The polling loop: what is left of the time bounds the number of polls, only pauses and
  polls happen, a success is a poll that was answered and a failure is a passed deadline.
\<close>

lemma reboot_poll_events:
  assumes "reboot_poll c h d s = (ok, u)"
  shows "\<exists>es. trace u = trace s @ es \<and> list_all (waits h) es \<and>
    int (occurs (ran (is_echo h)) es) * rebootWaitInterval < max 0 (d - clock s) + rebootWaitInterval \<and>
    (if ok then \<exists>pre echo. es = pre @ [Ran (SshCall Direct h EchoOk) echo] \<and> sshEchoOK echo
     else d \<le> clock u) \<and> warnings u = warnings s"
  using assms
proof (induction c h d s arbitrary: ok u rule: reboot_poll.induct)
  case (1 c h d s)
  obtain up v where v: "CheckSSHReachableDirect (ctx_runner c) h s = (up, v)" by force
  obtain res where res: "trace v = trace s @ [Ran (SshCall Direct h EchoOk) res]" "up = sshEchoOK res"
    using CheckSSHReachableDirect_answer [OF v] by blast
  have wv: "warnings v = warnings s"
    using v by (auto simp: CheckSSHReachableDirect_def SSHRunDirect_def Let_def split_beta)
  have cv: "clock s \<le> clock v" using reachable_direct.op_clock [OF v] .
  show ?case
  proof (cases "clock s < d")
    case False
    then have "ok = False" "u = s" using "1.prems" by (auto simp: reboot_poll.simps [of c h d s])
    then show ?thesis using False by (auto simp: rebootWaitInterval_def intro!: exI [of _ "[]"])
  next
    case True
    show ?thesis
    proof (cases up)
      case up: True
      then have "ok" "u = v" using "1.prems" True v by (auto simp: reboot_poll.simps [of c h d s])
      then show ?thesis using res up wv True
        by (auto simp: rebootWaitInterval_def is_echo_def intro!: exI [of _ "[Ran (SshCall Direct h EchoOk) res]"])
    next
      case down: False
      let ?w = "time_sleep (os (ctx_runner c)) rebootWaitInterval v"
      have rest: "reboot_poll c h d ?w = (ok, u)"
        using "1.prems" True v down by (auto simp: reboot_poll.simps [of c h d s])
      from "1.IH" [OF True v [symmetric] refl down rest] obtain es where es:
        "trace u = trace ?w @ es" "list_all (waits h) es"
        "int (occurs (ran (is_echo h)) es) * rebootWaitInterval < max 0 (d - clock ?w) + rebootWaitInterval"
        "if ok then \<exists>pre echo. es = pre @ [Ran (SshCall Direct h EchoOk) echo] \<and> sshEchoOK echo
         else d \<le> clock u" "warnings u = warnings ?w"
        by blast
      let ?es = "[Ran (SshCall Direct h EchoOk) res, Slept rebootWaitInterval] @ es"
      have "clock s + rebootWaitInterval \<le> clock ?w"
        using cv time_sleep_clock [of v rebootWaitInterval "os (ctx_runner c)"] by linarith
      then have "(1 + int (occurs (ran (is_echo h)) es)) * rebootWaitInterval <
          max 0 (d - clock s) + rebootWaitInterval"
        using one_more_poll [OF _ es(3) True] by (simp add: rebootWaitInterval_def)
      then have "int (occurs (ran (is_echo h)) ?es) * rebootWaitInterval <
          max 0 (d - clock s) + rebootWaitInterval"
        by (simp add: is_echo_def)
      moreover have "if ok then \<exists>pre echo. ?es = pre @ [Ran (SshCall Direct h EchoOk) echo] \<and> sshEchoOK echo
         else d \<le> clock u"
        using es(4) by (auto split: if_splits)
      moreover have "trace u = trace s @ ?es" using es(1) res(1) by simp
      moreover have "list_all (waits h) ?es" using es(2) by (simp add: is_echo_def)
      moreover have "warnings u = warnings s" using es(5) wv by simp
      ultimately show ?thesis by blast
    qed
  qed
qed

lemma dropSSHMaster_events:
  "\<exists>es. trace (dropSSHMaster r h s) = trace s @ es \<and>
     (es = [] \<or> (\<exists>res. es = [Ran (SshExitHost h) res])) \<and>
     warnings (dropSSHMaster r h s) = warnings s \<and> clock s \<le> clock (dropSSHMaster r h s)"
  by (simp add: dropSSHMaster_def Drop_def Run_clock)

lemma rebootAndWait_events:
  assumes "rebootAndWait c h s = (ok, u)"
  shows "\<exists>res es. trace u = trace s @ Ran (SshCall Muxed h RebootNow) res # es \<and>
     list_all (waits h) es \<and> occurs (ran (is_echo h)) es \<le> 30 \<and>
     (if ok then \<exists>pre echo. es = pre @ [Ran (SshCall Direct h EchoOk) echo] \<and> sshEchoOK echo
      else clock s + 330 * Second \<le> clock u) \<and> warnings u = warnings s"
proof -
  let ?r = "ctx_runner c"
  obtain res s1 where once: "SSHRunOnce ?r h RebootNow (10 * Second) s = (res, s1)" by force
  have t1: "trace s1 = trace s @ [Ran (SshCall Muxed h RebootNow) res]"
    using SSHRunOnce_trace [of ?r h RebootNow "10 * Second" s] unfolding once by simp
  have w1: "warnings s1 = warnings s"
    by (metis Run_warnings SSHRunOnce_def once snd_conv)
  have c1: "clock s \<le> clock s1" using ssh_once.op_clock [OF once] .
  obtain ds where ds: "trace (dropSSHMaster ?r h s1) = trace s1 @ ds"
    "ds = [] \<or> (\<exists>res. ds = [Ran (SshExitHost h) res])"
    "warnings (dropSSHMaster ?r h s1) = warnings s1" "clock s1 \<le> clock (dropSSHMaster ?r h s1)"
    using dropSSHMaster_events by blast
  let ?s2 = "time_sleep (os ?r) rebootWaitInitial (dropSSHMaster ?r h s1)"
  have c2: "clock s + rebootWaitInitial \<le> clock ?s2"
    using c1 ds(4) time_sleep_clock [of "dropSSHMaster ?r h s1" rebootWaitInitial "os ?r"] by linarith
  obtain ok' u' where poll: "reboot_poll c h (clock ?s2 + rebootWaitMax) ?s2 = (ok', u')" by force
  have "rebootAndWait c h s = (ok', u')"
    unfolding rebootAndWait_def once Let_def prod.case poll ..
  with assms poll have poll: "reboot_poll c h (clock ?s2 + rebootWaitMax) ?s2 = (ok, u)" by simp
  from reboot_poll_events [OF poll] obtain es where es:
    "trace u = trace ?s2 @ es" "list_all (waits h) es"
    "int (occurs (ran (is_echo h)) es) * rebootWaitInterval <
       max 0 (clock ?s2 + rebootWaitMax - clock ?s2) + rebootWaitInterval"
    "if ok then \<exists>pre echo. es = pre @ [Ran (SshCall Direct h EchoOk) echo] \<and> sshEchoOK echo
     else clock ?s2 + rebootWaitMax \<le> clock u" "warnings u = warnings ?s2"
    by blast
  let ?es = "ds @ [Slept rebootWaitInitial] @ es"
  have "occurs (ran (is_echo h)) ?es \<le> 30"
    using es(3) ds(2) by (auto simp: rebootWaitInterval_def rebootWaitMax_def is_echo_def)
  moreover have "list_all (waits h) ?es" using ds(2) es(2) by auto
  moreover have "if ok then \<exists>pre echo. ?es = pre @ [Ran (SshCall Direct h EchoOk) echo] \<and> sshEchoOK echo
      else clock s + 330 * Second \<le> clock u"
    using es(4) c2 by (auto simp: rebootWaitInitial_def rebootWaitMax_def split: if_splits)
  moreover have "trace u = trace s @ Ran (SshCall Muxed h RebootNow) res # ?es"
    using t1 ds(1) es(1) by simp
  moreover have "warnings u = warnings s" using es(5) ds(3) w1 by simp
  ultimately show ?thesis by blast
qed

section \<open>Properties\<close>

text \<open>
  C20: rebooting a host and waiting for it. The reboot is sent exactly once and first; the
  host is then polled at most thirty times, each poll on a connection of its own; a success
  ends with a poll that was answered, and a failure is given only after the thirty seconds
  of the first wait and the five minutes of the deadline have passed.
\<close>

theorem rebootAndWait_bounded:
  "let (ok, s') = rebootAndWait c h s; new = since (trace s) (trace s') in
   (\<exists>res es. new = Ran (SshCall Muxed h RebootNow) res # es \<and> list_all (waits h) es \<and>
     occurs (ran (\<lambda>k. k = SshCall Direct h EchoOk)) es \<le> 30 \<and>
     (if ok then \<exists>pre echo. es = pre @ [Ran (SshCall Direct h EchoOk) echo] \<and> sshEchoOK echo
      else clock s + 330 * Second \<le> clock s'))"
proof -
  obtain ok u where run: "rebootAndWait c h s = (ok, u)" by force
  from rebootAndWait_events [OF run] obtain res es where
    "trace u = trace s @ Ran (SshCall Muxed h RebootNow) res # es"
    and "list_all (waits h) es \<and> occurs (ran (is_echo h)) es \<le> 30 \<and>
     (if ok then \<exists>pre echo. es = pre @ [Ran (SshCall Direct h EchoOk) echo] \<and> sshEchoOK echo
      else clock s + 330 * Second \<le> clock u)" by blast
  then show ?thesis
    unfolding run Let_def prod.case
    by (intro exI [of _ res] exI [of _ es]) (auto simp: is_echo_def [abs_def])
qed

text \<open>What a reboot that goes ahead leaves behind: the request, no question, no warning.\<close>

lemma rebootAndWait_sends:
  obtains es where "trace (snd (rebootAndWait c h t)) = trace t @ es"
    "\<exists>res. Ran (SshCall Muxed h RebootNow) res \<in> set es" "\<forall>prompt yes. Asked prompt yes \<notin> set es"
    "warnings (snd (rebootAndWait c h t)) = warnings t"
proof -
  obtain ok u where run: "rebootAndWait c h t = (ok, u)" by force
  from rebootAndWait_events [OF run] obtain res es where
    "trace u = trace t @ Ran (SshCall Muxed h RebootNow) res # es" "list_all (waits h) es"
    "warnings u = warnings t" by blast
  then show thesis
    by (intro that [of "Ran (SshCall Muxed h RebootNow) res # es"]) (auto simp: run list_all_iff)
qed

text \<open>
  C21: when a host is rebooted. The reboot is sent exactly when the flag says always, or a
  change is known and the flag is auto, or it is ask and the operator agreed (a run without
  a prompter never agrees, and nobody is asked in any other case). When it is not sent the
  step succeeds, and a reboot that is owed becomes a warning of the run.
\<close>

theorem applyReboot_decides:
  "let (ok, s') = applyReboot c h changed s;
       new = since (trace s) (trace s');
       sent = (\<exists>res. Ran (SshCall Muxed h RebootNow) res \<in> set new);
       asked = (\<exists>prompt yes. Asked prompt yes \<in> set new);
       agreed = (\<exists>prompt. Asked prompt True \<in> set new) in
   (sent \<longleftrightarrow> RebootFlag c = RebootFlagAlways \<or> changed \<and> RebootFlag c = RebootFlagAuto \<or>
      changed \<and> RebootFlag c = RebootFlagAsk \<and> agreed) \<and>
   (asked \<longleftrightarrow> changed \<and> RebootFlag c = RebootFlagAsk \<and> Prompter c \<noteq> None) \<and>
   (if sent then warnings s' = warnings s
    else ok \<and> (\<exists>why. warnings s' = warnings s @
      (if changed \<and> collects c then [Name h @ '' needs reboot ('' @ why] else [])))"
proof (cases "RebootDecide (RebootFlag c) changed")
  case RebootSkip
  then show ?thesis
    by (cases "RebootFlag c"; cases changed)
      (auto simp: applyReboot_def appendWarning_def split: if_splits)
next
  case RebootDo
  have eq: "applyReboot c h changed s = rebootAndWait c h s"
    using RebootDo by (simp add: applyReboot_def)
  from RebootDo have flag: "RebootFlag c = RebootFlagAlways \<or> changed \<and> RebootFlag c = RebootFlagAuto"
    "\<not> (changed \<and> RebootFlag c = RebootFlagAsk)"
    by (cases "RebootFlag c"; auto split: if_splits)+
  show ?thesis unfolding eq
    by (rule rebootAndWait_sends [of c h s]) (use flag in \<open>auto simp: split_beta Let_def\<close>)
next
  case RebootPromptUser
  then have flag: "RebootFlag c = RebootFlagAsk" "changed"
    by (cases "RebootFlag c"; auto split: if_splits)+
  show ?thesis
  proof (cases "Prompter c")
    case None
    then show ?thesis using flag by (auto simp: applyReboot_def appendWarning_def)
  next
    case (Some p)
    let ?prompt = "''  Reboot '' @ Name h @ ''? [y/N]: ''"
    obtain yes w where ask: "p ?prompt (world s) = (yes, w)" by force
    let ?u = "s\<lparr>world := w, trace := trace s @ [Asked ?prompt yes]\<rparr>"
    have eq: "applyReboot c h changed s = (if yes then rebootAndWait c h ?u
        else (True, appendWarning c (Name h @ '' needs reboot (user declined)'') ?u))"
      using RebootPromptUser Some ask by (simp add: applyReboot_def ask_def)
    show ?thesis
    proof (cases yes)
      case True
      show ?thesis unfolding eq
        by (rule rebootAndWait_sends [of c h ?u]) (use True flag Some in \<open>auto simp: split_beta Let_def\<close>)
    next
      case False
      then show ?thesis unfolding eq using flag Some by (auto simp: appendWarning_def)
    qed
  qed
qed

text \<open>
  A deployment only touches its own host. Every command it runs over ssh goes to the
  host (the pings of the connectivity checks, to its address), and every other call is a
  query about it or a rebuild of it; the warnings of the run so far are kept.
\<close>

theorem Deploy_concerns_its_host:
  "let (ok, s') = Deploy c h mode p s in
   trace s' = trace s @ since (trace s) (trace s') \<and>
   list_all (runs (concerns h)) (since (trace s) (trace s')) \<and>
   clock s \<le> clock s' \<and> prefix (warnings s) (warnings s')"
proof -
  have "extends (concerns h) s (snd (Deploy c h mode p s))" by (rule deploy.op_extends)
  then show ?thesis by (auto simp: extends_def prefix_def split_beta Let_def)
qed

text \<open>
  C22: noout is never left behind in silence. On a host with the Ceph gate, once the gate has
  opened (and so has set noout), a deployment that succeeds ended by clearing it, and one
  that fails, wherever and in whatever mode, ends the warnings of the run with the reminder
  that noout is still set; a gate that stays shut means failure.
\<close>

theorem Deploy_noout_never_silent:
  assumes "CephHealthCheck h" and "collects c"
  shows "let (ok, s') = Deploy c h mode p s;
      (up, s1) = CheckSSHReachable (ctx_runner c) h s;
      (go, s2) = CephBeforeDeploy (ctx_runner c) h s1
    in if \<not> up \<or> \<not> go then \<not> ok
       else if ok then \<exists>es res. \<not> Failed res \<and>
         trace s' = trace s2 @ es @ [Ran (SshCall Muxed h (CephUnsetNoout (Name h))) res]
       else \<exists>ws. warnings s' = ws @ [cephNooutLeftSet h]"
proof -
  obtain up s1 where up: "CheckSSHReachable (ctx_runner c) h s = (up, s1)" by force
  obtain go s2 where go: "CephBeforeDeploy (ctx_runner c) h s1 = (go, s2)" by force
  define body where "body = (case mode of
      ModeSafe \<Rightarrow> deploySafe c h p s2
    | ModeSwitch \<Rightarrow> deployUnsafe c h ''switch'' s2
    | ModeBoot \<Rightarrow> deployUnsafe c h ''boot'' s2
    | OtherMode m \<Rightarrow> (False, s2))"
  obtain ok1 s3 where b: "body = (ok1, s3)" by force
  have s3: "extends (concerns h) s2 s3"
  proof -
    have "extends (concerns h) s2 (snd body)"
      unfolding body_def by (cases mode) (simp_all add: deploy_safe.op_extends deploy_unsafe.op_extends)
    then show ?thesis by (simp add: b)
  qed
  obtain ok2 s4 where after: "(if ok1 then CephAfterDeploy (ctx_runner c) h s3 else (ok1, s3)) = (ok2, s4)"
    by force
  have eq: "Deploy c h mode p s = (if \<not> up then (False, s1) else if \<not> go then (False, s2)
      else (ok2, if \<not> ok2 then appendWarning c (cephNooutLeftSet h) s4 else s4))"
    using up go after assms(1) by (simp add: Deploy_def b [unfolded body_def])
  have "\<exists>es res. \<not> Failed res \<and>
      trace s4 = trace s2 @ es @ [Ran (SshCall Muxed h (CephUnsetNoout (Name h))) res]" if "ok2"
  proof -
    from that after have "CephAfterDeploy (ctx_runner c) h s3 = (True, s4)" by (cases ok1) auto
    from CephAfterDeploy_clears [OF this] obtain es res where
      "trace s4 = trace s3 @ es @ [Ran (SshCall Muxed h (CephUnsetNoout (Name h))) res]" "\<not> Failed res"
      by blast
    with extends_since [OF s3] show ?thesis by (metis append_assoc)
  qed
  then show ?thesis
    using up go eq assms(2) by (auto simp: appendWarning_def)
qed

theorem Deploy_noout_never_silent_witness:
  "\<not> fst (Deploy \<lparr>ctx_runner = fake_runner None [], Prompter = None, RebootFlag = RebootFlagNever, collects = True\<rparr>
     (zero_host\<lparr>CephHealthCheck := True\<rparr>) ModeSafe \<lparr>SystemPath = ''/x'', DrvPath = ''/x.drv'', UpToDate = False\<rparr> fresh)"
proof -
  let ?c = "\<lparr>ctx_runner = fake_runner None [], Prompter = None, RebootFlag = RebootFlagNever, collects = True\<rparr>"
  let ?h = "zero_host\<lparr>CephHealthCheck := True\<rparr>"
  have down: "\<not> fst (CheckSSHReachable (fake_runner None []) ?h fresh)" by code_simp
  have "CephHealthCheck ?h" "collects ?c" by simp_all
  from Deploy_noout_never_silent [OF this, of ModeSafe "\<lparr>SystemPath = ''/x'', DrvPath = ''/x.drv'', UpToDate = False\<rparr>" fresh]
  show ?thesis using down by (simp add: Let_def split_beta)
qed

end
