(* ===== verification/Watchdog.thy ===== *)
theory Watchdog
  imports Deploy
begin

text \<open>
  What the commands of a deployment do to the host, and that \<open>deploySafe\<close> keeps the host
  recoverable at every moment: the contract the watchdog exists for. A \<open>target\<close> is what
  matters of a host: the system it runs, its boot default, its system profile and the armed
  reboot timers. \<open>outcome\<close> and \<open>effect\<close> say what one event may do to it, following the
  documented behaviour of systemd and of NixOS; a command that failed may or may not have
  taken effect. \<open>evolves\<close> runs a target along a trace, and lets an armed timer fire at any
  point, except between the arming call and the call that follows it (see
  \<open>activation_beats_the_timer\<close>, which is why). \<open>track\<close> is the protocol the trace has to
  keep, and the bridge between the code and the target.
\<close>

section \<open>The host\<close>

record target =
  live :: string
  boot_default :: string
  profile_path :: string
  timers :: "string set"

definition rebooted :: "target \<Rightarrow> target" where
  "rebooted t = t\<lparr>live := boot_default t, timers := {}\<rparr>"

lemma rebooted_simps [simp]:
  "live (rebooted t) = boot_default t" "boot_default (rebooted t) = boot_default t"
  "profile_path (rebooted t) = profile_path t" "timers (rebooted t) = {}"
  by (simp_all add: rebooted_def)

text \<open>
  Reading a link prints where it points, or nothing; a write happens, or has failed; a
  reboot that was asked for may or may not happen, whatever the answer was.
\<close>

fun outcome :: "remote \<Rightarrow> run_result \<Rightarrow> target \<Rightarrow> target \<Rightarrow> bool" where
  "outcome ReadActive res t t' \<longleftrightarrow> t' = t \<and> TrimSpace (Stdout res) \<in> {[], live t}"
| "outcome ReadProfile res t t' \<longleftrightarrow> t' = t \<and> TrimSpace (Stdout res) \<in> {[], profile_path t}"
| "outcome (ArmTimer unit secs) res t t' \<longleftrightarrow>
     t' = t\<lparr>timers := insert unit (timers t)\<rparr> \<or> Failed res \<and> t' = t"
| "outcome (StopTimer unit) res t t' \<longleftrightarrow>
     t' = t\<lparr>timers := timers t - {unit}\<rparr> \<or> Failed res \<and> t' = t"
| "outcome CleanupUnits res t t' \<longleftrightarrow> t' = t\<lparr>timers := {}\<rparr> \<or> Failed res \<and> t' = t"
| "outcome (SwitchTo path sub) res t t' \<longleftrightarrow>
     t' = (if sub = ''test'' then t\<lparr>live := path\<rparr>
           else if sub = ''boot'' then t\<lparr>boot_default := path\<rparr>
           else t\<lparr>live := path, boot_default := path\<rparr>) \<or> Failed res \<and> t' = t"
| "outcome (SetProfile path) res t t' \<longleftrightarrow> t' = t\<lparr>profile_path := path\<rparr> \<or> Failed res \<and> t' = t"
| "outcome RebootNow res t t' \<longleftrightarrow> t' = rebooted t \<or> t' = t"
| "outcome _ res t t' \<longleftrightarrow> t' = t"

text \<open>A rebuild of the host may do anything to it; no other call touches it.\<close>

fun effect :: "host \<Rightarrow> event \<Rightarrow> target \<Rightarrow> target \<Rightarrow> bool" where
  "effect h (Ran (SshCall v h' cmd) res) t t' \<longleftrightarrow> (if h' = h then outcome cmd res t t' else t' = t)"
| "effect h (Ran (NixosRebuild m h') res) t t' \<longleftrightarrow> h' = h \<or> t' = t"
| "effect h _ t t' \<longleftrightarrow> t' = t"

fun arms :: "event \<Rightarrow> bool" where
  "arms (Ran (SshCall v h (ArmTimer unit secs)) res) \<longleftrightarrow> True"
| "arms _ \<longleftrightarrow> False"

definition just_armed :: "event list \<Rightarrow> bool" where
  "just_armed es \<longleftrightarrow> es \<noteq> [] \<and> arms (last es)"

inductive evolves :: "host \<Rightarrow> target \<Rightarrow> event list \<Rightarrow> target \<Rightarrow> bool" for h t0 where
  start: "evolves h t0 [] t0"
| does: "evolves h t0 es t \<Longrightarrow> effect h e t t' \<Longrightarrow> evolves h t0 (es @ [e]) t'"
| fires: "evolves h t0 es t \<Longrightarrow> timers t \<noteq> {} \<Longrightarrow> \<not> just_armed es \<Longrightarrow> evolves h t0 es (rebooted t)"

inductive_cases evolves_NilE: "evolves h t0 [] t"

section \<open>The protocol\<close>

text \<open>
  The stretch of events that shows the activated system can be trusted: after the
  activation, every connectivity check of the host has passed with no pause in between.
\<close>

definition connected :: "host \<Rightarrow> string \<Rightarrow> event list \<Rightarrow> bool" where
  "connected h path es \<longleftrightarrow>
     (\<exists>a v res b stretch c. es = a @ Ran (SshCall v h (SwitchTo path ''test'')) res # b @ stretch @ c \<and>
        occurs is_pause stretch = 0 \<and>
        (\<forall>check \<in> set (ConnChecks h). \<exists>e \<in> set stretch. check_passed h check e))"

text \<open>After that, the host was seen running the path.\<close>

definition verified :: "host \<Rightarrow> string \<Rightarrow> event list \<Rightarrow> bool" where
  "verified h path es \<longleftrightarrow>
     (\<exists>a v res b. es = a @ Ran (SshCall v h ReadActive) res # b \<and> connected h path a \<and>
        TrimSpace (Stdout res) = path)"

text \<open>
  The phases of a protected deployment: nothing activated; a timer armed by the last event;
  a system on trial; a system verified.
\<close>

datatype phase = Untouched | JustArmed | Trial | Kept

fun calm :: "phase \<Rightarrow> phase" where
  "calm JustArmed = Untouched"
| "calm ph = ph"

fun on_remote :: "host \<Rightarrow> string \<Rightarrow> event list \<Rightarrow> phase \<Rightarrow> remote \<Rightarrow> run_result \<Rightarrow> phase option" where
  "on_remote h path pre ph ReadActive res =
     (if TrimSpace (Stdout res) = path \<and> path \<noteq> [] \<and> connected h path pre then Some Kept
      else if ph = Trial \<and> TrimSpace (Stdout res) \<notin> {[], path} then Some Untouched
      else Some (calm ph))"
| "on_remote h path pre ph (ArmTimer unit secs) res =
     (if ph = Trial \<or> ph = Kept then None
      else Some (if Failed res then Untouched else JustArmed))"
| "on_remote h path pre ph (StopTimer unit) res = (if ph = Trial then None else Some (calm ph))"
| "on_remote h path pre ph CleanupUnits res = (if ph = Trial then None else Some (calm ph))"
| "on_remote h path pre ph RebootNow res = (if ph = Trial then None else Some (calm ph))"
| "on_remote h path pre ph (SwitchTo p sub) res =
     (if p \<noteq> path then None
      else if sub = ''test'' then (if ph = JustArmed then Some Trial else None)
      else if sub = ''boot'' then (if ph = Kept then Some Kept else None)
      else None)"
| "on_remote h path pre ph (SetProfile p) res =
     (if p = path \<and> ph = Kept then Some Kept else None)"
| "on_remote h path pre ph _ res = Some (calm ph)"

fun advance :: "host \<Rightarrow> string \<Rightarrow> event list \<Rightarrow> phase \<Rightarrow> event \<Rightarrow> phase option" where
  "advance h path pre ph (Ran (SshCall v h' cmd) res) =
     (if h' = h then on_remote h path pre ph cmd res else Some (calm ph))"
| "advance h path pre ph (Ran (NixosRebuild m h') res) = (if h' = h then None else Some (calm ph))"
| "advance h path pre ph _ = Some (calm ph)"

fun track :: "host \<Rightarrow> string \<Rightarrow> event list \<Rightarrow> phase \<Rightarrow> event list \<Rightarrow> phase option" where
  "track h path pre ph [] = Some ph"
| "track h path pre ph (e # es) =
     (case advance h path pre ph e of
        None \<Rightarrow> None
      | Some ph' \<Rightarrow> track h path (pre @ [e]) ph' es)"

lemma track_append:
  "track h path pre ph (a @ b) =
     (case track h path pre ph a of None \<Rightarrow> None | Some ph' \<Rightarrow> track h path (pre @ a) ph' b)"
  by (induction h path pre ph a rule: track.induct) (auto split: option.split)

lemma track_snoc:
  "track h path [] ph (es @ [e]) =
     (case track h path [] ph es of None \<Rightarrow> None | Some ph' \<Rightarrow> advance h path es ph' e)"
  by (simp add: track_append split: option.split)

section \<open>The protocol keeps the host recoverable\<close>

fun phase_inv :: "target \<Rightarrow> string \<Rightarrow> phase \<Rightarrow> target \<Rightarrow> bool" where
  "phase_inv t0 path Untouched t \<longleftrightarrow>
     boot_default t = boot_default t0 \<and> live t \<in> {live t0, boot_default t0}"
| "phase_inv t0 path JustArmed t \<longleftrightarrow>
     boot_default t = boot_default t0 \<and> live t \<in> {live t0, boot_default t0} \<and> timers t \<noteq> {}"
| "phase_inv t0 path Trial t \<longleftrightarrow> boot_default t = boot_default t0 \<and>
     (live t \<in> {live t0, boot_default t0} \<or> live t = path \<and> timers t \<noteq> {})"
| "phase_inv t0 path Kept t \<longleftrightarrow>
     boot_default t \<in> {boot_default t0, path} \<and> live t \<in> {live t0, boot_default t0, path}"

lemma connected_append: "connected h path a \<Longrightarrow> connected h path (a @ b)"
proof -
  assume "connected h path a"
  then obtain x v res y st z where a: "a = x @ Ran (SshCall v h (SwitchTo path ''test'')) res # y @ st @ z"
    and ok: "occurs is_pause st = 0" "\<forall>c \<in> set (ConnChecks h). \<exists>e \<in> set st. check_passed h c e"
    unfolding connected_def by blast
  have "a @ b = x @ Ran (SshCall v h (SwitchTo path ''test'')) res # y @ st @ (z @ b)"
    using a by simp
  with ok show "connected h path (a @ b)" unfolding connected_def by blast
qed

lemma verified_append: "verified h path a \<Longrightarrow> verified h path (a @ b)"
  unfolding verified_def by (metis append_Cons append_assoc)

lemma calm_not_armed [simp]: "calm ph \<noteq> JustArmed" "calm ph = Kept \<longleftrightarrow> ph = Kept"
  by (cases ph; simp)+

lemma advance_armed: "advance h path pre ph e = Some JustArmed \<Longrightarrow> arms e"
proof (induction h path pre ph e rule: advance.induct)
  case (1 h path pre ph v h' cmd res)
  then show ?case by (cases cmd) (auto split: if_splits)
qed (auto split: if_splits)

lemma track_armed: "track h path [] Untouched es = Some JustArmed \<Longrightarrow> just_armed es"
  by (cases es rule: rev_cases)
    (auto simp: track_snoc just_armed_def split: option.splits dest: advance_armed)

lemma advance_kept:
  assumes "advance h path es ph e = Some Kept"
  shows "ph = Kept \<or> verified h path (es @ [e])"
proof -
  have read: "verified h path (es @ [Ran (SshCall v h ReadActive) res])"
    if "TrimSpace (Stdout res) = path" "connected h path es" for v res
    using that unfolding verified_def by blast
  show ?thesis using assms
  proof (induction h path es ph e rule: advance.induct)
    case (1 h path pre ph v h' cmd res)
    then show ?case
      by (cases cmd) (auto simp: verified_def split: if_splits)
  qed (auto split: if_splits)
qed

lemma track_kept: "track h path [] Untouched es = Some Kept \<Longrightarrow> verified h path es"
proof (induction es rule: rev_induct)
  case (snoc e es)
  then show ?case
    by (auto simp: track_snoc split: option.splits dest!: advance_kept intro: verified_append)
qed simp

lemma phase_inv_calm: "phase_inv t0 path ph t \<Longrightarrow> phase_inv t0 path (calm ph) t"
  by (cases ph) auto

lemma advance_keeps_inv:
  assumes "advance h path pre ph e = Some ph'" and "effect h e t t'" and "phase_inv t0 path ph t"
  shows "phase_inv t0 path ph' t'"
proof (cases e)
  case (Ran k res)
  show ?thesis
  proof (cases k)
    case (SshCall v h' cmd)
    show ?thesis
    proof (cases "h' = h")
      case True
      then show ?thesis using assms Ran SshCall
        by (cases cmd; cases ph) (auto split: if_splits)
    next
      case False
      then show ?thesis using assms Ran SshCall by (auto intro: phase_inv_calm)
    qed
  qed (use assms Ran in \<open>auto split: if_splits intro: phase_inv_calm\<close>)
qed (use assms in \<open>auto intro: phase_inv_calm\<close>)

text \<open>The protocol is sound for every host that behaves as \<open>evolves\<close> says.\<close>

lemma track_sound:
  "evolves h t0 es t \<Longrightarrow> track h path [] Untouched es = Some ph \<Longrightarrow> phase_inv t0 path ph t"
proof (induction arbitrary: ph rule: evolves.induct)
  case start
  then show ?case by simp
next
  case (does es t e t')
  then obtain ph0 where "track h path [] Untouched es = Some ph0" "advance h path es ph0 e = Some ph"
    by (auto simp: track_snoc split: option.splits)
  then show ?case using does by (metis advance_keeps_inv)
next
  case (fires es t)
  then have "phase_inv t0 path ph t" by blast
  moreover have "ph \<noteq> JustArmed" using fires track_armed by blast
  ultimately show ?case by (cases ph) auto
qed

lemma track_prefix: "track h path [] ph (a @ b) \<noteq> None \<Longrightarrow> track h path [] ph a \<noteq> None"
  by (auto simp: track_append split: option.splits)


section \<open>Which calls leave which phase alone\<close>

fun gentle_remote :: "remote \<Rightarrow> bool" where
  "gentle_remote (ArmTimer unit secs) \<longleftrightarrow> False"
| "gentle_remote (StopTimer unit) \<longleftrightarrow> False"
| "gentle_remote CleanupUnits \<longleftrightarrow> False"
| "gentle_remote RebootNow \<longleftrightarrow> False"
| "gentle_remote (SwitchTo p sub) \<longleftrightarrow> False"
| "gentle_remote (SetProfile p) \<longleftrightarrow> False"
| "gentle_remote ReadActive \<longleftrightarrow> False"
| "gentle_remote _ \<longleftrightarrow> True"

fun gentle :: "call \<Rightarrow> bool" where
  "gentle (SshCall v h cmd) \<longleftrightarrow> gentle_remote cmd"
| "gentle (NixosRebuild m h) \<longleftrightarrow> False"
| "gentle _ \<longleftrightarrow> True"

fun idle :: "call \<Rightarrow> bool" where
  "idle (SshCall v h (StopTimer unit)) \<longleftrightarrow> True"
| "idle (SshCall v h CleanupUnits) \<longleftrightarrow> True"
| "idle (SshCall v h RebootNow) \<longleftrightarrow> True"
| "idle (SshCall v h ReadActive) \<longleftrightarrow> True"
| "idle k \<longleftrightarrow> gentle k"

fun keeping :: "string \<Rightarrow> call \<Rightarrow> bool" where
  "keeping path (SshCall v h (SetProfile p)) \<longleftrightarrow> p = path"
| "keeping path (SshCall v h (SwitchTo p sub)) \<longleftrightarrow> p = path \<and> sub = ''boot''"
| "keeping path k \<longleftrightarrow> idle k"

lemma gentle_idle: "gentle k \<Longrightarrow> idle k"
  by (induction k rule: idle.induct) auto

lemma idle_keeping: "idle k \<Longrightarrow> keeping path k"
  by (induction path k rule: keeping.induct) auto

lemma gentle_classes [quiet_simps]:
  "detect_call h k \<Longrightarrow> gentle k" "k8s_calls h k \<Longrightarrow> gentle k"
  "check_calls h k \<Longrightarrow> gentle k" "ceph_calls h k \<Longrightarrow> gentle k"
  by (auto simp: detect_call_def k8s_calls_def check_calls_def ceph_calls_def)

lemma idle_classes [quiet_simps]: "reboot_calls h k \<Longrightarrow> idle k" "ssh_calls h ReadActive k \<Longrightarrow> idle k"
  by (auto simp: reboot_calls_def ssh_calls_def intro: gentle_idle gentle_classes)

text \<open>The activation of a path, as an event.\<close>

definition tries :: "event \<Rightarrow> bool" where
  "tries e \<longleftrightarrow> (\<exists>v h path sub res. e = Ran (SshCall v h (SwitchTo path sub)) res)"

lemma not_connected: "list_all (\<lambda>e. \<not> tries e) es \<Longrightarrow> \<not> connected h path es"
  by (auto simp: connected_def tries_def)

lemma idle_untried: "runs idle e \<Longrightarrow> \<not> tries e"
  by (auto simp: tries_def)

lemma advance_gentle: "runs gentle e \<Longrightarrow> advance h path pre ph e = Some (calm ph)"
proof (cases e)
  case (Ran k res)
  assume "runs gentle e"
  with Ran show ?thesis
  proof (cases k)
    case (SshCall v h' cmd)
    with Ran \<open>runs gentle e\<close> show ?thesis by (cases cmd) auto
  qed auto
qed auto

lemma track_gentle:
  "list_all (runs gentle) es \<Longrightarrow> ph \<noteq> JustArmed \<Longrightarrow> track h path pre ph es = Some ph"
proof (induction es arbitrary: pre)
  case (Cons e es)
  then have "calm ph = ph" by (cases ph) auto
  with Cons show ?case by (simp add: advance_gentle)
qed simp

lemma advance_keeping: "runs (keeping path) e \<Longrightarrow> advance h path pre Kept e = Some Kept"
proof (cases e)
  case (Ran k res)
  assume "runs (keeping path) e"
  with Ran show ?thesis
  proof (cases k)
    case (SshCall v h' cmd)
    with Ran \<open>runs (keeping path) e\<close> show ?thesis by (cases cmd) auto
  qed auto
qed auto

lemma track_keeping: "list_all (runs (keeping path)) es \<Longrightarrow> track h path pre Kept es = Some Kept"
  by (induction es arbitrary: pre) (auto simp: advance_keeping)

lemma advance_idle:
  "runs idle e \<Longrightarrow> list_all (\<lambda>e. \<not> tries e) pre \<Longrightarrow> advance h path pre Untouched e = Some Untouched"
proof (cases e)
  case (Ran k res)
  assume *: "runs idle e" "list_all (\<lambda>e. \<not> tries e) pre"
  then have "\<not> connected h path pre" by (simp add: not_connected)
  with * Ran show ?thesis
  proof (cases k)
    case (SshCall v h' cmd)
    with * Ran \<open>\<not> connected h path pre\<close> show ?thesis by (cases cmd) auto
  qed auto
qed auto

lemma track_idle:
  "list_all (runs idle) es \<Longrightarrow> list_all (\<lambda>e. \<not> tries e) pre \<Longrightarrow>
   track h path pre Untouched es = Some Untouched"
  by (induction es arbitrary: pre) (auto simp: advance_idle idle_untried)

text \<open>Reading the active path moves between the phases in which a system is on trial.\<close>

lemma advance_read:
  "runs (ssh_calls h ReadActive) e \<Longrightarrow> ph \<noteq> JustArmed \<Longrightarrow>
   \<exists>ph'. advance h path pre ph e = Some ph' \<and> ph' \<noteq> JustArmed"
  by (cases e; cases ph) (auto simp: ssh_calls_def)

lemma track_reads:
  "list_all (runs (ssh_calls h ReadActive)) es \<Longrightarrow> ph \<noteq> JustArmed \<Longrightarrow>
   \<exists>ph'. track h path pre ph es = Some ph' \<and> ph' \<noteq> JustArmed"
proof (induction es arbitrary: pre ph)
  case (Cons e es)
  then obtain ph' where "advance h path pre ph e = Some ph'" "ph' \<noteq> JustArmed"
    using advance_read [of h e ph path pre] by auto
  with Cons show ?case by simp
qed simp


section \<open>The stages keep the protocol\<close>

text \<open>The phase a run of the flow is in, since the state it began in.\<close>

definition in_phase :: "host \<Rightarrow> string \<Rightarrow> 'w st \<Rightarrow> 'w st \<Rightarrow> phase \<Rightarrow> bool" where
  "in_phase h path s0 s ph \<longleftrightarrow>
     (\<exists>es. trace s = trace s0 @ es \<and> track h path [] Untouched es = Some ph)"

definition untried :: "host \<Rightarrow> string \<Rightarrow> 'w st \<Rightarrow> 'w st \<Rightarrow> bool" where
  "untried h path s0 s \<longleftrightarrow>
     (\<exists>es. trace s = trace s0 @ es \<and> track h path [] Untouched es = Some Untouched \<and>
        list_all (\<lambda>e. \<not> tries e) es)"

definition on_trial :: "host \<Rightarrow> string \<Rightarrow> 'w st \<Rightarrow> 'w st \<Rightarrow> bool" where
  "on_trial h path s0 s \<longleftrightarrow>
     (\<exists>a v res b. trace s = trace s0 @ a @ Ran (SshCall v h (SwitchTo path ''test'')) res # b \<and>
        track h path [] Untouched (a @ Ran (SshCall v h (SwitchTo path ''test'')) res # b) = Some Trial)"

definition trusted :: "host \<Rightarrow> string \<Rightarrow> 'w st \<Rightarrow> 'w st \<Rightarrow> bool" where
  "trusted h path s0 s \<longleftrightarrow>
     (\<exists>es. trace s = trace s0 @ es \<and> track h path [] Untouched es = Some Trial \<and>
        connected h path es)"

lemma untried_start [simp]: "untried h path s s"
  by (simp add: untried_def)

lemma untried_in_phase: "untried h path s0 s \<Longrightarrow> in_phase h path s0 s Untouched"
  by (auto simp: untried_def in_phase_def)

lemma on_trial_in_phase: "on_trial h path s0 s \<Longrightarrow> in_phase h path s0 s Trial"
  by (auto simp: on_trial_def in_phase_def)

lemma trusted_in_phase: "trusted h path s0 s \<Longrightarrow> in_phase h path s0 s Trial"
  by (auto simp: trusted_def in_phase_def)

lemma untried_idle:
  assumes "untried h path s0 s" and "extends Q s u" and "\<And>k. Q k \<Longrightarrow> idle k"
  shows "untried h path s0 u"
proof -
  let ?fs = "since (trace s) (trace u)"
  from assms(1) obtain es where es: "trace s = trace s0 @ es"
    "track h path [] Untouched es = Some Untouched" "list_all (\<lambda>e. \<not> tries e) es"
    unfolding untried_def by blast
  have "extends idle s u" using assms(2,3) by (rule extends_mono)
  then have fs: "list_all (runs idle) ?fs" by (simp add: extends_def)
  then have "track h path [] Untouched (es @ ?fs) = Some Untouched"
    using es by (simp add: track_append track_idle)
  moreover have "list_all (\<lambda>e. \<not> tries e) ?fs"
    using fs by (auto simp: list_all_iff idle_untried)
  moreover have "trace u = trace s0 @ es @ ?fs" using extends_since [OF assms(2)] es(1) by simp
  ultimately show ?thesis using es(3) unfolding untried_def by (metis list_all_append)
qed

lemma on_trial_gentle:
  assumes "on_trial h path s0 s" and "extends Q s u" and "\<And>k. Q k \<Longrightarrow> gentle k"
  shows "on_trial h path s0 u"
proof -
  let ?fs = "since (trace s) (trace u)"
  from assms(1) obtain a v res b where
    es: "trace s = trace s0 @ a @ Ran (SshCall v h (SwitchTo path ''test'')) res # b"
    "track h path [] Untouched (a @ Ran (SshCall v h (SwitchTo path ''test'')) res # b) = Some Trial"
    unfolding on_trial_def by blast
  have "extends gentle s u" using assms(2,3) by (rule extends_mono)
  then have "list_all (runs gentle) ?fs" by (simp add: extends_def)
  then have "track h path [] Untouched
      ((a @ Ran (SshCall v h (SwitchTo path ''test'')) res # b) @ ?fs) = Some Trial"
    using es(2) track_append [of h path "[]" Untouched
        "a @ Ran (SshCall v h (SwitchTo path ''test'')) res # b" ?fs]
    by (simp add: track_gentle)
  moreover have "trace u = trace s0 @ a @ Ran (SshCall v h (SwitchTo path ''test'')) res # (b @ ?fs)"
    using extends_since [OF assms(2)] es(1) by simp
  ultimately show ?thesis unfolding on_trial_def by (metis append_Cons append_assoc)
qed

lemma kept_keeping:
  assumes "in_phase h path s0 s Kept" and "extends Q s u" and "\<And>k. Q k \<Longrightarrow> keeping path k"
  shows "in_phase h path s0 u Kept"
proof -
  let ?fs = "since (trace s) (trace u)"
  from assms(1) obtain es where es: "trace s = trace s0 @ es"
    "track h path [] Untouched es = Some Kept"
    unfolding in_phase_def by blast
  have "extends (keeping path) s u" using assms(2,3) by (rule extends_mono)
  then have "list_all (runs (keeping path)) ?fs" by (simp add: extends_def)
  then have "track h path [] Untouched (es @ ?fs) = Some Kept"
    using es(2) by (simp add: track_append track_keeping)
  moreover have "trace u = trace s0 @ es @ ?fs" using extends_since [OF assms(2)] es(1) by simp
  ultimately show ?thesis unfolding in_phase_def by blast
qed

lemma stop_keeps:
  assumes "in_phase h path s0 s ph" and "ph = Untouched \<or> ph = Kept"
  shows "in_phase h path s0 (disarmWatchdog c h unit s) ph"
proof -
  from assms(1) obtain es where es: "trace s = trace s0 @ es"
    "track h path [] Untouched es = Some ph" unfolding in_phase_def by blast
  let ?u = "disarmWatchdog c h unit s" and ?Q = "ssh_calls h (StopTimer unit)"
  have ext: "extends ?Q s ?u"
    unfolding disarmWatchdog_def by (rule ssh_run.op_extends)
  have "track h path pre ph fs = Some ph" if "list_all (runs ?Q) fs" for pre fs
    using that
  proof (induction fs arbitrary: pre)
    case (Cons e fs)
    then have "advance h path pre ph e = Some ph"
      using assms(2) by (cases e) (auto simp: ssh_calls_def)
    with Cons show ?case by simp
  qed simp
  then have "track h path [] Untouched (es @ since (trace s) (trace ?u)) = Some ph"
    using es(2) ext by (simp add: track_append extends_def)
  moreover have "trace ?u = trace s0 @ es @ since (trace s) (trace ?u)"
    using extends_since [OF ext] es(1) by simp
  ultimately show ?thesis unfolding in_phase_def by blast
qed

text \<open>Arming.\<close>

lemma arm_phase:
  assumes "untried h path s0 s" and "armWatchdog c h t s = ((unit, ok), u)"
  shows "if ok then in_phase h path s0 u JustArmed else untried h path s0 u"
proof -
  obtain res v secs where once:
    "SSHRunOnce (ctx_runner c) h (ArmTimer unit secs) (30 * Second) s = (res, u)" and ok: "ok = (\<not> Failed res)"
    using assms(2) by (auto simp: armWatchdog_def Let_def split_beta prod_eq_iff split: if_splits)
  have u: "trace u = trace s @ [Ran (SshCall Muxed h (ArmTimer unit secs)) res]"
    by (metis SSHRunOnce_trace fst_conv once snd_conv)
  from assms(1) obtain es where es: "trace s = trace s0 @ es"
    "track h path [] Untouched es = Some Untouched" "list_all (\<lambda>e. \<not> tries e) es"
    unfolding untried_def by blast
  let ?es = "es @ [Ran (SshCall Muxed h (ArmTimer unit secs)) res]"
  have "track h path [] Untouched ?es = Some (if ok then JustArmed else Untouched)"
    using es(2) ok by (simp add: track_snoc)
  moreover have "list_all (\<lambda>e. \<not> tries e) ?es" using es(3) by (simp add: tries_def)
  moreover have "trace u = trace s0 @ ?es" using u es(1) by simp
  ultimately show ?thesis unfolding in_phase_def untried_def by (cases ok) force+
qed

text \<open>Activating, right after a successful arm.\<close>

lemma activate_phase:
  assumes "in_phase h path s0 s JustArmed" and "activate c h path ''test'' s = (x, u)"
  shows "on_trial h path s0 u"
proof -
  let ?r = "ctx_runner c"
  obtain res s1 where once: "SSHRunOnce ?r h (SwitchTo path ''test'') activationTimeout s = (res, s1)"
    by force
  have t1: "trace s1 = trace s @ [Ran (SshCall Muxed h (SwitchTo path ''test'')) res]"
    by (metis SSHRunOnce_trace fst_conv once snd_conv)
  from assms(1) obtain es where es: "trace s = trace s0 @ es"
    "track h path [] Untouched es = Some JustArmed" unfolding in_phase_def by blast
  have "track h path [] Untouched (es @ [Ran (SshCall Muxed h (SwitchTo path ''test'')) res]) = Some Trial"
    using es(2) by (simp add: track_snoc)
  then have "on_trial h path s0 s1" unfolding on_trial_def using t1 es(1) by force
  moreover have "extends gentle s1 u"
  proof -
    let ?s2 = "dropSSHMaster ?r h s1"
    have e2: "extends gentle s1 ?s2" by (intro extends_intros) simp
    have e3: "extends gentle s1 (snd (CheckSSHReachableDirect ?r h (time_sleep (os ?r) (5 * Second) ?s2)))"
      by (intro reachable_direct.op_from extends_intros e2) auto
    show ?thesis
      using assms(2) once e2 e3
      by (auto simp: activate_def Let_def split_beta split: if_splits)
  qed
  ultimately show ?thesis by (rule on_trial_gentle) simp
qed

text \<open>Verifying the connectivity.\<close>

lemma connectivity_phase:
  assumes "on_trial h path s0 s" and "VerifyConnectivity r h s = (ok, u)"
  shows "on_trial h path s0 u \<and> (ok \<longrightarrow> trusted h path s0 u)"
proof -
  have ext: "extends (check_calls h) s u"
    using connectivity.op_extends [of h s r] assms(2) by simp
  then have trial: "on_trial h path s0 u"
    using on_trial_gentle [OF assms(1)] gentle_classes by blast
  moreover have "trusted h path s0 u" if "ok"
  proof -
    from VerifyConnectivity_stretch [of r h s u] assms(2) that obtain earlier stretch where
      st: "trace u = trace s @ earlier @ stretch" "occurs is_pause stretch = 0"
      "\<forall>c \<in> set (ConnChecks h). \<exists>e \<in> set stretch. check_passed h c e" by auto
    from assms(1) obtain a v res b where
      es: "trace s = trace s0 @ a @ Ran (SshCall v h (SwitchTo path ''test'')) res # b"
      unfolding on_trial_def by blast
    let ?es = "a @ Ran (SshCall v h (SwitchTo path ''test'')) res # (b @ earlier) @ stretch @ []"
    have u: "trace u = trace s0 @ ?es" using st(1) es by simp
    have "connected h path ?es" using st(2,3) unfolding connected_def by blast
    moreover have "track h path [] Untouched ?es = Some Trial"
    proof -
      from trial obtain fs where "trace u = trace s0 @ fs" "track h path [] Untouched fs = Some Trial"
        unfolding on_trial_def by blast
      then show ?thesis using u by simp
    qed
    ultimately show ?thesis using u unfolding trusted_def by blast
  qed
  ultimately show ?thesis by blast
qed


lemma advance_read_result:
  assumes "connected h path pre" and "ph \<noteq> JustArmed"
  shows "\<exists>ph2. advance h path pre ph (Ran (SshCall v h ReadActive) res) = Some ph2 \<and>
    (TrimSpace (Stdout res) = path \<and> path \<noteq> [] \<longrightarrow> ph2 = Kept) \<and>
    (TrimSpace (Stdout res) \<noteq> [] \<longrightarrow> ph2 = Untouched \<or> ph2 = Kept)"
  using assms
  by (cases ph; cases "TrimSpace (Stdout res) = path"; cases "TrimSpace (Stdout res) = []") auto

text \<open>Comparing the active path with the build.\<close>

lemma verify_path_phase:
  assumes "trusted h path s0 s" and "verifyActivePath c h path s = ((same, got), u)"
  shows "\<exists>ph. in_phase h path s0 u ph \<and> (same \<longrightarrow> ph = Kept) \<and>
    (got \<noteq> [] \<longrightarrow> ph = Untouched \<or> ph = Kept)"
proof -
  let ?r = "ctx_runner c"
  obtain g v where g: "activeSystemPath ?r h s = (g, v)" by force
  have got: "v = u" "got = g" "same = (g \<noteq> [] \<and> g = path)"
    using assms(2) g by (auto simp: verifyActivePath_def split: if_splits)
  obtain es res where es: "trace v = trace s @ es @ [Ran (SshCall Muxed h ReadActive) res]"
    "g = TrimSpace (Stdout res)"
    using activeSystemPath_answer [OF g] by blast
  have "extends (ssh_calls h ReadActive) s (snd (activeSystemPath ?r h s))"
    by (intro extends_intros) (simp_all add: ssh_calls_def)
  then have reads: "list_all (runs (ssh_calls h ReadActive)) es"
    using g es(1) by (simp add: extends_def)
  from assms(1) obtain fs where fs: "trace s = trace s0 @ fs"
    "track h path [] Untouched fs = Some Trial" "connected h path fs"
    unfolding trusted_def by blast
  obtain ph where ph: "track h path fs Trial es = Some ph" "ph \<noteq> JustArmed"
    using track_reads [OF reads, of Trial path fs] by auto
  then have ph': "track h path [] Untouched (fs @ es) = Some ph"
    using fs(2) by (simp add: track_append)
  have "connected h path (fs @ es)" using fs(3) by (rule connected_append)
  then obtain ph2 where "advance h path (fs @ es) ph (Ran (SshCall Muxed h ReadActive) res) = Some ph2"
    "same \<longrightarrow> ph2 = Kept" "got \<noteq> [] \<longrightarrow> ph2 = Untouched \<or> ph2 = Kept"
    using advance_read_result [of h path "fs @ es" ph Muxed res] ph(2) got es(2) by metis
  moreover have "trace u = trace s0 @ (fs @ es) @ [Ran (SshCall Muxed h ReadActive) res]"
    using es(1) fs(1) got(1) by simp
  moreover have "track h path [] Untouched ((fs @ es) @ [Ran (SshCall Muxed h ReadActive) res]) =
      advance h path (fs @ es) ph (Ran (SshCall Muxed h ReadActive) res)"
    using ph' track_snoc [of h path Untouched "fs @ es" "Ran (SshCall Muxed h ReadActive) res"] by simp
  ultimately show ?thesis unfolding in_phase_def by (metis append_assoc)
qed

lemma checks_extend:
  assumes "post_checks c h s = (ok, u)"
  shows "extends idle s u"
proof -
  have "extends idle s (snd (post_checks c h s))"
    by (intro post_checks_from extends_refl) (metis gentle_classes(2) gentle_idle idle_classes(1))
  then show ?thesis using assms by simp
qed

text \<open>The whole flow: a success ends with nothing tried, or with a system that is kept.\<close>

lemma read_phase: "alreadyDeployed c h path s = (x, v) \<Longrightarrow> untried h path s v"
proof -
  assume "alreadyDeployed c h path s = (x, v)"
  then have "extends idle s v" by (rule snd_eqI) (intro extends_intros; simp)
  then show ?thesis using untried_idle [OF untried_start] by blast
qed

lemma clean_phase: "untried h path s v \<Longrightarrow> untried h path s (cleanupStaleUnits c h v)"
proof -
  assume *: "untried h path s v"
  have "extends idle v (cleanupStaleUnits c h v)" by (intro extends_intros) simp_all
  then show ?thesis using untried_idle [OF *] by blast
qed

lemma trial_phase:
  assumes "alreadyDeployed c h path s = (x, v)"
    and "armWatchdog c h watchdogTimeout (cleanupStaleUnits c h v) = ((unit, True), v2)"
    and "activate c h path ''test'' v2 = (y, w)"
  shows "on_trial h path s w"
  using arm_phase [OF clean_phase [OF read_phase [OF assms(1)]] assms(2)] activate_phase [OF _ assms(3)]
  by simp

lemma persist_phase:
  assumes "in_phase h path s v Kept"
    and "persistBoot c h path (if lost then clearRebuildUnit c h v else v) = (y, w)"
  shows "in_phase h path s w Kept"
proof -
  have "extends (keeping path) v (if lost then clearRebuildUnit c h v else v)"
    by (intro extends_intros) simp_all
  then have "extends (keeping path) v
      (snd (persistBoot c h path (if lost then clearRebuildUnit c h v else v)))"
    by (intro persist_from) simp_all
  then have "extends (keeping path) v w" unfolding assms(2) by simp
  then show ?thesis using kept_keeping [OF assms(1)] by blast
qed

text \<open>Up to the verified path: the system answers at its new path and counts as kept.\<close>

lemma verified_phase:
  assumes "alreadyDeployed c h path s = (x, v)"
    and "armWatchdog c h watchdogTimeout (cleanupStaleUnits c h v) = ((unit, True), v2)"
    and "activate c h path ''test'' v2 = (y, w)"
    and "VerifyConnectivity (ctx_runner c) h w = (True, w')"
  shows "trusted h path s w'"
  using connectivity_phase [OF trial_phase [OF assms(1-3)] assms(4)] by blast

lemma deploySafe_phase:
  assumes "deploySafe c h p s = (ok, u)"
  shows "\<exists>ph. in_phase h (SystemPath p) s u ph \<and>
    (ok \<longrightarrow> ph = Kept \<or> (\<exists>prior s1. alreadyDeployed c h (SystemPath p) s = ((True, prior), s1)))"
proof -
  let ?path = "SystemPath p"
  from assms show ?thesis
  proof (cases rule: deploySafe_cases)
    case (Current prior s1)
    have "untried h ?path s u"
      using untried_idle [OF read_phase [OF Current(1)] checks_extend [OF Current(2)]] by blast
    then show ?thesis using untried_in_phase Current(1) by blast
  next
    case (NotArmed prior s1 unit s2)
    have "untried h ?path s s2"
      using arm_phase [OF clean_phase [OF read_phase [OF NotArmed(1)]] NotArmed(2)] by simp
    then show ?thesis using stop_keeps untried_in_phase NotArmed(3,4) by blast
  next
    case (NotActivated prior s1 unit s2 lost)
    then show ?thesis using trial_phase on_trial_in_phase by blast
  next
    case (NotConnected prior s1 unit s2 lost s3)
    then show ?thesis using trial_phase connectivity_phase on_trial_in_phase by metis
  next
    case (Mismatch prior s1 unit s2 lost s3 s4 got s5)
    from verify_path_phase [OF verified_phase [OF Mismatch(1-4)] Mismatch(5)] show ?thesis
      using Mismatch(6,7) stop_keeps by (metis (full_types))
  next
    case (NotPersisted prior s1 unit s2 lost s3 s4 got s5 s6)
    from verify_path_phase [OF verified_phase [OF NotPersisted(1-4)] NotPersisted(5)] have "in_phase h ?path s s5 Kept" by auto
    from stop_keeps [OF persist_phase [OF this NotPersisted(6)]] show ?thesis
      using NotPersisted(7,8) by blast
  next
    case (Persisted prior s1 unit s2 lost s3 s4 got s5 s6)
    from verify_path_phase [OF verified_phase [OF Persisted(1-4)] Persisted(5)] have "in_phase h ?path s s5 Kept" by auto
    from stop_keeps [OF persist_phase [OF this Persisted(6)]]
    have "in_phase h ?path s (disarmWatchdog c h unit s6) Kept" by blast
    from kept_keeping [OF this checks_extend [OF Persisted(7)]] show ?thesis
      using idle_keeping by blast
  qed
qed


text \<open>What a phase says of the host at every moment up to it.\<close>

lemma in_phase_recoverable:
  assumes "in_phase h path s u ph" and "prefix seen (since (trace s) (trace u))" and "evolves h t0 seen t"
  shows "(boot_default t = boot_default t0 \<or> boot_default t = path \<and> verified h path seen) \<and>
    (live t \<in> {live t0, boot_default t0} \<or> live t = path \<and> (timers t \<noteq> {} \<or> verified h path seen))"
proof -
  from assms(1) obtain es where "trace u = trace s @ es" "track h path [] Untouched es = Some ph"
    unfolding in_phase_def by blast
  moreover from this assms(2) obtain rest where "es = seen @ rest" by (auto simp: prefix_def)
  ultimately obtain ph' where ph': "track h path [] Untouched seen = Some ph'"
    using track_prefix [of h path Untouched seen rest] by auto
  have "phase_inv t0 path ph' t" using track_sound [OF assms(3) ph'] .
  then show ?thesis using track_kept [of h path seen] ph' by (cases ph') auto
qed

section \<open>The boot default\<close>

lemma idle_effect:
  "runs idle e \<Longrightarrow> effect h e t t' \<Longrightarrow>
   boot_default t' = boot_default t \<and> profile_path t' = profile_path t \<and>
   (\<forall>v res. e = Ran (SshCall v h ReadProfile) res \<longrightarrow> TrimSpace (Stdout res) \<in> {[], profile_path t})"
proof (cases e)
  case (Ran k res)
  assume *: "runs idle e" "effect h e t t'"
  with Ran show ?thesis
  proof (cases k)
    case (SshCall v h' cmd)
    with * Ran show ?thesis by (cases cmd) (auto split: if_splits)
  qed auto
qed auto

lemma idle_keeps:
  "evolves h t0 es t \<Longrightarrow> list_all (runs idle) es \<Longrightarrow>
   boot_default t = boot_default t0 \<and> profile_path t = profile_path t0 \<and>
   (\<forall>v res. Ran (SshCall v h ReadProfile) res \<in> set es \<longrightarrow>
      TrimSpace (Stdout res) \<in> {[], profile_path t0})"
proof (induction rule: evolves.induct)
  case (does es t e t')
  then show ?case using idle_effect [of e h t t'] by auto
qed auto

text \<open>After a boot default was surely set, events that cannot change it keep it.\<close>

lemma boot_stays:
  assumes "evolves h t0 es t" and "es = a @ e # b" and "list_all (runs idle) b"
    and "\<And>x y. effect h e x y \<Longrightarrow> boot_default y = path"
  shows "boot_default t = path"
  using assms
proof (induction arbitrary: b rule: evolves.induct)
  case (does es t e' t')
  show ?case
  proof (cases b rule: rev_cases)
    case Nil
    then show ?thesis using does by auto
  next
    case (snoc b' e2)
    then have "es = a @ e # b'" "e' = e2" using does.prems(1) by auto
    then have "boot_default t = path" using does.IH [of b'] does.prems snoc by auto
    then show ?thesis using idle_effect [of e' h t t'] does.hyps(2) does.prems(2) snoc \<open>e' = e2\<close> by auto
  qed
qed auto

text \<open>Every stage extends the trace.\<close>

lemma stages_extend:
  "alreadyDeployed c h path s = (x, u) \<Longrightarrow> extends (\<lambda>k. True) s u"
  "armWatchdog c h d (cleanupStaleUnits c h s) = (y, u) \<Longrightarrow> extends (\<lambda>k. True) s u"
  "activate c h path sub s = (z, u) \<Longrightarrow> extends (\<lambda>k. True) s u"
  "VerifyConnectivity (ctx_runner c) h s = (ok, u) \<Longrightarrow> extends (\<lambda>k. True) s u"
  "verifyActivePath c h path s = (x, u) \<Longrightarrow> extends (\<lambda>k. True) s u"
  "extends (\<lambda>k. True) s (if b then clearRebuildUnit c h s else s)"
  by (erule snd_eqI | intro extends_intros connectivity.op_from; simp)+

section \<open>Concrete runs\<close>

text \<open>A host that goes through given states, one after each event.\<close>

fun follows :: "host \<Rightarrow> target \<Rightarrow> (event \<times> target) list \<Rightarrow> bool" where
  "follows h t [] \<longleftrightarrow> True"
| "follows h t ((e, t') # ets) \<longleftrightarrow> effect h e t t' \<and> follows h t' ets"

lemma follows_evolves:
  "evolves h t0 es t \<Longrightarrow> follows h t ets \<Longrightarrow>
   evolves h t0 (es @ map fst ets) (last (t # map snd ets))"
proof (induction ets arbitrary: es t)
  case (Cons et ets)
  then show ?case using evolves.does [of h t0 es t "fst et" "snd et"]
    by (cases et) fastforce
qed simp

definition example_host :: host where
  "example_host = zero_host\<lparr>Name := ''a''\<rparr>"

definition example_plan :: plan where
  "example_plan = \<lparr>SystemPath = ''/new'', DrvPath = ''/new.drv'', UpToDate = False\<rparr>"

text \<open>A host whose two links read as given, and on which every command succeeds.\<close>

definition example_out :: "string \<Rightarrow> string \<Rightarrow> string \<Rightarrow> run_result" where
  "example_out active prof line =
     (if line = render ReadActive then zero_result\<lparr>Stdout := active\<rparr>
      else if line = render ReadProfile then zero_result\<lparr>Stdout := prof\<rparr>
      else zero_result)"

definition example_ctx :: "string \<Rightarrow> string \<Rightarrow> unit deploy_ctx" where
  "example_ctx active prof =
     \<lparr>ctx_runner = \<lparr>Quiet = False, Control = None,
        os = \<lparr>exec = (\<lambda>argv env timeout w. (process_of (example_out active prof (last argv)), w)),
          environ = [], nap = (\<lambda>d w. (0, w)), wall_clock = (\<lambda>w. 1700000000),
          mkdir_temp = (\<lambda>dir pre w. (Inl ''read-only'', w)),
          list_dir = (\<lambda>dir w. []), remove_all = (\<lambda>dir w. w)\<rparr>\<rparr>,
      Prompter = None, RebootFlag = RebootFlagNever, collects = True\<rparr>"

definition example_start :: "unit st" where
  "example_start = \<lparr>world = (), clock = 0, warnings = [], trace = []\<rparr>"

fun example_answer :: "string \<Rightarrow> string \<Rightarrow> remote \<Rightarrow> run_result" where
  "example_answer active prof ReadActive = zero_result\<lparr>Stdout := active\<rparr>"
| "example_answer active prof ReadProfile = zero_result\<lparr>Stdout := prof\<rparr>"
| "example_answer active prof _ = zero_result"

lemma result_of_process_of: "Err res = None \<Longrightarrow> \<not> TimedOut res \<Longrightarrow> result_of (process_of res) = res"
  by (cases res) (simp add: result_of_def process_of_def zero_result_def)

lemma example_ssh:
  "SSHRunOnce (ctx_runner (example_ctx a b)) h cmd d s =
     (example_answer a b cmd,
      s\<lparr>trace := trace s @ [Ran (SshCall Muxed h cmd) (example_answer a b cmd)]\<rparr>)"
proof -
  have "last (SSHArgv None h (render cmd) sshConnectTimeout) = render cmd"
    by (simp add: SSHArgv_def sshArgv_def)
  moreover have "example_out a b (render cmd) = example_answer a b cmd"
    by (cases cmd) (simp_all add: example_out_def)
  moreover have "result_of (process_of (example_answer a b cmd)) = example_answer a b cmd"
    by (rule result_of_process_of; cases cmd; simp add: zero_result_def)
  moreover have "elapsed (process_of (example_answer a b cmd)) = 0" by (simp add: process_of_def)
  ultimately show ?thesis
    by (cases s) (simp add: SSHRunOnce_def Run_def example_ctx_def Let_def)
qed

lemma example_not_failed: "\<not> Failed (example_answer a b cmd)" "\<not> transportFailed (example_answer a b cmd)"
  by (cases cmd; simp add: Failed_def transportFailed_def zero_result_def)+

lemma example_no_master: "dropSSHMaster (ctx_runner (example_ctx a b)) h s = s"
  by (simp add: dropSSHMaster_def Drop_def example_ctx_def enabled_def)

lemma example_ssh_run:
  "SSHRun (ctx_runner (example_ctx a b)) h cmd d s = SSHRunOnce (ctx_runner (example_ctx a b)) h cmd d s"
  by (simp add: SSHRun_def example_ssh example_not_failed)

section \<open>Properties\<close>

text \<open>
  C3: the watchdog keeps the host recoverable. Take the protected flow stopped after any
  number of its events, and any host that reacted to them as documented, with timers firing
  at any point. Its boot default is the one it had, or the new system after that system was
  verified (every connectivity check passed on one attempt after the activation, and then
  the host was seen running it). And it runs the system it ran, or its old boot default, or
  the new system with a reboot timer armed or after the verification. So a system that was
  not verified is never what the host boots, and never runs without a timer that will take
  it back.
\<close>

theorem deploySafe_never_strands:
  assumes "prefix seen (since (trace s) (trace (snd (deploySafe c h p s))))"
    and "evolves h t0 seen t"
  shows "(boot_default t = boot_default t0 \<or>
      boot_default t = SystemPath p \<and> verified h (SystemPath p) seen) \<and>
    (live t \<in> {live t0, boot_default t0} \<or>
      live t = SystemPath p \<and> (timers t \<noteq> {} \<or> verified h (SystemPath p) seen))"
proof -
  obtain ok u where run: "deploySafe c h p s = (ok, u)" by force
  with deploySafe_phase [OF run] assms show ?thesis
    using in_phase_recoverable [of h "SystemPath p" s u] by (metis snd_conv)
qed

theorem deploySafe_never_strands_witness:
  "let seen = map (\<lambda>cmd. Ran (SshCall Muxed example_host cmd) zero_result)
         [ReadActive, ReadProfile, CleanupUnits, ArmTimer ''deploy-watchdog-1700000000'' 120,
          SwitchTo ''/new'' ''test''];
       t0 = \<lparr>live = ''/old'', boot_default = ''/old'', profile_path = ''/old'', timers = {}\<rparr>;
       t = t0\<lparr>live := ''/new'', timers := {''deploy-watchdog-1700000000''}\<rparr> in
   evolves example_host t0 seen t \<and>
   (boot_default t = boot_default t0 \<or>
      boot_default t = ''/new'' \<and> verified example_host ''/new'' seen)"
proof -
  let ?R = "\<lambda>cmd. Ran (SshCall Muxed example_host cmd) zero_result"
  let ?w = "''deploy-watchdog-1700000000''"
  let ?seen = "map ?R [ReadActive, ReadProfile, CleanupUnits, ArmTimer ?w 120, SwitchTo ''/new'' ''test'']"
  let ?old = "\<lparr>live = ''/old'', boot_default = ''/old'', profile_path = ''/old'', timers = {}\<rparr>"
  let ?t = "?old\<lparr>live := ''/new'', timers := {?w}\<rparr>"
  have "take 5 (trace (snd (deploySafe (example_ctx [] []) example_host example_plan example_start))) = ?seen"
    by code_simp
  then have pre: "prefix ?seen
      (since (trace example_start) (trace (snd (deploySafe (example_ctx [] []) example_host example_plan example_start))))"
    using take_is_prefix [of 5 "trace (snd (deploySafe (example_ctx [] []) example_host example_plan example_start))"]
    by (simp add: example_start_def since_def)
  have "TrimSpace (Stdout zero_result) = []" by code_simp
  then have "follows example_host ?old
    [(?R ReadActive, ?old), (?R ReadProfile, ?old), (?R CleanupUnits, ?old),
     (?R (ArmTimer ?w 120), ?old\<lparr>timers := {?w}\<rparr>), (?R (SwitchTo ''/new'' ''test''), ?t)]"
    by simp
  from follows_evolves [OF evolves.start this] have ev: "evolves example_host ?old ?seen ?t" by simp
  from deploySafe_never_strands [OF pre ev] show ?thesis
    using ev by (auto simp: Let_def example_plan_def)
qed

text \<open>The two ways a deployment succeeds: the system was there already, or it was made the default.\<close>

lemma already_deployed_boots:
  assumes "alreadyDeployed c h (SystemPath p) s = ((True, prior), s1)"
    and "extends idle s1 s'"
    and "evolves h t0 (since (trace s) (trace s')) t" "boot_default t0 = profile_path t0"
  shows "boot_default t = SystemPath p"
proof -
  from assms(1) obtain es fs a b where
    t1: "trace s1 = trace s @ es @ [Ran (SshCall Muxed h ReadActive) a]
      @ fs @ [Ran (SshCall Muxed h ReadProfile) b]" and
    b: "SystemPath p \<noteq> []" "TrimSpace (Stdout b) = SystemPath p"
    using hostAtPath_answer [of "ctx_runner c" h "SystemPath p" s True prior s1]
    by (auto simp: alreadyDeployed_def)
  have "extends idle s s1"
    using assms(1) by (rule snd_eqI) (intro extends_intros; simp)
  with assms(2) have ext: "extends idle s s'" by (blast intro: extends_trans)
  have "Ran (SshCall Muxed h ReadProfile) b \<in> set (since (trace s) (trace s'))"
    using t1 extends_since [OF assms(2)] by (metis Un_iff append_assoc
      in_set_conv_decomp set_append since_append)
  moreover have "list_all (runs idle) (since (trace s) (trace s'))" using ext by (simp add: extends_def)
  ultimately have "TrimSpace (Stdout b) \<in> {[], profile_path t0}" "boot_default t = boot_default t0"
    using idle_keeps [OF assms(3)] by blast+
  then show ?thesis using b assms(4) by auto
qed

lemma persistBoot_boots:
  assumes "persistBoot c h path u = (True, s6)" and "prefix (trace s) (trace u)"
    and "extends idle s6 s'" and "evolves h t0 (since (trace s) (trace s')) t"
  shows "boot_default t = path"
proof -
  obtain res1 v1 where set: "SSHRun (ctx_runner c) h (SetProfile path) (30 * Second) u = (res1, v1)"
    by force
  obtain res2 v2 where boot:
    "SSHRun (ctx_runner c) h (SwitchTo path ''boot'') activationTimeout v1 = (res2, v2)" by force
  from assms(1) set boot have v: "v2 = s6" "\<not> Failed res2"
    unfolding persistBoot_def by (auto split: if_splits)
  from SSHRun_last [OF boot] obtain es where
    s6: "trace s6 = trace v1 @ es @ [Ran (SshCall Muxed h (SwitchTo path ''boot'')) res2]"
    using v(1) by blast
  have "extends (\<lambda>k. True) u (snd (SSHRun (ctx_runner c) h (SetProfile path) (30 * Second) u))"
    by (intro SSHRun_from extends_refl) simp_all
  with assms(2) have "prefix (trace s) (trace v1)"
    unfolding set by (auto simp: extends_def intro: prefix_order.trans)
  then obtain a where "trace v1 = trace s @ a" by (auto simp: prefix_def)
  then have "since (trace s) (trace s') =
      (a @ es) @ Ran (SshCall Muxed h (SwitchTo path ''boot'')) res2 # since (trace s6) (trace s')"
    using s6 extends_since [OF assms(3)] by (metis append_Cons append_Nil append_assoc since_append)
  from boot_stays [OF assms(4) this] assms(3) v(2) show ?thesis by (auto simp: extends_def)
qed

lemma deploySafe_boots:
  assumes "deploySafe c h p s = (True, s')" and "evolves h t0 (since (trace s) (trace s')) t"
    and "boot_default t0 = profile_path t0"
  shows "boot_default t = SystemPath p"
  using assms(1)
proof (cases rule: deploySafe_cases)
  case (Current prior s1)
  from already_deployed_boots [OF Current(1) checks_extend [OF Current(2)] assms(2,3)]
  show ?thesis .
next
  case (Persisted prior s1 unit s2 lost s3 s4 got s5 s6)
  have "extends (\<lambda>k. True) s (if lost then clearRebuildUnit c h s5 else s5)"
    by (rule extends_trans [OF stages_extend(1) [OF Persisted(1)]
          extends_trans [OF stages_extend(2) [OF Persisted(2)]
          extends_trans [OF stages_extend(3) [OF Persisted(3)]
          extends_trans [OF stages_extend(4) [OF Persisted(4)]
          extends_trans [OF stages_extend(5) [OF Persisted(5)] stages_extend(6)]]]]])
  then have "prefix (trace s) (trace (if lost then clearRebuildUnit c h s5 else s5))"
    by (simp add: extends_def)
  moreover have "extends idle s6 (disarmWatchdog c h unit s6)" by (intro extends_intros) simp_all
  with checks_extend [OF Persisted(7)] have "extends idle s6 s'" by (blast intro: extends_trans)
  ultimately show ?thesis using persistBoot_boots [OF Persisted(6)] assms(2) by blast
qed auto





text \<open>
  C6: the boot default itself is never read. When the live system and the system profile
  of a host both read as the path to deploy, the protected flow changes nothing on it, so a
  host whose boot default is another one (a deployment that set the profile and then failed
  to install the boot entry leaves it so) keeps that boot default.
\<close>

theorem deploySafe_trusts_the_profile:
  assumes "alreadyDeployed c h (SystemPath p) s = ((True, prior), s1)"
    and "evolves h t0 (since (trace s) (trace (snd (deploySafe c h p s)))) t"
  shows "boot_default t = boot_default t0 \<and> profile_path t = profile_path t0"
proof -
  obtain ok u where run: "deploySafe c h p s = (ok, u)" by force
  then have checks: "post_checks c h s1 = (ok, u)"
    using assms(1) by (cases rule: deploySafe_cases) auto
  have "extends idle s s1"
    using assms(1) by (rule snd_eqI) (intro extends_intros; simp)
  with checks_extend [OF checks] have "extends idle s u" by (blast intro: extends_trans)
  then have "list_all (runs idle) (since (trace s) (trace u))" by (simp add: extends_def)
  with idle_keeps [OF assms(2)] run show ?thesis by simp
qed

theorem deploySafe_trusts_the_profile_witness:
  "\<exists>s' t0 t. deploySafe (example_ctx ''/new'' ''/new'') example_host example_plan example_start = (True, s') \<and>
     evolves example_host t0 (trace s') t \<and> live t = ''/new'' \<and> profile_path t = ''/new'' \<and>
     boot_default t = ''/old''"
proof -
  let ?c = "example_ctx ''/new'' ''/new''"
  let ?R = "\<lambda>cmd. Ran (SshCall Muxed example_host cmd)" and ?z = zero_result
  let ?t = "\<lparr>live = ''/new'', boot_default = ''/old'', profile_path = ''/new'', timers = {}\<rparr>"
  let ?run = "deploySafe ?c example_host example_plan example_start"
  let ?steps = "[(?R ReadActive (?z\<lparr>Stdout := ''/new''\<rparr>), ?t), (?R ReadProfile (?z\<lparr>Stdout := ''/new''\<rparr>), ?t),
    (?R RunningKernel ?z, ?t), (?R CurrentModules ?z, ?t), (?R BootedParams ?z, ?t),
    (?R CurrentParams ?z, ?t)]"
  have ok: "fst ?run" by code_simp
  have tr: "trace (snd ?run) = map fst ?steps" by code_simp
  have already: "fst (fst (alreadyDeployed ?c example_host (SystemPath example_plan) example_start))" by code_simp
  then obtain prior s1 where
    already: "alreadyDeployed ?c example_host (SystemPath example_plan) example_start = ((True, prior), s1)"
    by (metis (full_types) prod.collapse)
  have "TrimSpace ''/new'' = ''/new''" by code_simp
  then have "follows example_host ?t ?steps"
    by (simp add: zero_result_def)
  from follows_evolves [OF evolves.start this]
  have ev: "evolves example_host ?t (trace (snd ?run)) ?t" unfolding tr by simp
  have "boot_default ?t = ''/old'' \<and> profile_path ?t = ''/new''"
    using deploySafe_trusts_the_profile [OF already, of ?t ?t] ev by (simp add: example_start_def since_def)
  moreover have "?run = (True, snd ?run)" using ok by (simp add: prod_eq_iff)
  ultimately show ?thesis using ev
    by (intro exI [of _ "snd ?run"] exI [of _ ?t] exI [of _ ?t]) simp
qed


end
