(* ===== verification/Go_Flags.thy ===== *)
theory Go_Flags
  imports Go_Strings
begin

text \<open>
  The part of Go's \<open>flag\<close> and \<open>strconv\<close> packages the command line is parsed with:
  \<open>FlagSet.Parse\<close> over string, integer and boolean flags, \<open>ParseBool\<close>, and \<open>ParseInt\<close> with
  base 0 and 64 bits. It is the standard library's algorithm, branch by branch; the flags of
  the program are in \<open>Cli\<close>.
\<close>

section \<open>Numbers and truth values\<close>

definition ParseBool :: "string \<Rightarrow> bool option" where
  "ParseBool s =
     (if s \<in> {''1'', ''t'', ''T'', ''TRUE'', ''true'', ''True''} then Some True
      else if s \<in> {''0'', ''f'', ''F'', ''FALSE'', ''false'', ''False''} then Some False
      else None)"

definition char_code :: "char \<Rightarrow> int" where
  "char_code c = of_char c"

text \<open>\<open>c | 0x20\<close>, for the letters it is compared with.\<close>

definition is_letter :: "char \<Rightarrow> int \<Rightarrow> bool" where
  "is_letter c low \<longleftrightarrow> char_code c = low \<or> char_code c = low - 32"

text \<open>The value of a digit or letter, as \<open>ParseUint\<close> reads it.\<close>

definition digit_value :: "char \<Rightarrow> int option" where
  "digit_value c =
     (if 48 \<le> char_code c \<and> char_code c \<le> 57 then Some (char_code c - 48)
      else if 97 \<le> char_code c \<and> char_code c \<le> 122 then Some (char_code c - 97 + 10)
      else if 65 \<le> char_code c \<and> char_code c \<le> 90 then Some (char_code c - 65 + 10)
      else None)"

text \<open>The digits of a number in a base; underscores are skipped here and judged below.\<close>

fun read_digits :: "int \<Rightarrow> int \<Rightarrow> string \<Rightarrow> int option" where
  "read_digits base n [] = Some n"
| "read_digits base n (c # cs) =
     (if c = CHR ''_'' then read_digits base n cs
      else case digit_value c of
             None \<Rightarrow> None
           | Some d \<Rightarrow> if base \<le> d then None else read_digits base (n * base + d) cs)"

definition base_prefix :: "string \<Rightarrow> (int \<times> string) option" where
  "base_prefix s =
     (case s of
        z # c # rest \<Rightarrow>
          if z = CHR ''0'' \<and> is_letter c 98 then Some (2, rest)
          else if z = CHR ''0'' \<and> is_letter c 111 then Some (8, rest)
          else if z = CHR ''0'' \<and> is_letter c 120 then Some (16, rest)
          else None
      | _ \<Rightarrow> None)"

text \<open>Where an underscore may stand: the scan keeps the kind of the character before it.\<close>

datatype seen = AtStart | Digit | Underscore | Other

fun underscores_from :: "bool \<Rightarrow> seen \<Rightarrow> string \<Rightarrow> bool" where
  "underscores_from hex i [] = (i \<noteq> Underscore)"
| "underscores_from hex i (c # cs) =
     (if 48 \<le> char_code c \<and> char_code c \<le> 57 \<or> hex \<and> (97 \<le> char_code c \<and> char_code c \<le> 102 \<or> 65 \<le> char_code c \<and> char_code c \<le> 70)
      then underscores_from hex Digit cs
      else if c = CHR ''_'' then if i \<noteq> Digit then False else underscores_from hex Underscore cs
      else if i = Underscore then False
      else underscores_from hex Other cs)"

definition underscoreOK :: "string \<Rightarrow> bool" where
  "underscoreOK s =
     (case base_prefix s of
        Some (base, rest) \<Rightarrow> underscores_from (base = 16) Digit rest
      | None \<Rightarrow> underscores_from False AtStart s)"

text \<open>\<open>ParseUint(s, 0, 64)\<close>: \<open>None\<close> is an error, of syntax or of range.\<close>

definition ParseUint :: "string \<Rightarrow> int option" where
  "ParseUint s =
     (if s = [] then None
      else
        let (base, digits) =
              (if hd s = CHR ''0'' then
                 (case base_prefix s of
                    Some (b, rest) \<Rightarrow> if rest = [] then (8, tl s) else (b, rest)
                  | None \<Rightarrow> (8, tl s))
               else (10, s)) in
        case read_digits base 0 digits of
          None \<Rightarrow> None
        | Some n \<Rightarrow> if CHR ''_'' \<in> set digits \<and> \<not> underscoreOK s then None
                   else if 2 ^ 64 \<le> n then None else Some n)"

definition ParseInt :: "string \<Rightarrow> int option" where
  "ParseInt s =
     (let neg = (s \<noteq> [] \<and> hd s = CHR ''-'');
          rest = (if s \<noteq> [] \<and> (hd s = CHR ''+'' \<or> hd s = CHR ''-'') then tl s else s) in
      case ParseUint rest of
        None \<Rightarrow> None
      | Some n \<Rightarrow>
          if \<not> neg \<and> 2 ^ 63 \<le> n then None
          else if neg \<and> 2 ^ 63 < n then None
          else Some (if neg then - n else n))"

section \<open>Flags\<close>

datatype flag_value = FString string | FInt int | FBool bool

datatype flag_error =
    BadFlagSyntax string
  | NotDefined string
  | HelpRequested
  | BadValue string string
  | NeedsArgument string

text \<open>\<open>flag.Value.Set\<close>, by the type of the flag.\<close>

fun set_value :: "flag_value \<Rightarrow> string \<Rightarrow> flag_value option" where
  "set_value (FString old) s = Some (FString s)"
| "set_value (FInt old) s = map_option FInt (ParseInt s)"
| "set_value (FBool old) s = map_option FBool (ParseBool s)"

fun is_bool :: "flag_value \<Rightarrow> bool" where
  "is_bool (FBool b) = True"
| "is_bool _ = False"

type_synonym flags = "string \<rightharpoonup> flag_value"

text \<open>The name and the value after the first \<open>=\<close>, which is not searched at position 0.\<close>

definition split_flag :: "string \<Rightarrow> string \<times> string option" where
  "split_flag name =
     (case IndexByte (tl name) CHR ''='' of
        None \<Rightarrow> (name, None)
      | Some i \<Rightarrow> (take (i + 1) name, Some (drop (i + 2) name)))"

text \<open>
  One call of \<open>parseOne\<close>: \<open>Inr (None, \<dots>)\<close> when the flags have ended, with the arguments
  left over, \<open>Inr (Some flags, \<dots>)\<close> when a flag was set.
\<close>

definition set_flag :: "flags \<Rightarrow> string \<Rightarrow> flag_value \<Rightarrow> string \<Rightarrow> string list
    \<Rightarrow> flag_error + flags option \<times> string list" where
  "set_flag fs name f value args =
     (case set_value f value of
        None \<Rightarrow> Inl (BadValue value name)
      | Some v \<Rightarrow> Inr (Some (fs(name \<mapsto> v)), args))"

definition parse_flag :: "flags \<Rightarrow> string \<Rightarrow> string option \<Rightarrow> string list
    \<Rightarrow> flag_error + flags option \<times> string list" where
  "parse_flag fs name value args =
     (case fs name of
        None \<Rightarrow> Inl (if name = ''help'' \<or> name = ''h'' then HelpRequested else NotDefined name)
      | Some f \<Rightarrow>
          if is_bool f then set_flag fs name f (case value of Some v \<Rightarrow> v | None \<Rightarrow> ''true'') args
          else
            case value of
              Some v \<Rightarrow> set_flag fs name f v args
            | None \<Rightarrow>
                (case args of
                   [] \<Rightarrow> Inl (NeedsArgument name)
                 | v # rest \<Rightarrow> set_flag fs name f v rest))"

definition parse_one :: "flags \<Rightarrow> string list \<Rightarrow> flag_error + flags option \<times> string list" where
  "parse_one fs args =
     (case args of
        [] \<Rightarrow> Inr (None, [])
      | s # rest \<Rightarrow>
          if length s < 2 \<or> hd s \<noteq> CHR ''-'' then Inr (None, args)
          else if s = ''--'' then Inr (None, rest)
          else
            let name = (if s ! 1 = CHR ''-'' then drop 2 s else drop 1 s) in
            if name = [] \<or> hd name = CHR ''-'' \<or> hd name = CHR ''='' then Inl (BadFlagSyntax s)
            else let (name, value) = split_flag name in parse_flag fs name value rest)"

lemma parse_one_shorter:
  "parse_one fs args = Inr (Some fs', rest) \<Longrightarrow> length rest < length args"
  by (auto simp: parse_one_def parse_flag_def set_flag_def Let_def split_beta
      split: list.splits if_splits option.splits)

text \<open>\<open>FlagSet.Parse\<close>: the flags as set, and the arguments after them.\<close>

function parse_flags :: "flags \<Rightarrow> string list \<Rightarrow> flag_error + flags \<times> string list" where
  "parse_flags fs args =
     (case parse_one fs args of
        Inl e \<Rightarrow> Inl e
      | Inr (None, rest) \<Rightarrow> Inr (fs, rest)
      | Inr (Some fs', rest) \<Rightarrow> parse_flags fs' rest)"
  by pat_completeness auto
termination
  by (relation "measure (\<lambda>(fs, args). length args)") (auto dest: parse_one_shorter)

declare parse_flags.simps [simp del]

text \<open>How the program reads its flags: the pointer a definition returned, dereferenced.\<close>

definition string_flag :: "flags \<Rightarrow> string \<Rightarrow> string" where
  "string_flag fs name = (case fs name of Some (FString s) \<Rightarrow> s | _ \<Rightarrow> [])"

definition int_flag :: "flags \<Rightarrow> string \<Rightarrow> int" where
  "int_flag fs name = (case fs name of Some (FInt i) \<Rightarrow> i | _ \<Rightarrow> 0)"

definition bool_flag :: "flags \<Rightarrow> string \<Rightarrow> bool" where
  "bool_flag fs name = (case fs name of Some (FBool b) \<Rightarrow> b | _ \<Rightarrow> False)"

end
