(* ===== verification/Output.thy ===== *)
theory Output
  imports Build
begin

text \<open>
  \<open>deployment/output.go\<close>: the writer that tags each line of the streamed build log. Standard
  output is the list of what was written under one hold of the lock each, so that two
  writers can interleave only between the elements.
\<close>

section \<open>The writer\<close>

text \<open>One line under the lock: \<open>text\<close> is what the format expands to.\<close>

definition say :: "string \<Rightarrow> string list \<Rightarrow> string list" where
  "say text out = out @ [text]"

record prefix_writer =
  pw_prefix :: string
  pw_buf :: string

text \<open>The loop of \<open>Write\<close> over the complete lines in the buffer.\<close>

function write_lines :: "prefix_writer \<Rightarrow> string list \<Rightarrow> prefix_writer \<times> string list" where
  "write_lines w out =
     (case IndexByte (pw_buf w) newline of
        None \<Rightarrow> (w, out)
      | Some i \<Rightarrow>
          write_lines (w\<lparr>pw_buf := drop (i + 1) (pw_buf w)\<rparr>)
            (out @ [pw_prefix w @ take i (pw_buf w) @ [newline]]))"
  by pat_completeness auto
termination
proof (relation "measure (\<lambda>(w, out). length (pw_buf w))")
  fix w :: prefix_writer and out :: "string list" and i
  assume "IndexByte (pw_buf w) newline = Some i"
  then have "i < length (pw_buf w)" using IndexByte_Some by blast
  then show "((w\<lparr>pw_buf := drop (i + 1) (pw_buf w)\<rparr>, out @ [pw_prefix w @ take i (pw_buf w) @ [newline]]),
      (w, out)) \<in> measure (\<lambda>(w, out). length (pw_buf w))"
    by simp
qed simp

declare write_lines.simps [simp del]

definition Write :: "prefix_writer \<Rightarrow> string \<Rightarrow> string list \<Rightarrow> (nat \<times> prefix_writer) \<times> string list" where
  "Write w p out =
     (let (w, out) = write_lines (w\<lparr>pw_buf := pw_buf w @ p\<rparr>) out in ((length p, w), out))"

definition Flush :: "prefix_writer \<Rightarrow> string list \<Rightarrow> prefix_writer \<times> string list" where
  "Flush w out =
     (if length (pw_buf w) = 0 then (w, out)
      else (w\<lparr>pw_buf := []\<rparr>, out @ [pw_prefix w @ pw_buf w @ [newline]]))"

definition buildOut :: "build_opts \<Rightarrow> prefix_writer option" where
  "buildOut opts =
     (if \<not> Stream opts then None else Some \<lparr>pw_prefix = ''[build] '', pw_buf = []\<rparr>)"

text \<open>
  What \<open>BuildAll\<close> makes of the output of the build: the process hands it over in chunks as
  they come, from either stream; then the writer is flushed. Without streaming, the output
  is only captured.
\<close>

fun write_chunks :: "prefix_writer \<Rightarrow> string list \<Rightarrow> string list \<Rightarrow> prefix_writer \<times> string list" where
  "write_chunks w [] out = (w, out)"
| "write_chunks w (p # ps) out = (let ((n, w), out) = Write w p out in write_chunks w ps out)"

definition build_log :: "build_opts \<Rightarrow> string list \<Rightarrow> string list \<Rightarrow> string list" where
  "build_log opts chunks out =
     (case buildOut opts of
        None \<Rightarrow> out
      | Some w \<Rightarrow> let (w, out) = write_chunks w chunks out in snd (Flush w out))"

section \<open>Lines\<close>

text \<open>The specification: a text is its complete lines and the rest after the last newline.\<close>

definition full_lines :: "string \<Rightarrow> string list" where
  "full_lines body = butlast (Split body newline)"

definition rest_of :: "string \<Rightarrow> string" where
  "rest_of body = last (Split body newline)"

definition tagged :: "string \<Rightarrow> string list \<Rightarrow> string list" where
  "tagged pre lines = map (\<lambda>l. pre @ l @ [newline]) lines"

lemma Split_IndexByte:
  "Split s c = (case IndexByte s c of None \<Rightarrow> [s] | Some i \<Rightarrow> take i s # Split (drop (i + 1) s) c)"
  by (induction s) (auto split: option.splits)

lemma Split_append: "Split (s @ t) c = butlast (Split s c) @ Split (last (Split s c) @ t) c"
proof (induction s)
  case (Cons x s)
  obtain y ys where y: "Split s c = y # ys" by (cases "Split s c") auto
  show ?case
  proof (cases "x = c")
    case False
    with Cons y show ?thesis by (cases ys) (auto split: list.splits)
  qed (use Cons in simp)
qed simp

lemma rest_of_no_newline: "newline \<notin> set (rest_of body)"
  using Split_pieces [of body newline] by (metis last_in_set Split_nonempty rest_of_def)

lemma rest_of_rest [simp]: "rest_of (rest_of body) = rest_of body" "full_lines (rest_of body) = []"
  using Split_no_sep [OF rest_of_no_newline] by (simp_all add: rest_of_def full_lines_def)

lemma full_lines_append: "full_lines (s @ t) = full_lines s @ full_lines (rest_of s @ t)"
  using Split_append [of s t newline] by (simp add: full_lines_def rest_of_def butlast_append)

lemma rest_of_append: "rest_of (s @ t) = rest_of (rest_of s @ t)"
  using Split_append [of s t newline] by (simp add: rest_of_def)

lemma write_lines_spec:
  "write_lines w out =
     (w\<lparr>pw_buf := rest_of (pw_buf w)\<rparr>, out @ tagged (pw_prefix w) (full_lines (pw_buf w)))"
proof (induction w out rule: write_lines.induct)
  case (1 w out)
  show ?case
  proof (cases "IndexByte (pw_buf w) newline")
    case None
    then show ?thesis
      by (simp add: write_lines.simps [of w out] rest_of_def full_lines_def tagged_def
          Split_IndexByte [of "pw_buf w"])
  next
    case (Some i)
    then show ?thesis using 1 [OF Some]
      by (simp add: write_lines.simps [of w out] rest_of_def full_lines_def tagged_def
          Split_IndexByte [of "pw_buf w"])
  qed
qed

lemma Write_spec:
  "Write w p out =
     ((length p, w\<lparr>pw_buf := rest_of (pw_buf w @ p)\<rparr>),
      out @ tagged (pw_prefix w) (full_lines (pw_buf w @ p)))"
  by (simp add: Write_def write_lines_spec)

lemma write_chunks_spec:
  assumes "newline \<notin> set (pw_buf w)"
  shows "write_chunks w ps out =
    (w\<lparr>pw_buf := rest_of (pw_buf w @ concat ps)\<rparr>,
     out @ tagged (pw_prefix w) (full_lines (pw_buf w @ concat ps)))"
  using assms
proof (induction ps arbitrary: w out)
  case Nil
  then show ?case
    using Split_no_sep by (simp add: rest_of_def full_lines_def tagged_def)
next
  case (Cons p ps)
  let ?w = "w\<lparr>pw_buf := rest_of (pw_buf w @ p)\<rparr>"
  have "newline \<notin> set (pw_buf ?w)" using rest_of_no_newline by simp
  from Cons.IH [OF this] show ?case
    using full_lines_append [of "pw_buf w @ p" "concat ps"]
      rest_of_append [of "pw_buf w @ p" "concat ps"]
    by (simp add: Write_spec tagged_def)
qed

text \<open>A writer stands for a text: its complete lines have gone out, the rest is in the buffer.\<close>

definition stands_for :: "string \<Rightarrow> string list \<Rightarrow> string \<Rightarrow> prefix_writer \<times> string list \<Rightarrow> bool" where
  "stands_for pre before body = (\<lambda>(w, out). pw_prefix w = pre \<and> pw_buf w = rest_of body \<and>
     out = before @ tagged pre (full_lines body))"

section \<open>Properties\<close>

text \<open>
  C28: the writer refines its specification, a text that grows. If a writer stands for the
  text written to it so far (the complete lines of the text have gone out, each with the
  prefix, and the buffer holds the rest), then after a \<open>Write\<close> it stands for the longer text,
  and the call reports all of its bytes as written.
\<close>

theorem Write_refines_text:
  assumes "stands_for pre before body (w, out)" and "Write w p out = ((n, w'), out')"
  shows "n = length p \<and> stands_for pre before (body @ p) (w', out') \<and> newline \<notin> set (pw_buf w')"
  using assms full_lines_append [of body p] rest_of_append [of body p] rest_of_no_newline [of "body @ p"]
  by (auto simp: stands_for_def Write_spec tagged_def)

theorem Write_refines_text_witness:
  "stands_for ''> '' [] ''ab'' (\<lparr>pw_prefix = ''> '', pw_buf = ''ab''\<rparr>, []) \<and>
   stands_for ''> '' [] (''ab'' @ ''c'' @ [newline] @ ''d'')
     (\<lparr>pw_prefix = ''> '', pw_buf = ''d''\<rparr>, [''> abc'' @ [newline]])"
proof -
  have init: "stands_for ''> '' [] ''ab'' (\<lparr>pw_prefix = ''> '', pw_buf = ''ab''\<rparr>, [])"
    by (simp add: stands_for_def rest_of_def full_lines_def tagged_def)
  have step: "Write \<lparr>pw_prefix = ''> '', pw_buf = ''ab''\<rparr> (''c'' @ [newline] @ ''d'') [] =
      ((3, \<lparr>pw_prefix = ''> '', pw_buf = ''d''\<rparr>), [''> abc'' @ [newline]])"
    by (simp add: Write_spec rest_of_def full_lines_def tagged_def)
  from init Write_refines_text [OF init step] show ?thesis by simp
qed

text \<open>
  The build log on the terminal does not depend on how the output arrives. Whatever the
  chunks are, what is printed is every line of the whole output once, in order, each with
  the tag and written in one piece, and a last line without a newline gets one; without
  streaming nothing is printed.
\<close>

theorem build_log_lines:
  "build_log opts chunks out =
     (if Stream opts
      then out @ tagged ''[build] '' (full_lines (concat chunks)) @
        (if rest_of (concat chunks) = [] then [] else tagged ''[build] '' [rest_of (concat chunks)])
      else out)"
  by (simp add: build_log_def buildOut_def write_chunks_spec Flush_def tagged_def)

end
