(* ===== verification/Pipeline.thy ===== *)
theory Pipeline
  imports Channel Deploy
begin

text \<open>
  \<open>deployment/pipeline.go\<close>: every host goes through build, copy and activation, with the
  stages overlapping across hosts. The goroutines are components of one state; \<open>pstep\<close> lets
  one of them make its next step, named by a label, and is \<open>None\<close> when that step is not
  enabled (a goroutine that waits, or has ended). A call of the machine (a store query, a
  copy, a whole activation, the build) is one step on the shared run; the \<open>Drift\<close> step lets
  the world change in any way at any time, so that a store query may see what a build that
  is still running has produced so far, and no order between the stages is assumed. The
  lines the code prints are left out, and so is the time a copy took, which is only printed.
\<close>

section \<open>Options and results\<close>

datatype on_failure = OnFailureStop | OnFailureContinue | OtherOnFailure string

text \<open>The error carries the offending text.\<close>

definition ParseOnFailure :: "string \<Rightarrow> string + on_failure" where
  "ParseOnFailure s =
     (if s = ''stop'' then Inr OnFailureStop
      else if s = ''continue'' then Inr OnFailureContinue
      else Inl s)"

record pipeline_opts =
  CopyJobs :: int
  OnFailure :: on_failure
  Build :: build_opts

datatype host_status =
  StatusDeployed | StatusBuildFailed | StatusCopyFailed | StatusDeployFailed | StatusCancelled

record host_result =
  hr_host :: host
  hr_status :: host_status

text \<open>The constants count from 0 in this order, which makes the statuses linearly ordered.\<close>

fun status_value :: "host_status \<Rightarrow> nat" where
  "status_value StatusDeployed = 0"
| "status_value StatusBuildFailed = 1"
| "status_value StatusCopyFailed = 2"
| "status_value StatusDeployFailed = 3"
| "status_value StatusCancelled = 4"

lemma status_value_inj: "status_value s = status_value t \<Longrightarrow> s = t"
  by (cases s; cases t) simp_all

instantiation host_status :: linorder
begin

definition less_eq_host_status :: "host_status \<Rightarrow> host_status \<Rightarrow> bool" where
  "less_eq_host_status s t \<longleftrightarrow> status_value s \<le> status_value t"

definition less_host_status :: "host_status \<Rightarrow> host_status \<Rightarrow> bool" where
  "less_host_status s t \<longleftrightarrow> status_value s < status_value t"

instance
  by standard (auto simp: less_eq_host_status_def less_host_status_def dest: status_value_inj)

end

definition status_failed :: "host_status \<Rightarrow> bool" where
  "status_failed s \<longleftrightarrow> s \<noteq> StatusDeployed"

lemma status_failed_less: "status_failed s \<longleftrightarrow> StatusDeployed < s"
  by (cases s) (simp_all add: status_failed_def less_host_status_def)

text \<open>A run has failed as a whole when its greatest status is a failed one.\<close>

lemma worst_status:
  "rs \<noteq> [] \<Longrightarrow> status_failed (Max (set rs)) \<longleftrightarrow> (\<exists>s \<in> set rs. status_failed s)"
  by (auto simp: status_failed_less Max_gr_iff)

section \<open>The goroutines\<close>

text \<open>
  The poller: waiting for a tick or for the end of the build with the hosts left to find;
  in the middle of a sweep (whether it is the last one, the hosts not yet asked about, the
  hosts found missing so far); reporting the hosts that were never built; ended.
\<close>

datatype poll_state =
    Waiting "precheck_result list"
  | Sweeping bool "precheck_result list" "precheck_result list"
  | Marking "precheck_result list"
  | PollEnded

datatype copy_worker = WIdle | WCopying precheck_result | WPutting precheck_result | WExited

datatype drain_state = Draining | Activating precheck_result | Returned

text \<open>What a run of the pipeline is called with.\<close>

record 'w job =
  jctx :: "'w deploy_ctx"
  jquiet :: "'w runner"
  jtodo :: "precheck_result list"
  jextra :: "string list"
  jopts :: pipeline_opts

text \<open>
  The state of a run. \<open>building\<close> says that \<open>buildDone\<close> is not closed yet, \<open>closer\<close> that the
  goroutine that waits for the workers has not closed \<open>actCh\<close> yet, \<open>crashed\<close> that a panic
  happened. \<open>finished\<close> is a ghost: the hosts that left the pipeline, in order, each with
  the status it left with.
\<close>

record 'w pipe =
  copyCh :: "precheck_result chan"
  actCh :: "precheck_result chan"
  results :: "host_result list"
  building :: bool
  poller :: poll_state
  workers :: "copy_worker list"
  closer :: bool
  drainer :: drain_state
  stopped :: bool
  crashed :: bool
  shared :: "'w st"
  finished :: "(precheck_result \<times> host_status) list"

definition job_copies :: "'w job \<Rightarrow> nat" where
  "job_copies J = (if CopyJobs (jopts J) < 1 then 1 else nat (CopyJobs (jopts J)))"

section \<open>Setting a status\<close>

text \<open>
  The index map: a later host of the same name wins, and a name that is not in the map reads
  as index 0, as a Go map does.
\<close>

fun index_from :: "nat \<Rightarrow> precheck_result list \<Rightarrow> (string \<rightharpoonup> nat) \<Rightarrow> (string \<rightharpoonup> nat)" where
  "index_from i [] m = m"
| "index_from i (p # ps) m = index_from (Suc i) ps (m(Name (pr_host p) \<mapsto> i))"

definition index_of_name :: "precheck_result list \<Rightarrow> string \<Rightarrow> nat" where
  "index_of_name todo name = (case index_from 0 todo Map.empty name of Some i \<Rightarrow> i | None \<Rightarrow> 0)"

definition set_status :: "precheck_result list \<Rightarrow> precheck_result \<Rightarrow> host_status
    \<Rightarrow> host_result list \<Rightarrow> host_result list" where
  "set_status todo p st rs =
     (let i = index_of_name todo (Name (pr_host p)) in rs[i := (rs ! i)\<lparr>hr_status := st\<rparr>])"

text \<open>A host leaves the pipeline, with a status that \<open>setStatus\<close> writes unless it is the first one.\<close>

definition leave :: "'w job \<Rightarrow> precheck_result \<Rightarrow> host_status \<Rightarrow> 'w pipe \<Rightarrow> 'w pipe" where
  "leave J p st P =
     P\<lparr>results := (if st = StatusDeployed then results P else set_status (jtodo J) p st (results P)),
       finished := finished P @ [(p, st)]\<rparr>"

section \<open>The start\<close>

fun split_todo :: "precheck_result list \<Rightarrow> precheck_result chan \<Rightarrow> precheck_result list
    \<Rightarrow> (precheck_result chan \<times> precheck_result list) option" where
  "split_todo [] ch need = Some (ch, need)"
| "split_todo (p # ps) ch need =
     (if UpToDate (pr_plan p) then
        (case send ch p of Sent ch' \<Rightarrow> split_todo ps ch' need | _ \<Rightarrow> None)
      else split_todo ps ch (need @ [p]))"

text \<open>\<open>needBuild\<close>, and the derivations of the one build.\<close>

definition need_build :: "precheck_result list \<Rightarrow> precheck_result list" where
  "need_build todo = filter (\<lambda>p. \<not> UpToDate (pr_plan p)) todo"

definition job_drvs :: "'w job \<Rightarrow> string list" where
  "job_drvs J = map (\<lambda>p. DrvPath (pr_plan p)) (need_build (jtodo J)) @ jextra J"

text \<open>
  The state in which the goroutines have been started; \<open>None\<close> if the sends of the hosts that
  are up to date cannot all be made, which would block the function forever.
\<close>

definition pipe_start :: "'w job \<Rightarrow> 'w st \<Rightarrow> 'w pipe option" where
  "pipe_start J s =
     (case split_todo (jtodo J) (make_chan (length (jtodo J))) [] of
        None \<Rightarrow> None
      | Some (act, need) \<Rightarrow> Some
          \<lparr>copyCh = make_chan (length (jtodo J)), actCh = act,
           results = map (\<lambda>p. \<lparr>hr_host = pr_host p, hr_status = StatusDeployed\<rparr>) (jtodo J),
           building = True,
           poller = Waiting (sort_key (\<lambda>p. Order (pr_host p)) need),
           workers = replicate (job_copies J) WIdle, closer = True,
           drainer = Draining, stopped = False, crashed = False, shared = s, finished = []\<rparr>)"

section \<open>The steps\<close>

datatype 'w label =
    Drift 'w
  | FinishBuild
  | Tick
  | SeeBuilt
  | PollOne
  | Take nat
  | Copy nat
  | Put nat
  | CloseAct
  | Receive
  | Activate

definition send_to_copy :: "precheck_result \<Rightarrow> 'w pipe \<Rightarrow> 'w pipe option" where
  "send_to_copy p P =
     (case send (copyCh P) p of
        Sent c \<Rightarrow> Some (P\<lparr>copyCh := c\<rparr>)
      | Full \<Rightarrow> None
      | SendPanic \<Rightarrow> Some (P\<lparr>crashed := True\<rparr>))"

definition send_to_act :: "precheck_result \<Rightarrow> 'w pipe \<Rightarrow> 'w pipe option" where
  "send_to_act p P =
     (case send (actCh P) p of
        Sent c \<Rightarrow> Some (P\<lparr>actCh := c\<rparr>)
      | Full \<Rightarrow> None
      | SendPanic \<Rightarrow> Some (P\<lparr>crashed := True\<rparr>))"

text \<open>The poller ends, which closes \<open>copyCh\<close>.\<close>

definition end_poller :: "'w pipe \<Rightarrow> 'w pipe" where
  "end_poller P =
     (case close (copyCh P) of
        Some c \<Rightarrow> P\<lparr>copyCh := c, poller := PollEnded\<rparr>
      | None \<Rightarrow> P\<lparr>crashed := True\<rparr>)"

definition poll_one :: "'w job \<Rightarrow> 'w pipe \<Rightarrow> 'w pipe option" where
  "poll_one J P =
     (case poller P of
        Waiting [] \<Rightarrow> Some (end_poller P)
      | Sweeping final (p # rest) missing \<Rightarrow>
          (let (built, s) = BuiltOK (jquiet J) (SystemPath (pr_plan p)) (shared P);
               P = P\<lparr>shared := s\<rparr> in
           if built then send_to_copy p (P\<lparr>poller := Sweeping final rest missing\<rparr>)
           else Some (P\<lparr>poller := Sweeping final rest (missing @ [p])\<rparr>))
      | Sweeping final [] missing \<Rightarrow>
          Some (P\<lparr>poller := (if final then Marking missing else Waiting missing)\<rparr>)
      | Marking (p # ps) \<Rightarrow> Some (leave J p StatusBuildFailed (P\<lparr>poller := Marking ps\<rparr>))
      | Marking [] \<Rightarrow> Some (end_poller P)
      | _ \<Rightarrow> None)"

definition finish_build :: "'w job \<Rightarrow> 'w pipe \<Rightarrow> 'w pipe option" where
  "finish_build J P =
     (if \<not> building P then None
      else if job_drvs J = [] then Some (P\<lparr>building := False\<rparr>)
      else let (ok, s) = BuildAll (ctx_runner (jctx J)) (job_drvs J) (Build (jopts J)) (shared P) in
        Some (P\<lparr>building := False, shared := s\<rparr>))"

definition start_sweep :: "bool \<Rightarrow> 'w pipe \<Rightarrow> 'w pipe option" where
  "start_sweep final P =
     (case poller P of
        Waiting (p # ps) \<Rightarrow> Some (P\<lparr>poller := Sweeping final (p # ps) []\<rparr>)
      | _ \<Rightarrow> None)"

definition take_step :: "nat \<Rightarrow> 'w pipe \<Rightarrow> 'w pipe option" where
  "take_step i P =
     (if i < length (workers P) \<and> workers P ! i = WIdle then
        (case receive (copyCh P) of
           Got p c \<Rightarrow> Some (P\<lparr>copyCh := c, workers := (workers P)[i := WCopying p]\<rparr>)
         | Drained \<Rightarrow> Some (P\<lparr>workers := (workers P)[i := WExited]\<rparr>)
         | Empty \<Rightarrow> None)
      else None)"

definition copy_step :: "'w job \<Rightarrow> nat \<Rightarrow> 'w pipe \<Rightarrow> 'w pipe option" where
  "copy_step J i P =
     (if i < length (workers P) then
        (case workers P ! i of
           WCopying p \<Rightarrow>
             (let (ok, s) = CopyClosure (jquiet J) (pr_host p) (SystemPath (pr_plan p)) (shared P);
                  P = P\<lparr>shared := s\<rparr> in
              if \<not> ok then Some (leave J p StatusCopyFailed (P\<lparr>workers := (workers P)[i := WIdle]\<rparr>))
              else Some (P\<lparr>workers := (workers P)[i := WPutting p]\<rparr>))
         | _ \<Rightarrow> None)
      else None)"

definition put_step :: "nat \<Rightarrow> 'w pipe \<Rightarrow> 'w pipe option" where
  "put_step i P =
     (if i < length (workers P) then
        (case workers P ! i of
           WPutting p \<Rightarrow> send_to_act p (P\<lparr>workers := (workers P)[i := WIdle]\<rparr>)
         | _ \<Rightarrow> None)
      else None)"

text \<open>\<open>wg.Wait(); close(actCh)\<close>.\<close>

definition close_act :: "'w pipe \<Rightarrow> 'w pipe option" where
  "close_act P =
     (if closer P \<and> list_all (\<lambda>w. w = WExited) (workers P) then
        (case close (actCh P) of
           Some c \<Rightarrow> Some (P\<lparr>actCh := c, closer := False\<rparr>)
         | None \<Rightarrow> Some (P\<lparr>crashed := True\<rparr>))
      else None)"

definition receive_step :: "'w job \<Rightarrow> 'w pipe \<Rightarrow> 'w pipe option" where
  "receive_step J P =
     (if drainer P = Draining then
        (case receive (actCh P) of
           Got p c \<Rightarrow>
             (let P = P\<lparr>actCh := c\<rparr> in
              if stopped P then Some (leave J p StatusCancelled P)
              else Some (P\<lparr>drainer := Activating p\<rparr>))
         | Drained \<Rightarrow> Some (P\<lparr>drainer := Returned\<rparr>)
         | Empty \<Rightarrow> None)
      else None)"

definition activate_step :: "'w job \<Rightarrow> 'w pipe \<Rightarrow> 'w pipe option" where
  "activate_step J P =
     (case drainer P of
        Activating p \<Rightarrow>
          (let (ok, s) = Deploy (jctx J) (pr_host p) ModeSafe (pr_plan p) (shared P);
               s = dropSSHMaster (ctx_runner (jctx J)) (pr_host p) s;
               P = P\<lparr>shared := s, drainer := Draining\<rparr> in
           if ok then Some (leave J p StatusDeployed P)
           else
             let P = leave J p StatusDeployFailed P in
             if InGroup (pr_host p) ''k3s'' then Some (P\<lparr>stopped := True\<rparr>)
             else if OnFailure (jopts J) = OnFailureStop then Some (P\<lparr>stopped := True\<rparr>)
             else Some P)
      | _ \<Rightarrow> None)"

text \<open>A process that panics takes the whole program down: no step after that.\<close>

fun pstep :: "'w job \<Rightarrow> 'w label \<Rightarrow> 'w pipe \<Rightarrow> 'w pipe option" where
  "pstep J l P =
     (if crashed P then None
      else case l of
        Drift w \<Rightarrow> Some (P\<lparr>shared := (shared P)\<lparr>world := w\<rparr>\<rparr>)
      | FinishBuild \<Rightarrow> finish_build J P
      | Tick \<Rightarrow> start_sweep False P
      | SeeBuilt \<Rightarrow> if building P then None else start_sweep True P
      | PollOne \<Rightarrow> poll_one J P
      | Take i \<Rightarrow> take_step i P
      | Copy i \<Rightarrow> copy_step J i P
      | Put i \<Rightarrow> put_step i P
      | CloseAct \<Rightarrow> close_act P
      | Receive \<Rightarrow> receive_step J P
      | Activate \<Rightarrow> activate_step J P)"

declare pstep.simps [simp del]

text \<open>The states a run can be in.\<close>

inductive reaches :: "'w job \<Rightarrow> 'w st \<Rightarrow> 'w pipe \<Rightarrow> bool" for J s where
  started: "pipe_start J s = Some P \<Longrightarrow> reaches J s P"
| stepped: "reaches J s P \<Longrightarrow> pstep J l P = Some P' \<Longrightarrow> reaches J s P'"

text \<open>
  The function itself: without hosts it only builds the extra derivations; otherwise it
  returns when the activation worker has drained its channel, with the results of that
  moment. The other goroutines may still be running then.
\<close>

inductive RunPipeline :: "'w job \<Rightarrow> 'w st \<Rightarrow> host_result list \<Rightarrow> 'w st \<Rightarrow> bool" where
  no_hosts: "jtodo J = [] \<Longrightarrow>
    s' = (if jextra J \<noteq> []
          then snd (BuildAll (ctx_runner (jctx J)) (jextra J) (Build (jopts J)) s) else s) \<Longrightarrow>
    RunPipeline J s [] s'"
| drained: "jtodo J \<noteq> [] \<Longrightarrow> reaches J s P \<Longrightarrow> drainer P = Returned \<Longrightarrow>
    RunPipeline J s (results P) (shared P)"

inductive_cases RunPipelineE: "RunPipeline J s rs s'"

end
