(* ===== verification/Cli.thy ===== *)
theory Cli
  imports Go_Flags Output Pipeline
begin

text \<open>
  \<open>deployment/main.go\<close>: the command line, the selection of the hosts, the run itself and its
  exit code. What the outside supplies is the record \<open>env\<close>: the machine, the host name, and
  what is left to read from standard input. The handler of SIGINT and SIGTERM and the
  progress lines are left out; the plan and the summary are printed by \<open>printPlan\<close> and
  \<open>printSummary\<close>.
\<close>

section \<open>The command line\<close>

record cli_args =
  arg_hosts :: "string list"
  arg_mode :: deploy_mode
  arg_reboot :: reboot_flag
  arg_force :: bool
  arg_self :: bool
  arg_build :: bool
  arg_copy_jobs :: int
  arg_max_jobs :: int
  arg_cores :: int
  arg_on_failure :: on_failure

definition hostsFlagUsage :: "host list \<Rightarrow> string" where
  "hostsFlagUsage all =
     (let def = HostNames all Default;
          optIn = HostNames all (\<lambda>h. \<not> Default h);
          s = ''Comma-separated host names (default: '' @ Join def '','' @ '')''
      in if optIn \<noteq> [] then s @ ''; built only unless named: '' @ Join optIn '','' else s)"

definition defaultCopyJobs :: int where
  "defaultCopyJobs = 4"

text \<open>The error of each check, in the order of the checks.\<close>

datatype cli_error =
    FlagError flag_error
  | UnexpectedArguments "string list"
  | InvalidMode string
  | InvalidReboot string
  | RebootNotInBootMode reboot_flag
  | InvalidOnFailure string
  | TooFewCopyJobs int

definition deploy_flags :: flags where
  "deploy_flags =
     [''hosts'' \<mapsto> FString [], ''mode'' \<mapsto> FString ''safe'', ''reboot'' \<mapsto> FString ''never'',
      ''force'' \<mapsto> FBool False, ''self'' \<mapsto> FBool False, ''build'' \<mapsto> FBool False,
      ''copy-jobs'' \<mapsto> FInt defaultCopyJobs, ''max-jobs'' \<mapsto> FInt 0, ''cores'' \<mapsto> FInt 0,
      ''on-failure'' \<mapsto> FString ''stop'']"

definition split_hosts :: "string \<Rightarrow> string list" where
  "split_hosts csv =
     (if csv \<noteq> [] then filter (\<lambda>t. t \<noteq> []) (map TrimSpace (Split csv CHR '','')) else [])"

definition read_args :: "flags \<Rightarrow> cli_error + cli_args" where
  "read_args fs =
     (case ParseMode (string_flag fs ''mode'') of
        Inl m \<Rightarrow> Inl (InvalidMode m)
      | Inr mode \<Rightarrow>
          case ParseRebootFlag (string_flag fs ''reboot'') of
            Inl r \<Rightarrow> Inl (InvalidReboot r)
          | Inr reboot \<Rightarrow>
              if mode = ModeBoot \<and> (reboot = RebootFlagAuto \<or> reboot = RebootFlagAsk)
              then Inl (RebootNotInBootMode reboot)
              else
                case ParseOnFailure (string_flag fs ''on-failure'') of
                  Inl f \<Rightarrow> Inl (InvalidOnFailure f)
                | Inr onFail \<Rightarrow>
                    if int_flag fs ''copy-jobs'' < 1
                    then Inl (TooFewCopyJobs (int_flag fs ''copy-jobs''))
                    else Inr
                      \<lparr>arg_hosts = split_hosts (string_flag fs ''hosts''), arg_mode = mode,
                       arg_reboot = reboot, arg_force = bool_flag fs ''force'',
                       arg_self = bool_flag fs ''self'', arg_build = bool_flag fs ''build'',
                       arg_copy_jobs = int_flag fs ''copy-jobs'',
                       arg_max_jobs = int_flag fs ''max-jobs'', arg_cores = int_flag fs ''cores'',
                       arg_on_failure = onFail\<rparr>)"

definition parseArgs :: "string list \<Rightarrow> cli_error + cli_args" where
  "parseArgs argv =
     (case parse_flags deploy_flags argv of
        Inl e \<Rightarrow> Inl (FlagError e)
      | Inr (fs, rest) \<Rightarrow> if rest \<noteq> [] then Inl (UnexpectedArguments rest) else read_args fs)"

definition buildOpts :: "cli_args \<Rightarrow> build_opts" where
  "buildOpts a = \<lparr>MaxJobs = arg_max_jobs a, Cores = arg_cores a, Stream = (arg_reboot a \<noteq> RebootFlagAsk)\<rparr>"

definition pipelineOpts :: "cli_args \<Rightarrow> pipeline_opts" where
  "pipelineOpts a = \<lparr>CopyJobs = arg_copy_jobs a, OnFailure = arg_on_failure a, Build = buildOpts a\<rparr>"

section \<open>Asking the operator\<close>

text \<open>
  Standard input is the list of what its next reads return; it has ended when nothing is
  left. \<open>ReadString\<close> reads until a newline has arrived, and \<open>None\<close> is the end of the input
  before one. A new reader is made for each prompt, so what it has buffered beyond the line
  is lost.
\<close>

fun read_line :: "string \<Rightarrow> string list \<Rightarrow> string option \<times> string list" where
  "read_line acc [] = (None, [])"
| "read_line acc (c # cs) =
     (case IndexByte (acc @ c) newline of
        Some i \<Rightarrow> (Some (take (i + 1) (acc @ c)), cs)
      | None \<Rightarrow> read_line (acc @ c) cs)"

definition stdinPrompter :: "('w \<Rightarrow> string list) \<Rightarrow> (string list \<Rightarrow> 'w \<Rightarrow> 'w) \<Rightarrow> string \<Rightarrow> 'w \<Rightarrow> bool \<times> 'w" where
  "stdinPrompter input set_input prompt w =
     (let (line, rest) = read_line [] (input w); w = set_input rest w in
      case line of
        None \<Rightarrow> (False, w)
      | Some l \<Rightarrow> (equal_fold_y (TrimSpace l), w))"

section \<open>What is printed\<close>

definition heading :: "string \<Rightarrow> string" where
  "heading title =
     (let rule = replicate 60 CHR ''='' in
      [newline] @ rule @ [newline] @ title @ [newline] @ rule @ [newline])"

text \<open>\<open>%-13s\<close> pads by runes; \<open>%v\<close> of a list puts its elements in brackets.\<close>

definition rune_count :: "string \<Rightarrow> nat" where
  "rune_count s = length (filter (\<lambda>c. char_code c < 128 \<or> 192 \<le> char_code c) s)"

definition pad13 :: "string \<Rightarrow> string" where
  "pad13 s = s @ replicate (13 - rune_count s) CHR '' ''"

definition show_list :: "string list \<Rightarrow> string" where
  "show_list xs = ''['' @ Join xs '' '' @ '']''"

definition plan_line :: "precheck_result \<Rightarrow> string" where
  "plan_line p =
     (let name = pad13 (Name (pr_host p)) in
      if pr_skip p \<and> pr_failed p then
        ''  '' @ [CHR 0xE2, CHR 0x9C, CHR 0x97] @ '' '' @ name @ '' '' @ pr_reason p @ [newline]
      else if pr_skip p then
        ''  '' @ [CHR 0xE2, CHR 0x8A, CHR 0x98] @ '' '' @ name @ '' '' @ pr_reason p @ [newline]
      else if UpToDate (pr_plan p) then
        ''  = '' @ name @ '' up to date (no build or copy)'' @ [newline]
      else
        ''  '' @ [CHR 0xE2, CHR 0x86, CHR 0x92] @ '' '' @ name @ '' deploy ''
          @ SystemPath (pr_plan p) @ [newline])"

definition printPlan :: "precheck_result list \<Rightarrow> host list \<Rightarrow> string" where
  "printPlan pre buildOnly =
     heading ''Plan'' @ concat (map plan_line pre) @
     concat (map (\<lambda>h. ''  '' @ [CHR 0xE2, CHR 0x9A, CHR 0x92] @ '' '' @ pad13 (Name h)
       @ '' build only (not deployed)'' @ [newline]) buildOnly)"

record summary =
  sm_warnings :: "string list"
  sm_skipped :: "string list"
  sm_failed :: "string list"
  sm_build_failed :: "string list"

definition printSummary :: "summary \<Rightarrow> string" where
  "printSummary m =
     heading ''Summary'' @
     (if sm_warnings m \<noteq> [] then
        [newline] @ ''Warnings:'' @ [newline] @
        concat (map (\<lambda>w. ''  '' @ [CHR 0xE2, CHR 0x9A, CHR 0xA0] @ '' '' @ w @ [newline]) (sm_warnings m))
      else []) @
     (if sm_skipped m \<noteq> [] then
        [newline] @ ''Skipped hosts: '' @ show_list (sm_skipped m) @ [newline] else []) @
     (if sm_failed m \<noteq> [] then
        [newline] @ ''Failed hosts: '' @ show_list (sm_failed m) @ [newline] else []) @
     (if sm_build_failed m \<noteq> [] then
        [newline] @ ''Failed builds (not deployed): '' @ show_list (sm_build_failed m) @ [newline]
      else [])"

section \<open>The parts of a run\<close>

record 'w env =
  env_machine :: "'w machine"
  env_hostname :: "string + string"
  env_input :: "'w \<Rightarrow> string list"
  env_set_input :: "string list \<Rightarrow> 'w \<Rightarrow> 'w"

text \<open>The names asked for, with \<open>--self\<close>; the error of \<open>os.Hostname\<close>.\<close>

definition requested :: "'w env \<Rightarrow> cli_args \<Rightarrow> string + string list" where
  "requested E args =
     (if arg_self args then
        (case env_hostname E of
           Inl err \<Rightarrow> Inl err
         | Inr hn \<Rightarrow> Inr (arg_hosts args @ [before_first hn CHR ''.'']))
      else Inr (arg_hosts args))"

text \<open>
  The hosts that are not in the store, in order. The world may change before each query:
  \<open>drift n\<close> is what has happened before the query about host \<open>n\<close>, which after a pipeline run
  includes what a build that is still running has produced.
\<close>

fun not_built :: "(nat \<Rightarrow> 'w \<Rightarrow> 'w) \<Rightarrow> 'w runner \<Rightarrow> (string \<rightharpoonup> toplevel) \<Rightarrow> nat \<Rightarrow> host list \<Rightarrow> string list
    \<Rightarrow> 'w st \<Rightarrow> string list \<times> 'w st" where
  "not_built drift r paths n [] failed s = (failed, s)"
| "not_built drift r paths n (h # hs) failed s =
     (let s = s\<lparr>world := drift n (world s)\<rparr>;
          (built, s) = BuiltOK r (Out (toplevel_of paths h)) s in
      not_built drift r paths (Suc n) hs (if \<not> built then failed @ [Name h] else failed) s)"

definition exit_code :: "string list \<Rightarrow> string list \<Rightarrow> int" where
  "exit_code failed buildFailed = (if failed \<noteq> [] \<or> buildFailed \<noteq> [] then 1 else 0)"

text \<open>\<open>--build\<close>: everything selected is built, nothing is deployed, no target is contacted.\<close>

definition build_only_run :: "'w env \<Rightarrow> cli_args \<Rightarrow> nat list \<Rightarrow> host list \<Rightarrow> host list \<Rightarrow> 'w st \<Rightarrow> int \<times> 'w st" where
  "build_only_run E args sched hosts buildOnly s =
     (let hosts = sort_key Order (hosts @ buildOnly);
          runner = \<lparr>Quiet = False, Control = None, os = env_machine E\<rparr>;
          (res, s) = ResolveToplevels (runner\<lparr>Quiet := True\<rparr>) sched hosts s in
      case res of
        Inl errs \<Rightarrow> (1, s)
      | Inr tops \<Rightarrow>
          let drvs = map (\<lambda>h. Drv (toplevel_of tops h)) hosts;
              (ok, s) = BuildAll runner drvs (buildOpts args) s;
              (failed, s) = not_built (\<lambda>n w. w) runner tops 0 hosts [] s in
          (exit_code [] failed, s))"

fun triage :: "precheck_result list \<Rightarrow> string list \<Rightarrow> string list \<Rightarrow> precheck_result list
    \<Rightarrow> string list \<times> string list \<times> precheck_result list" where
  "triage [] failed skipped todo = (failed, skipped, todo)"
| "triage (p # ps) failed skipped todo =
     (if pr_skip p \<and> pr_failed p then triage ps (failed @ [Name (pr_host p)]) skipped todo
      else if pr_skip p then triage ps failed (skipped @ [Name (pr_host p)]) todo
      else triage ps failed skipped (todo @ [p]))"

text \<open>The first Kubernetes node that failed the precheck.\<close>

fun k3s_down :: "precheck_result list \<Rightarrow> precheck_result option" where
  "k3s_down [] = None"
| "k3s_down (p # ps) =
     (if pr_skip p \<and> pr_failed p \<and> InGroup (pr_host p) ''k3s'' then Some p else k3s_down ps)"

text \<open>The switch and boot modes: one host after the other.\<close>

fun serial :: "'w deploy_ctx \<Rightarrow> 'w runner \<Rightarrow> cli_args \<Rightarrow> precheck_result list \<Rightarrow> string list \<Rightarrow> 'w st
    \<Rightarrow> string list \<times> 'w st" where
  "serial c quiet args [] failed s = (failed, s)"
| "serial c quiet args (p # ps) failed s =
     (let (ok, s) = Deploy c (pr_host p) (arg_mode args) (pr_plan p) s;
          s = Drop quiet (pr_host p) s in
      if ok then serial c quiet args ps failed s
      else
        let failed = failed @ [Name (pr_host p)] in
        if InGroup (pr_host p) ''k3s'' then (failed, s)
        else if arg_on_failure args = OnFailureStop then (failed, s)
        else serial c quiet args ps failed s)"

definition quiet_runner :: "'w env \<Rightarrow> ssh_control option \<Rightarrow> 'w runner" where
  "quiet_runner E ctl = \<lparr>Quiet = True, Control = ctl, os = env_machine E\<rparr>"

definition run_ctx :: "'w env \<Rightarrow> cli_args \<Rightarrow> ssh_control option \<Rightarrow> 'w deploy_ctx" where
  "run_ctx E args ctl =
     \<lparr>ctx_runner = \<lparr>Quiet = False, Control = ctl, os = env_machine E\<rparr>,
      Prompter = Some (stdinPrompter (env_input E) (env_set_input E)),
      RebootFlag = arg_reboot args, collects = True\<rparr>"

definition pipeline_job :: "'w env \<Rightarrow> cli_args \<Rightarrow> ssh_control option \<Rightarrow> precheck_result list \<Rightarrow> string list
    \<Rightarrow> 'w job" where
  "pipeline_job E args ctl todo extraDrvs =
     \<lparr>jctx = run_ctx E args ctl, jquiet = quiet_runner E ctl, jtodo = todo, jextra = extraDrvs,
      jopts = pipelineOpts args\<rparr>"

definition failed_hosts :: "host_result list \<Rightarrow> string list" where
  "failed_hosts rs = map (\<lambda>r. Name (hr_host r)) (filter (\<lambda>r. status_failed (hr_status r)) rs)"

text \<open>Deploying what is to do, by mode: the names of the hosts that failed.\<close>

inductive deploy_todo :: "'w env \<Rightarrow> cli_args \<Rightarrow> ssh_control option \<Rightarrow> precheck_result list \<Rightarrow> string list
    \<Rightarrow> 'w st \<Rightarrow> string list \<Rightarrow> 'w st \<Rightarrow> bool" where
  pipelined: "arg_mode args = ModeSafe \<Longrightarrow>
    RunPipeline (pipeline_job E args ctl todo extraDrvs) s rs s' \<Longrightarrow>
    deploy_todo E args ctl todo extraDrvs s (failed_hosts rs) s'"
| one_by_one: "arg_mode args \<noteq> ModeSafe \<Longrightarrow>
    serial (run_ctx E args ctl) (quiet_runner E ctl) args todo [] s = (failed, t) \<Longrightarrow>
    s' = (if extraDrvs \<noteq> []
          then snd (BuildAll (ctx_runner (run_ctx E args ctl)) extraDrvs (buildOpts args) t) else t) \<Longrightarrow>
    deploy_todo E args ctl todo extraDrvs s failed s'"

text \<open>
  The body after the control directory has been made: its exit code, and the summary it
  prints unless the evaluation failed. The evaluations and the probes run concurrently, in
  an order that is not fixed.
\<close>

inductive deploy_run :: "'w env \<Rightarrow> cli_args \<Rightarrow> host list \<Rightarrow> host list \<Rightarrow> ssh_control option
    \<Rightarrow> 'w st \<Rightarrow> int \<times> summary option \<Rightarrow> 'w st \<Rightarrow> bool" where
  not_resolved: "schedule_of (hosts @ buildOnly) es \<Longrightarrow>
    ResolveToplevels (quiet_runner E ctl) es (hosts @ buildOnly) s = (Inl errs, s') \<Longrightarrow>
    deploy_run E args hosts buildOnly ctl s (1, None) s'"
| k3s_aborts: "schedule_of (hosts @ buildOnly) es \<Longrightarrow>
    ResolveToplevels (quiet_runner E ctl) es (hosts @ buildOnly) s = (Inr paths, t) \<Longrightarrow>
    schedule_of hosts ps \<Longrightarrow>
    PrecheckAll (quiet_runner E ctl) ps hosts paths (arg_force args) t = (pre, s') \<Longrightarrow>
    triage pre [] [] [] = (failed, skipped, todo) \<Longrightarrow>
    k3s_down pre = Some p \<Longrightarrow>
    deploy_run E args hosts buildOnly ctl s
      (1, Some \<lparr>sm_warnings = warnings s', sm_skipped = skipped, sm_failed = failed,
               sm_build_failed = []\<rparr>) s'"
| processed: "schedule_of (hosts @ buildOnly) es \<Longrightarrow>
    ResolveToplevels (quiet_runner E ctl) es (hosts @ buildOnly) s = (Inr paths, t) \<Longrightarrow>
    schedule_of hosts ps \<Longrightarrow>
    PrecheckAll (quiet_runner E ctl) ps hosts paths (arg_force args) t = (pre, u) \<Longrightarrow>
    triage pre [] [] [] = (failed, skipped, todo) \<Longrightarrow>
    k3s_down pre = None \<Longrightarrow>
    deploy_todo E args ctl todo (map (\<lambda>h. Drv (toplevel_of paths h)) buildOnly) u fell v \<Longrightarrow>
    not_built drift (quiet_runner E ctl) paths 0 buildOnly [] v = (buildFailed, s') \<Longrightarrow>
    deploy_run E args hosts buildOnly ctl s
      (exit_code (failed @ fell) buildFailed,
       Some \<lparr>sm_warnings = warnings s', sm_skipped = skipped, sm_failed = failed @ fell,
             sm_build_failed = buildFailed\<rparr>) s'"

text \<open>\<open>run\<close>: a run starts with no warnings; the control directory is closed whatever happened.\<close>

inductive run :: "'w env \<Rightarrow> string list \<Rightarrow> 'w st \<Rightarrow> int \<times> summary option \<Rightarrow> 'w st \<Rightarrow> bool" where
  bad_args: "parseArgs argv = Inl err \<Longrightarrow> run E argv s (2, None) s"
| no_hostname: "parseArgs argv = Inr args \<Longrightarrow> requested E args = Inl err \<Longrightarrow> run E argv s (1, None) s"
| bad_hosts: "parseArgs argv = Inr args \<Longrightarrow> requested E args = Inr names \<Longrightarrow>
    SelectHosts AllHosts names = Inl unknown \<Longrightarrow> run E argv s (1, None) s"
| built_only: "parseArgs argv = Inr args \<Longrightarrow> requested E args = Inr names \<Longrightarrow>
    SelectHosts AllHosts names = Inr hosts \<Longrightarrow> arg_build args \<Longrightarrow>
    schedule_of (hosts @ BuildOnlyHosts AllHosts names) es \<Longrightarrow>
    build_only_run E args es hosts (BuildOnlyHosts AllHosts names) s = (code, s') \<Longrightarrow>
    run E argv s (code, None) s'"
| no_control: "parseArgs argv = Inr args \<Longrightarrow> requested E args = Inr names \<Longrightarrow>
    SelectHosts AllHosts names = Inr hosts \<Longrightarrow> \<not> arg_build args \<Longrightarrow>
    NewSSHControl (env_machine E) s = (Inl err, s') \<Longrightarrow> run E argv s (1, None) s'"
| deployed: "parseArgs argv = Inr args \<Longrightarrow> requested E args = Inr names \<Longrightarrow>
    SelectHosts AllHosts names = Inr hosts \<Longrightarrow> \<not> arg_build args \<Longrightarrow>
    NewSSHControl (env_machine E) s = (Inr ctl, t) \<Longrightarrow>
    deploy_run E args hosts (BuildOnlyHosts AllHosts names) ctl t out u \<Longrightarrow>
    run E argv s out (Close (quiet_runner E ctl) u)"

inductive_cases deploy_todoE: "deploy_todo E args ctl todo extraDrvs s failed s'"
inductive_cases deploy_runE: "deploy_run E args hosts buildOnly ctl s out s'"
inductive_cases runE: "run E argv s out s'"

end
