(* ===== verification/Cli_Args.thy ===== *)
theory Cli_Args
  imports Cli
begin

text \<open>
  The command line as a format: what \<open>parseArgs\<close> accepts is well formed, and the arguments
  written back in their canonical form parse to themselves.
\<close>

section \<open>Numbers\<close>

lemma read_digits_append:
  "read_digits b n (xs @ ys) = (case read_digits b n xs of None \<Rightarrow> None | Some m \<Rightarrow> read_digits b m ys)"
  by (induction b n xs rule: read_digits.induct) (auto split: option.split)

lemma digit_facts:
  assumes "0 \<le> d" and "d < 10"
  shows "digit_value (''0123456789'' ! nat d) = Some d" and "''0123456789'' ! nat d \<noteq> CHR ''_''"
    and "''0123456789'' ! nat d = CHR ''0'' \<longleftrightarrow> d = 0"
    and "''0123456789'' ! nat d \<noteq> CHR ''-''" and "''0123456789'' ! nat d \<noteq> CHR ''+''"
proof -
  have "d = 0 \<or> d = 1 \<or> d = 2 \<or> d = 3 \<or> d = 4 \<or> d = 5 \<or> d = 6 \<or> d = 7 \<or> d = 8 \<or> d = 9"
    using assms by presburger
  then show "digit_value (''0123456789'' ! nat d) = Some d" "''0123456789'' ! nat d \<noteq> CHR ''_''"
    "''0123456789'' ! nat d = CHR ''0'' \<longleftrightarrow> d = 0"
    "''0123456789'' ! nat d \<noteq> CHR ''-''" "''0123456789'' ! nat d \<noteq> CHR ''+''"
    by (elim disjE; simp add: digit_value_def char_code_def)+
qed

lemma digits_of_step:
  "digits_of n =
     (if n < 10 then [''0123456789'' ! nat n] else digits_of (n div 10) @ [''0123456789'' ! nat (n mod 10)])"
  by (rule digits_of.simps)

lemma digits_of_facts:
  assumes "0 \<le> n"
  shows "read_digits 10 0 (digits_of n) = Some n \<and> CHR ''_'' \<notin> set (digits_of n) \<and> digits_of n \<noteq> [] \<and>
    (hd (digits_of n) = CHR ''0'' \<longleftrightarrow> n = 0) \<and> hd (digits_of n) \<noteq> CHR ''-'' \<and> hd (digits_of n) \<noteq> CHR ''+''"
  using assms
proof (induction n rule: digits_of.induct)
  case (1 n)
  show ?case
  proof (cases "n < 10")
    case True
    then show ?thesis using digit_facts [of n] 1(2) by (simp add: digits_of_step [of n])
  next
    case False
    have d: "0 \<le> n mod 10" "n mod 10 < 10" by simp_all
    have q: "0 < n div 10" using False by linarith
    note IH = 1(1) [OF False order_less_imp_le [OF q]]
    show ?thesis
      using IH digit_facts [OF d] q False
      by (simp add: digits_of_step [of n] read_digits_append hd_append)
  qed
qed

lemma ParseUint_digits: "0 \<le> n \<Longrightarrow> n < 2 ^ 64 \<Longrightarrow> ParseUint (digits_of n) = Some n"
proof (cases "n = 0")
  case True
  then show ?thesis
    by (simp add: digits_of_step ParseUint_def base_prefix_def Let_def)
next
  case False
  assume "0 \<le> n" "n < 2 ^ 64"
  then show ?thesis using digits_of_facts [of n] False by (simp add: ParseUint_def Let_def)
qed

lemma ParseInt_Itoa:
  assumes "- (2 ^ 63) \<le> i" and "i < 2 ^ 63"
  shows "ParseInt (Itoa i) = Some i"
proof (cases "i < 0")
  case True
  then show ?thesis using ParseUint_digits [of "- i"] assms
    by (simp add: ParseInt_def Itoa_def Let_def)
next
  case False
  then show ?thesis using ParseUint_digits [of i] digits_of_facts [of i] assms
    by (simp add: ParseInt_def Itoa_def Let_def)
qed

section \<open>One flag\<close>

definition show_flag :: "string \<Rightarrow> string \<Rightarrow> string" where
  "show_flag name val = CHR ''-'' # name @ CHR ''='' # val"

definition show_bool :: "bool \<Rightarrow> string" where
  "show_bool b = (if b then ''true'' else ''false'')"

lemma ParseBool_show: "ParseBool (show_bool b) = Some b"
  by (cases b) (simp_all add: ParseBool_def show_bool_def)

lemma split_flag_show:
  assumes "name \<noteq> []" and "CHR ''='' \<notin> set name"
  shows "split_flag (name @ CHR ''='' # val) = (name, Some val)"
proof -
  have "IndexByte (tl (name @ CHR ''='' # val)) CHR ''='' = Some (length (tl name))"
    using assms IndexByte_first [of "CHR ''=''" "tl name" val] by (cases name) auto
  then show ?thesis using assms(1) by (cases name) (simp_all add: split_flag_def)
qed

lemma parse_flags_show:
  assumes "name \<noteq> []" and "CHR ''='' \<notin> set name" and "hd name \<noteq> CHR ''-''"
    and "fs name = Some f" and "set_value f val = Some v"
  shows "parse_flags fs (show_flag name val # rest) = parse_flags (fs(name \<mapsto> v)) rest"
proof -
  obtain c cs where n: "name = c # cs" using assms(1) by (cases name) auto
  have "parse_one fs (show_flag name val # rest) = Inr (Some (fs(name \<mapsto> v)), rest)"
    using assms split_flag_show [OF assms(1,2), of val]
    by (auto simp: parse_one_def show_flag_def n parse_flag_def set_flag_def)
  then show ?thesis by (simp add: parse_flags.simps [of fs "show_flag name val # rest"])
qed

lemma parse_flags_end: "parse_flags fs [] = Inr (fs, [])"
  by (simp add: parse_flags.simps [of fs "[]"] parse_one_def)

section \<open>The host list\<close>

definition host_name_ok :: "string \<Rightarrow> bool" where
  "host_name_ok h \<longleftrightarrow> h \<noteq> [] \<and> TrimSpace h = h \<and> CHR '','' \<notin> set h"

lemma split_hosts_Join:
  assumes "\<forall>h \<in> set hs. host_name_ok h"
  shows "split_hosts (Join hs '','') = hs"
proof (cases "hs = []")
  case False
  then have "Split (Join hs '','') CHR '','' = hs"
    using assms by (intro Split_Join) (auto simp: host_name_ok_def)
  moreover have "map TrimSpace hs = hs" using assms by (intro map_idI) (simp add: host_name_ok_def)
  moreover have "filter (\<lambda>t. t \<noteq> []) hs = hs" using assms by (simp add: host_name_ok_def)
  moreover have "Join hs '','' \<noteq> []"
    using False assms by (cases hs; cases "tl hs") (auto simp: host_name_ok_def)
  ultimately show ?thesis by (simp add: split_hosts_def)
qed (simp add: split_hosts_def)

lemma set_trim_right: "set (trim_right s) \<subseteq> set s"
  by (rule set_mono_prefix [OF trim_right_prefix])

lemma set_trim_left: "set (trim_left s) \<subseteq> set s"
proof (induction s rule: trim_left.induct)
  case (1 s)
  then show ?case
    using set_drop_subset [of "space_at_start s" s]
    by (cases "space_at_start s = 0") (auto simp: trim_left.simps [of s])
qed

lemma split_hosts_ok: "h \<in> set (split_hosts csv) \<Longrightarrow> host_name_ok h"
  using Split_pieces [of csv "CHR '',''"] set_trim_left set_trim_right
  by (auto simp: split_hosts_def host_name_ok_def TrimSpace_def split: if_splits)
    (metis TrimSpace_def TrimSpace_idem, blast)

section \<open>Whole command lines\<close>

definition int64 :: "int \<Rightarrow> bool" where
  "int64 i \<longleftrightarrow> - (2 ^ 63) \<le> i \<and> i < 2 ^ 63"

text \<open>What the rest of the program may rely on about its arguments.\<close>

definition args_ok :: "cli_args \<Rightarrow> bool" where
  "args_ok a \<longleftrightarrow>
     (\<forall>h \<in> set (arg_hosts a). host_name_ok h) \<and>
     arg_mode a \<in> {ModeSafe, ModeSwitch, ModeBoot} \<and>
     arg_reboot a \<in> {RebootFlagAuto, RebootFlagNever, RebootFlagAlways, RebootFlagAsk} \<and>
     (arg_mode a = ModeBoot \<longrightarrow> arg_reboot a \<in> {RebootFlagNever, RebootFlagAlways}) \<and>
     arg_on_failure a \<in> {OnFailureStop, OnFailureContinue} \<and>
     1 \<le> arg_copy_jobs a \<and> int64 (arg_copy_jobs a) \<and> int64 (arg_max_jobs a) \<and> int64 (arg_cores a)"

fun on_failure_string :: "on_failure \<Rightarrow> string" where
  "on_failure_string OnFailureStop = ''stop''"
| "on_failure_string OnFailureContinue = ''continue''"
| "on_failure_string (OtherOnFailure s) = s"

text \<open>The canonical command line.\<close>

definition show_args :: "cli_args \<Rightarrow> string list" where
  "show_args a =
     [show_flag ''hosts'' (Join (arg_hosts a) '',''), show_flag ''mode'' (mode_string (arg_mode a)),
      show_flag ''reboot'' (flag_string (arg_reboot a)), show_flag ''force'' (show_bool (arg_force a)),
      show_flag ''self'' (show_bool (arg_self a)), show_flag ''build'' (show_bool (arg_build a)),
      show_flag ''copy-jobs'' (Itoa (arg_copy_jobs a)), show_flag ''max-jobs'' (Itoa (arg_max_jobs a)),
      show_flag ''cores'' (Itoa (arg_cores a)),
      show_flag ''on-failure'' (on_failure_string (arg_on_failure a))]"

definition flags_of :: "cli_args \<Rightarrow> flags" where
  "flags_of a =
     [''hosts'' \<mapsto> FString (Join (arg_hosts a) '',''), ''mode'' \<mapsto> FString (mode_string (arg_mode a)),
      ''reboot'' \<mapsto> FString (flag_string (arg_reboot a)), ''force'' \<mapsto> FBool (arg_force a),
      ''self'' \<mapsto> FBool (arg_self a), ''build'' \<mapsto> FBool (arg_build a),
      ''copy-jobs'' \<mapsto> FInt (arg_copy_jobs a), ''max-jobs'' \<mapsto> FInt (arg_max_jobs a),
      ''cores'' \<mapsto> FInt (arg_cores a),
      ''on-failure'' \<mapsto> FString (on_failure_string (arg_on_failure a))]"

lemma show_args_flags:
  assumes "args_ok a"
  shows "parse_flags deploy_flags (show_args a) = Inr (flags_of a, [])"
  using assms
  by (simp add: show_args_def flags_of_def deploy_flags_def parse_flags_show parse_flags_end
      ParseBool_show ParseInt_Itoa args_ok_def int64_def)

lemma parse_words:
  "m \<in> {ModeSafe, ModeSwitch, ModeBoot} \<Longrightarrow> ParseMode (mode_string m) = Inr m"
  "r \<in> {RebootFlagAuto, RebootFlagNever, RebootFlagAlways, RebootFlagAsk} \<Longrightarrow>
   ParseRebootFlag (flag_string r) = Inr r"
  "f \<in> {OnFailureStop, OnFailureContinue} \<Longrightarrow> ParseOnFailure (on_failure_string f) = Inr f"
  by (auto simp: ParseMode_def ParseRebootFlag_def ParseOnFailure_def)

lemma parse_words_only:
  "ParseMode s = Inr m \<Longrightarrow> m \<in> {ModeSafe, ModeSwitch, ModeBoot}"
  "ParseRebootFlag s = Inr r \<Longrightarrow> r \<in> {RebootFlagAuto, RebootFlagNever, RebootFlagAlways, RebootFlagAsk}"
  "ParseOnFailure s = Inr f \<Longrightarrow> f \<in> {OnFailureStop, OnFailureContinue}"
  by (auto simp: ParseMode_def ParseRebootFlag_def ParseOnFailure_def split: if_splits)

lemma read_flags_of:
  assumes "args_ok a"
  shows "read_args (flags_of a) = Inr a"
proof -
  have get: "string_flag (flags_of a) ''hosts'' = Join (arg_hosts a) '',''"
    "string_flag (flags_of a) ''mode'' = mode_string (arg_mode a)"
    "string_flag (flags_of a) ''reboot'' = flag_string (arg_reboot a)"
    "string_flag (flags_of a) ''on-failure'' = on_failure_string (arg_on_failure a)"
    "bool_flag (flags_of a) ''force'' = arg_force a" "bool_flag (flags_of a) ''self'' = arg_self a"
    "bool_flag (flags_of a) ''build'' = arg_build a"
    "int_flag (flags_of a) ''copy-jobs'' = arg_copy_jobs a"
    "int_flag (flags_of a) ''max-jobs'' = arg_max_jobs a" "int_flag (flags_of a) ''cores'' = arg_cores a"
    by (simp_all add: flags_of_def string_flag_def bool_flag_def int_flag_def)
  have words: "ParseMode (mode_string (arg_mode a)) = Inr (arg_mode a)"
    "ParseRebootFlag (flag_string (arg_reboot a)) = Inr (arg_reboot a)"
    "ParseOnFailure (on_failure_string (arg_on_failure a)) = Inr (arg_on_failure a)"
    using assms by (intro parse_words; simp add: args_ok_def)+
  have hosts: "split_hosts (Join (arg_hosts a) '','') = arg_hosts a"
    using assms by (intro split_hosts_Join) (simp add: args_ok_def)
  have boot: "\<not> (arg_mode a = ModeBoot \<and> (arg_reboot a = RebootFlagAuto \<or> arg_reboot a = RebootFlagAsk))"
    and jobs: "\<not> arg_copy_jobs a < 1"
    using assms by (auto simp: args_ok_def)
  show ?thesis
    by (simp only: read_args_def get words hosts sum.case boot jobs if_False) simp
qed

text \<open>The integer flags stay in the range of their type.\<close>

definition flags_ok :: "flags \<Rightarrow> bool" where
  "flags_ok fs \<longleftrightarrow> (\<forall>name i. fs name = Some (FInt i) \<longrightarrow> int64 i)"

lemma read_digits_nonneg: "0 \<le> b \<Longrightarrow> 0 \<le> m \<Longrightarrow> read_digits b m xs = Some k \<Longrightarrow> 0 \<le> k"
  by (induction b m xs rule: read_digits.induct)
    (auto simp: digit_value_def split: if_splits option.splits)

lemma ParseUint_nonneg:
  assumes "ParseUint s = Some n"
  shows "0 \<le> n"
proof -
  let ?split = "if hd s = CHR ''0'' then
      (case base_prefix s of
         Some (b, rest) \<Rightarrow> if rest = [] then (8, tl s) else (b, rest)
       | None \<Rightarrow> (8, tl s))
    else (10, s)"
  obtain base ds where bd: "?split = (base :: int, ds)" by force
  then have base: "0 \<le> base"
    by (auto simp: base_prefix_def split: if_splits option.splits list.splits)
  have "read_digits base 0 ds = Some n"
    using assms unfolding ParseUint_def Let_def bd by (auto split: if_splits option.splits)
  with base show ?thesis by (rule read_digits_nonneg [OF _ order_refl])
qed

lemma ParseInt_range: "ParseInt s = Some i \<Longrightarrow> int64 i"
  by (auto simp: ParseInt_def int64_def Let_def dest: ParseUint_nonneg split: if_splits option.splits)

lemma set_flag_ok: "flags_ok fs \<Longrightarrow> set_flag fs name f val args = Inr (Some fs', rest) \<Longrightarrow> flags_ok fs'"
  by (cases f) (auto simp: set_flag_def flags_ok_def dest: ParseInt_range split: option.splits if_splits)

lemma parse_one_ok: "flags_ok fs \<Longrightarrow> parse_one fs args = Inr (Some fs', rest) \<Longrightarrow> flags_ok fs'"
  by (auto simp: parse_one_def parse_flag_def Let_def split_beta dest: set_flag_ok
      split: list.splits if_splits option.splits)

lemma parse_flags_ok: "flags_ok fs \<Longrightarrow> parse_flags fs args = Inr (fs', rest) \<Longrightarrow> flags_ok fs'"
proof (induction fs args rule: parse_flags.induct)
  case (1 fs args)
  then show ?case
    using parse_one_ok [OF 1(2)]
    by (auto simp: parse_flags.simps [of fs args] split: sum.splits prod.splits option.splits)
qed

lemma deploy_flags_ok: "flags_ok deploy_flags"
  by (auto simp: flags_ok_def deploy_flags_def int64_def defaultCopyJobs_def)

lemma int_flag_range: "flags_ok fs \<Longrightarrow> int64 (int_flag fs name)"
  by (auto simp: int_flag_def flags_ok_def split: option.split flag_value.split) (simp_all add: int64_def)

lemma read_args_ok:
  assumes "read_args fs = Inr a" and "flags_ok fs"
  shows "args_ok a"
  using assms(1) int_flag_range [OF assms(2)] parse_words_only split_hosts_ok
  by (fastforce simp: read_args_def args_ok_def split: sum.splits if_splits)

section \<open>Properties\<close>

text \<open>
  C23: what the command line lets through is well formed. Accepted arguments name only
  non-empty, trimmed hosts without a comma, have one of the modes, reboot and failure values
  the program knows, never ask for detection in boot mode, and allow at least one copy at a
  time; every number fits its type. Everything else is refused with an error.
\<close>

theorem parseArgs_well_formed:
  assumes "parseArgs argv = Inr a"
  shows "args_ok a"
proof -
  obtain fs where fs: "parse_flags deploy_flags argv = Inr (fs, [])" "read_args fs = Inr a"
    using assms by (auto simp: parseArgs_def split: sum.splits prod.splits if_splits)
  have "flags_ok fs" using parse_flags_ok [OF deploy_flags_ok fs(1)] .
  with fs(2) show ?thesis by (rule read_args_ok)
qed

theorem parseArgs_well_formed_witness:
  "parseArgs [''--mode=boot'', ''-reboot'', ''always'', ''-hosts'', ''fus, ro'', ''--copy-jobs=0x2''] =
     Inr \<lparr>arg_hosts = [''fus'', ''ro''], arg_mode = ModeBoot, arg_reboot = RebootFlagAlways,
          arg_force = False, arg_self = False, arg_build = False, arg_copy_jobs = 2,
          arg_max_jobs = 0, arg_cores = 0, arg_on_failure = OnFailureStop\<rparr> \<and>
   args_ok \<lparr>arg_hosts = [''fus'', ''ro''], arg_mode = ModeBoot, arg_reboot = RebootFlagAlways,
          arg_force = False, arg_self = False, arg_build = False, arg_copy_jobs = 2,
          arg_max_jobs = 0, arg_cores = 0, arg_on_failure = OnFailureStop\<rparr>"
proof -
  let ?a = "\<lparr>arg_hosts = [''fus'', ''ro''], arg_mode = ModeBoot, arg_reboot = RebootFlagAlways,
          arg_force = False, arg_self = False, arg_build = False, arg_copy_jobs = 2,
          arg_max_jobs = 0, arg_cores = 0, arg_on_failure = OnFailureStop\<rparr>"
  have "parseArgs [''--mode=boot'', ''-reboot'', ''always'', ''-hosts'', ''fus, ro'', ''--copy-jobs=0x2''] = Inr ?a"
    by code_simp
  from this parseArgs_well_formed [OF this] show ?thesis by blast
qed

text \<open>
  C24: the command line is a faithful format. Well-formed arguments, written out flag by flag
  in the form \<open>-name=value\<close>, parse to themselves: no value is mangled by the splitting at
  the equals sign, the splitting and trimming of the host list, or the reading of numbers.
\<close>

theorem parseArgs_roundtrip:
  assumes "args_ok a"
  shows "parseArgs (show_args a) = Inr a"
  by (simp add: parseArgs_def show_args_flags [OF assms] read_flags_of [OF assms])

theorem parseArgs_roundtrip_witness:
  "parseArgs (show_args \<lparr>arg_hosts = [''fus'', ''ro''], arg_mode = ModeSafe, arg_reboot = RebootFlagAsk,
      arg_force = True, arg_self = False, arg_build = False, arg_copy_jobs = 12,
      arg_max_jobs = - 3, arg_cores = 0, arg_on_failure = OnFailureContinue\<rparr>) =
   Inr \<lparr>arg_hosts = [''fus'', ''ro''], arg_mode = ModeSafe, arg_reboot = RebootFlagAsk,
      arg_force = True, arg_self = False, arg_build = False, arg_copy_jobs = 12,
      arg_max_jobs = - 3, arg_cores = 0, arg_on_failure = OnFailureContinue\<rparr>"
proof (rule parseArgs_roundtrip)
  have "host_name_ok ''fus''" "host_name_ok ''ro''" by code_simp+
  then show "args_ok \<lparr>arg_hosts = [''fus'', ''ro''], arg_mode = ModeSafe, arg_reboot = RebootFlagAsk,
      arg_force = True, arg_self = False, arg_build = False, arg_copy_jobs = 12,
      arg_max_jobs = - 3, arg_cores = 0, arg_on_failure = OnFailureContinue\<rparr>"
    by (simp add: args_ok_def int64_def)
qed

end
