(* ===== verification/Pipeline_Flow.thy ===== *)
theory Pipeline_Flow
  imports Pipeline
begin

text \<open>
  Where the hosts of a pipeline run are: every host is in exactly one stage at any time, no
  goroutine ever panics or waits for room in a channel, and a stage ends only when nothing
  can reach it any more.
\<close>

section \<open>The places of a host\<close>

fun polled :: "poll_state \<Rightarrow> precheck_result list" where
  "polled (Waiting ps) = ps"
| "polled (Sweeping final rest missing) = missing @ rest"
| "polled (Marking ps) = ps"
| "polled PollEnded = []"

fun in_hand :: "copy_worker \<Rightarrow> precheck_result list" where
  "in_hand WIdle = []"
| "in_hand (WCopying p) = [p]"
| "in_hand (WPutting p) = [p]"
| "in_hand WExited = []"

fun on_table :: "drain_state \<Rightarrow> precheck_result list" where
  "on_table Draining = []"
| "on_table (Activating p) = [p]"
| "on_table Returned = []"

text \<open>The hosts of all stages, and those that have left.\<close>

definition places :: "'w pipe \<Rightarrow> precheck_result list" where
  "places P = polled (poller P) @ queue (copyCh P) @ concat (map in_hand (workers P)) @
     queue (actCh P) @ on_table (drainer P) @ map fst (finished P)"

definition flow_inv :: "'w job \<Rightarrow> 'w pipe \<Rightarrow> bool" where
  "flow_inv J P \<longleftrightarrow>
     mset (places P) = mset (jtodo J) \<and>
     cap (copyCh P) = length (jtodo J) \<and> cap (actCh P) = length (jtodo J) \<and>
     \<not> crashed P \<and> length (workers P) = job_copies J \<and>
     (closed (copyCh P) \<longleftrightarrow> poller P = PollEnded) \<and>
     (closed (actCh P) \<longleftrightarrow> \<not> closer P) \<and>
     (WExited \<in> set (workers P) \<longrightarrow> closed (copyCh P) \<and> queue (copyCh P) = []) \<and>
     (\<not> closer P \<longrightarrow> set (workers P) \<subseteq> {WExited}) \<and>
     (drainer P = Returned \<longrightarrow> \<not> closer P \<and> queue (actCh P) = [])"

lemma flow_room:
  assumes "flow_inv J P"
  shows "length (polled (poller P)) + length (queue (copyCh P)) +
      length (concat (map in_hand (workers P))) + length (queue (actCh P)) +
      length (on_table (drainer P)) + length (finished P) = length (jtodo J)"
proof -
  have "size (mset (places P)) = size (mset (jtodo J))" using assms by (simp add: flow_inv_def)
  then show ?thesis by (simp only: size_mset places_def length_append length_map)
qed

lemma leave_simps [simp]:
  "copyCh (leave J p st P) = copyCh P" "actCh (leave J p st P) = actCh P"
  "building (leave J p st P) = building P" "poller (leave J p st P) = poller P"
  "workers (leave J p st P) = workers P" "closer (leave J p st P) = closer P"
  "drainer (leave J p st P) = drainer P" "stopped (leave J p st P) = stopped P"
  "crashed (leave J p st P) = crashed P" "shared (leave J p st P) = shared P"
  "finished (leave J p st P) = finished P @ [(p, st)]"
  by (simp_all add: leave_def)

section \<open>What each step does\<close>

text \<open>
  The steps as elimination rules: which state a step may start in, and the state it leaves.
  In a state that satisfies the invariant no send waits and nothing panics, so there are no
  other cases.
\<close>

lemma poll_room:
  assumes "flow_inv J P" and "poller P = Sweeping final (p # ps) missing"
  shows "length (queue (copyCh P)) < cap (copyCh P) \<and> \<not> closed (copyCh P)"
  using flow_room [OF assms(1)] assms by (auto simp: flow_inv_def)

lemma poll_cases:
  assumes "poll_one J P = Some P'" and "flow_inv J P"
  obtains
    (ended) "poller P = Waiting [] \<or> poller P = Marking []"
      "P' = P\<lparr>copyCh := (copyCh P)\<lparr>closed := True\<rparr>, poller := PollEnded\<rparr>"
  | (found) final p ps missing s where "poller P = Sweeping final (p # ps) missing"
      "BuiltOK (jquiet J) (SystemPath (pr_plan p)) (shared P) = (True, s)"
      "P' = P\<lparr>shared := s, poller := Sweeping final ps missing,
              copyCh := (copyCh P)\<lparr>queue := queue (copyCh P) @ [p]\<rparr>\<rparr>"
  | (missed) final p ps missing s where "poller P = Sweeping final (p # ps) missing"
      "BuiltOK (jquiet J) (SystemPath (pr_plan p)) (shared P) = (False, s)"
      "P' = P\<lparr>shared := s, poller := Sweeping final ps (missing @ [p])\<rparr>"
  | (swept) final missing where "poller P = Sweeping final [] missing"
      "P' = P\<lparr>poller := (if final then Marking missing else Waiting missing)\<rparr>"
  | (marked) p ps where "poller P = Marking (p # ps)"
      "P' = leave J p StatusBuildFailed (P\<lparr>poller := Marking ps\<rparr>)"
proof -
  have end_eq: "end_poller P = P\<lparr>copyCh := (copyCh P)\<lparr>closed := True\<rparr>, poller := PollEnded\<rparr>"
    if "poller P \<noteq> PollEnded"
    using that assms(2) by (auto simp: flow_inv_def end_poller_def close_def)
  show ?thesis
  proof (cases "poller P")
    case (Waiting ps)
    then show ?thesis using assms(1) end_eq ended by (cases ps) (auto simp: poll_one_def)
  next
    case (Sweeping final rest missing)
    show ?thesis
    proof (cases rest)
      case Nil
      then show ?thesis using assms(1) Sweeping swept by (auto simp: poll_one_def)
    next
      case (Cons p ps)
      obtain built s where b: "BuiltOK (jquiet J) (SystemPath (pr_plan p)) (shared P) = (built, s)"
        by force
      show ?thesis
      proof (cases built)
        case True
        show ?thesis
          by (rule found [of final p ps missing s])
            (use assms(1) Sweeping Cons b True poll_room [OF assms(2)] in
              \<open>auto simp: poll_one_def send_to_copy_def send_room\<close>)
      next
        case False
        show ?thesis
          by (rule missed [of final p ps missing s])
            (use assms(1) Sweeping Cons b False in \<open>auto simp: poll_one_def\<close>)
      qed
    qed
  next
    case (Marking ps)
    then show ?thesis using assms(1) end_eq ended marked by (cases ps) (auto simp: poll_one_def)
  next
    case PollEnded
    then show ?thesis using assms(1) by (simp add: poll_one_def)
  qed
qed

lemma sweep_cases:
  assumes "start_sweep final P = Some P'"
  obtains p ps where "poller P = Waiting (p # ps)" "P' = P\<lparr>poller := Sweeping final (p # ps) []\<rparr>"
  using assms by (auto simp: start_sweep_def split: poll_state.splits list.splits)

lemma take_cases:
  assumes "take_step i P = Some P'"
  obtains
    (got) p q where "i < length (workers P)" "workers P ! i = WIdle" "queue (copyCh P) = p # q"
      "P' = P\<lparr>copyCh := (copyCh P)\<lparr>queue := q\<rparr>, workers := (workers P)[i := WCopying p]\<rparr>"
  | (ended) "i < length (workers P)" "workers P ! i = WIdle" "queue (copyCh P) = []"
      "closed (copyCh P)" "P' = P\<lparr>workers := (workers P)[i := WExited]\<rparr>"
  using assms
  by (auto simp: take_step_def receive_Got receive_Drained split: if_splits received.splits)

lemma copy_cases:
  assumes "copy_step J i P = Some P'"
  obtains p ok s where "i < length (workers P)" "workers P ! i = WCopying p"
    "CopyClosure (jquiet J) (pr_host p) (SystemPath (pr_plan p)) (shared P) = (ok, s)"
    "P' = (if ok then P\<lparr>shared := s, workers := (workers P)[i := WPutting p]\<rparr>
      else leave J p StatusCopyFailed (P\<lparr>shared := s, workers := (workers P)[i := WIdle]\<rparr>))"
proof -
  from assms obtain p where i: "i < length (workers P)" "workers P ! i = WCopying p"
    by (auto simp: copy_step_def split: if_splits copy_worker.splits)
  obtain ok s where c: "CopyClosure (jquiet J) (pr_host p) (SystemPath (pr_plan p)) (shared P) = (ok, s)"
    by force
  have "P' = (if ok then P\<lparr>shared := s, workers := (workers P)[i := WPutting p]\<rparr>
      else leave J p StatusCopyFailed (P\<lparr>shared := s, workers := (workers P)[i := WIdle]\<rparr>))"
    using assms i c by (cases ok) (auto simp: copy_step_def)
  with i c show ?thesis by (rule that)
qed

lemma put_room:
  assumes "flow_inv J P" and "i < length (workers P)" and "workers P ! i = WPutting p"
  shows "length (queue (actCh P)) < cap (actCh P) \<and> \<not> closed (actCh P)"
proof -
  obtain R where "mset (concat (map in_hand (workers P))) = mset (in_hand (workers P ! i)) + R"
    using mset_concat_update [OF assms(2), of in_hand] by blast
  then have "size (mset (concat (map in_hand (workers P)))) = 1 + size R" using assms(3) by simp
  moreover have "WPutting p \<in> set (workers P)" using assms(2,3) by (metis nth_mem)
  then have "closer P" using assms(1) by (auto simp: flow_inv_def)
  ultimately show ?thesis using flow_room [OF assms(1)] assms(1) by (simp add: flow_inv_def)
qed

lemma put_cases:
  assumes "put_step i P = Some P'" and "flow_inv J P"
  obtains p where "i < length (workers P)" "workers P ! i = WPutting p"
    "P' = P\<lparr>workers := (workers P)[i := WIdle], actCh := (actCh P)\<lparr>queue := queue (actCh P) @ [p]\<rparr>\<rparr>"
proof -
  from assms(1) obtain p where i: "i < length (workers P)" "workers P ! i = WPutting p"
    by (auto simp: put_step_def split: if_splits copy_worker.splits)
  show ?thesis
    by (rule that [OF i])
      (use assms(1) i put_room [OF assms(2) i] in \<open>auto simp: put_step_def send_to_act_def send_room\<close>)
qed

lemma close_cases:
  assumes "close_act P = Some P'" and "flow_inv J P"
  obtains "closer P" "set (workers P) \<subseteq> {WExited}"
    "P' = P\<lparr>actCh := (actCh P)\<lparr>closed := True\<rparr>, closer := False\<rparr>"
  using assms by (auto simp: close_act_def close_def flow_inv_def list_all_iff split: if_splits)

lemma receive_cases:
  assumes "receive_step J P = Some P'"
  obtains
    (cancelled) p q where "drainer P = Draining" "queue (actCh P) = p # q" "stopped P"
      "P' = leave J p StatusCancelled (P\<lparr>actCh := (actCh P)\<lparr>queue := q\<rparr>\<rparr>)"
  | (begun) p q where "drainer P = Draining" "queue (actCh P) = p # q" "\<not> stopped P"
      "P' = P\<lparr>actCh := (actCh P)\<lparr>queue := q\<rparr>, drainer := Activating p\<rparr>"
  | (returned) "drainer P = Draining" "queue (actCh P) = []" "closed (actCh P)"
      "P' = P\<lparr>drainer := Returned\<rparr>"
  using assms
  by (auto simp: receive_step_def receive_Got receive_Drained Let_def
      split: if_splits received.splits)

lemma activate_cases:
  assumes "activate_step J P = Some P'"
  obtains p ok s stop where "drainer P = Activating p"
    "Deploy (jctx J) (pr_host p) ModeSafe (pr_plan p) (shared P) = (ok, s)"
    "P' = (leave J p (if ok then StatusDeployed else StatusDeployFailed)
        (P\<lparr>shared := dropSSHMaster (ctx_runner (jctx J)) (pr_host p) s, drainer := Draining\<rparr>))
        \<lparr>stopped := stop\<rparr>"
    "stop \<longleftrightarrow> stopped P \<or> \<not> ok \<and> (InGroup (pr_host p) ''k3s'' \<or> OnFailure (jopts J) = OnFailureStop)"
proof -
  from assms obtain p where p: "drainer P = Activating p"
    by (auto simp: activate_step_def split: drain_state.splits)
  obtain ok s where d: "Deploy (jctx J) (pr_host p) ModeSafe (pr_plan p) (shared P) = (ok, s)" by force
  let ?Q = "leave J p (if ok then StatusDeployed else StatusDeployFailed)
        (P\<lparr>shared := dropSSHMaster (ctx_runner (jctx J)) (pr_host p) s, drainer := Draining\<rparr>)"
  let ?stop = "\<not> ok \<and> (InGroup (pr_host p) ''k3s'' \<or> OnFailure (jopts J) = OnFailureStop)"
  have "P' = (if ?stop then ?Q\<lparr>stopped := True\<rparr> else ?Q)"
    using assms p d by (auto simp: activate_step_def Let_def split: if_splits)
  then have "P' = ?Q\<lparr>stopped := stopped P \<or> ?stop\<rparr>" by auto
  with p d that show ?thesis by blast
qed

lemma build_cases:
  assumes "finish_build J P = Some P'"
  obtains s where "building P" "P' = P\<lparr>building := False, shared := s\<rparr>"
    "s = (if job_drvs J = [] then shared P
          else snd (BuildAll (ctx_runner (jctx J)) (job_drvs J) (Build (jopts J)) (shared P)))"
proof -
  from assms have "building P" by (auto simp: finish_build_def split: if_splits)
  moreover from this assms have "P' = P\<lparr>building := False, shared :=
      (if job_drvs J = [] then shared P
       else snd (BuildAll (ctx_runner (jctx J)) (job_drvs J) (Build (jopts J)) (shared P)))\<rparr>"
    by (auto simp: finish_build_def split_beta split: if_splits)
  ultimately show ?thesis using that by blast
qed

text \<open>A step is one of these, or a drift of the world.\<close>

lemma pstep_cases:
  assumes "pstep J l P = Some P'"
  obtains
    (drift) w where "l = Drift w" "P' = P\<lparr>shared := (shared P)\<lparr>world := w\<rparr>\<rparr>"
  | (build) "l = FinishBuild" "finish_build J P = Some P'"
  | (tick) "l = Tick" "start_sweep False P = Some P'"
  | (seen) "l = SeeBuilt" "\<not> building P" "start_sweep True P = Some P'"
  | (poll) "l = PollOne" "poll_one J P = Some P'"
  | (take) i where "l = Take i" "take_step i P = Some P'"
  | (copy) i where "l = Copy i" "copy_step J i P = Some P'"
  | (put) i where "l = Put i" "put_step i P = Some P'"
  | (close) "l = CloseAct" "close_act P = Some P'"
  | (receive) "l = Receive" "receive_step J P = Some P'"
  | (activate) "l = Activate" "activate_step J P = Some P'"
  using assms by (cases l) (auto simp: pstep.simps split: if_splits)

section \<open>Each step keeps the flow\<close>

lemma flow_poll:
  assumes "flow_inv J P" and "poll_one J P = Some P'"
  shows "flow_inv J P'"
  using assms(2,1)
proof (cases rule: poll_cases)
  case (swept final missing)
  then show ?thesis using assms(1) by (cases final) (auto simp: flow_inv_def places_def)
next
  case (found final p ps missing s)
  then have "\<not> closed (copyCh P)" "WExited \<notin> set (workers P)"
    using assms(1) by (auto simp: flow_inv_def)
  then show ?thesis using assms(1) found by (simp add: flow_inv_def places_def)
qed (use assms(1) in \<open>auto simp: flow_inv_def places_def\<close>)

lemma flow_worker:
  assumes "flow_inv J P" and "i < length (workers P)" and "workers P ! i \<noteq> WExited"
  obtains R where "mset (concat (map in_hand (workers P))) = mset (in_hand (workers P ! i)) + R"
    and "\<And>w. mset (concat (map in_hand ((workers P)[i := w]))) = mset (in_hand w) + R"
    and "closer P" and "\<And>w. w \<noteq> WExited \<Longrightarrow> WExited \<in> set ((workers P)[i := w]) \<Longrightarrow> WExited \<in> set (workers P)"
proof -
  have "workers P ! i \<in> set (workers P)" using assms(2) by simp
  then have "closer P" using assms(1,3) by (auto simp: flow_inv_def)
  then show ?thesis using mset_concat_update [OF assms(2), of in_hand] that by (metis in_updateD)
qed

lemma flow_take:
  assumes "flow_inv J P" and "take_step i P = Some P'"
  shows "flow_inv J P'"
  using assms(2)
proof (cases rule: take_cases)
  case (got p q)
  obtain R where R: "mset (concat (map in_hand (workers P))) = mset (in_hand (workers P ! i)) + R"
    "\<And>w. mset (concat (map in_hand ((workers P)[i := w]))) = mset (in_hand w) + R" "closer P"
    "WExited \<in> set ((workers P)[i := WCopying p]) \<Longrightarrow> WExited \<in> set (workers P)"
    using flow_worker [OF assms(1) got(1)] got(2) by (metis copy_worker.distinct(5,9))
  then show ?thesis using assms(1) got by (auto simp: flow_inv_def places_def)
next
  case ended
  obtain R where R: "mset (concat (map in_hand (workers P))) = mset (in_hand (workers P ! i)) + R"
    "\<And>w. mset (concat (map in_hand ((workers P)[i := w]))) = mset (in_hand w) + R" "closer P"
    using flow_worker [OF assms(1) ended(1)] ended(2) by (metis copy_worker.distinct(5))
  then show ?thesis using assms(1) ended by (auto simp: flow_inv_def places_def)
qed

lemma flow_copy:
  assumes "flow_inv J P" and "copy_step J i P = Some P'"
  shows "flow_inv J P'"
  using assms(2)
proof (rule copy_cases)
  fix p ok s
  assume *: "i < length (workers P)" "workers P ! i = WCopying p"
    "P' = (if ok then P\<lparr>shared := s, workers := (workers P)[i := WPutting p]\<rparr>
      else leave J p StatusCopyFailed (P\<lparr>shared := s, workers := (workers P)[i := WIdle]\<rparr>))"
  obtain R where "mset (concat (map in_hand (workers P))) = mset (in_hand (workers P ! i)) + R"
    "\<And>w. mset (concat (map in_hand ((workers P)[i := w]))) = mset (in_hand w) + R" "closer P"
    "\<And>w. w \<noteq> WExited \<Longrightarrow> WExited \<in> set ((workers P)[i := w]) \<Longrightarrow> WExited \<in> set (workers P)"
    using flow_worker [OF assms(1) *(1)] *(2) by auto
  then show ?thesis using assms(1) *(1,2)
    by (cases ok) (auto simp: *(3) flow_inv_def places_def)
qed

lemma flow_put:
  assumes "flow_inv J P" and "put_step i P = Some P'"
  shows "flow_inv J P'"
  using assms(2,1)
proof (rule put_cases)
  fix p
  assume *: "i < length (workers P)" "workers P ! i = WPutting p"
    "P' = P\<lparr>workers := (workers P)[i := WIdle], actCh := (actCh P)\<lparr>queue := queue (actCh P) @ [p]\<rparr>\<rparr>"
  obtain R where "mset (concat (map in_hand (workers P))) = mset (in_hand (workers P ! i)) + R"
    "\<And>w. mset (concat (map in_hand ((workers P)[i := w]))) = mset (in_hand w) + R" "closer P"
    "\<And>w. w \<noteq> WExited \<Longrightarrow> WExited \<in> set ((workers P)[i := w]) \<Longrightarrow> WExited \<in> set (workers P)"
    using flow_worker [OF assms(1) *(1)] *(2) by auto
  then show ?thesis using assms(1) *(1,2) by (auto simp: *(3) flow_inv_def places_def)
qed

lemma flow_receive:
  assumes "flow_inv J P" and "receive_step J P = Some P'"
  shows "flow_inv J P'"
  using assms(2)
  by (cases rule: receive_cases) (use assms(1) in \<open>auto simp: flow_inv_def places_def\<close>)

lemma flow_activate:
  assumes "flow_inv J P" and "activate_step J P = Some P'"
  shows "flow_inv J P'"
  using assms(2) by (rule activate_cases) (use assms(1) in \<open>auto simp: flow_inv_def places_def\<close>)

lemma flow_step:
  assumes "flow_inv J P" and "pstep J l P = Some P'"
  shows "flow_inv J P'"
  using assms(2)
proof (cases rule: pstep_cases)
  case (drift w)
  then show ?thesis using assms(1) by (auto simp: flow_inv_def places_def)
next
  case build
  from build(2) show ?thesis
    by (rule build_cases) (use assms(1) in \<open>auto simp: flow_inv_def places_def\<close>)
next
  case tick
  from tick(2) show ?thesis
    by (rule sweep_cases) (use assms(1) in \<open>auto simp: flow_inv_def places_def\<close>)
next
  case seen
  from seen(3) show ?thesis
    by (rule sweep_cases) (use assms(1) in \<open>auto simp: flow_inv_def places_def\<close>)
next
  case close
  from close(2) assms(1) show ?thesis
    by (rule close_cases) (use assms(1) in \<open>auto simp: flow_inv_def places_def\<close>)
qed (use assms(1) in \<open>auto intro: flow_poll flow_take flow_copy flow_put flow_receive flow_activate\<close>)

section \<open>The start, and the invariant along every run\<close>

lemma split_todo_Some:
  "\<not> closed ch \<Longrightarrow> length (queue ch) + length (filter (\<lambda>p. UpToDate (pr_plan p)) ps) \<le> cap ch \<Longrightarrow>
   split_todo ps ch need =
     Some (ch\<lparr>queue := queue ch @ filter (\<lambda>p. UpToDate (pr_plan p)) ps\<rparr>, need @ need_build ps)"
  by (induction ps ch need rule: split_todo.induct) (auto simp: send_room need_build_def)

text \<open>Filling the activation channel never blocks.\<close>

lemma pipe_start_Some:
  "pipe_start J s = Some
     \<lparr>copyCh = make_chan (length (jtodo J)),
      actCh = (make_chan (length (jtodo J)))\<lparr>queue := filter (\<lambda>p. UpToDate (pr_plan p)) (jtodo J)\<rparr>,
      results = map (\<lambda>p. \<lparr>hr_host = pr_host p, hr_status = StatusDeployed\<rparr>) (jtodo J),
      building = True,
      poller = Waiting (sort_key (\<lambda>p. Order (pr_host p)) (need_build (jtodo J))),
      workers = replicate (job_copies J) WIdle, closer = True,
      drainer = Draining, stopped = False, crashed = False, shared = s, finished = []\<rparr>"
  using split_todo_Some [of "make_chan (length (jtodo J))" "jtodo J" "[]"]
  by (simp add: pipe_start_def make_chan_def)

lemma flow_start: "pipe_start J s = Some P \<Longrightarrow> flow_inv J P"
  using filter_mset_partition [of "\<lambda>p. UpToDate (pr_plan p)" "jtodo J"]
  by (auto simp: pipe_start_Some flow_inv_def places_def make_chan_def need_build_def
      add.commute job_copies_def)

section \<open>Progress\<close>

text \<open>The steps that bring the run forward: all but the ticks of the poller and the drift of the world.\<close>

fun working :: "'w label \<Rightarrow> bool" where
  "working (Drift w) \<longleftrightarrow> False"
| "working Tick \<longleftrightarrow> False"
| "working _ \<longleftrightarrow> True"

fun poll_weight :: "poll_state \<Rightarrow> nat" where
  "poll_weight (Waiting ps) = 3 + 7 * length ps"
| "poll_weight (Sweeping False rest missing) = 4 + 8 * length rest + 7 * length missing"
| "poll_weight (Sweeping True rest missing) = 2 + 6 * length rest + length missing"
| "poll_weight (Marking ps) = 1 + length ps"
| "poll_weight PollEnded = 0"

fun worker_weight :: "copy_worker \<Rightarrow> nat" where
  "worker_weight WIdle = 1"
| "worker_weight (WCopying p) = 5"
| "worker_weight (WPutting p) = 4"
| "worker_weight WExited = 0"

fun drain_weight :: "drain_state \<Rightarrow> nat" where
  "drain_weight Draining = 1"
| "drain_weight (Activating p) = 2"
| "drain_weight Returned = 0"

definition pipe_size :: "'w pipe \<Rightarrow> nat" where
  "pipe_size P = poll_weight (poller P) + 5 * length (queue (copyCh P)) +
     sum_list (map worker_weight (workers P)) + 2 * length (queue (actCh P)) +
     drain_weight (drainer P) + (if building P then 1 else 0) + (if closer P then 1 else 0)"

lemma sum_list_update:
  "i < length ws \<Longrightarrow>
   sum_list (map f (ws[i := w])) + f (ws ! i) = sum_list (map f ws) + (f w :: nat)"
  by (induction ws arbitrary: i) (auto split: nat.split)


text \<open>Every working step lowers the measure; a tick raises it by one per host and one.\<close>

lemma poll_lowers:
  assumes "poll_one J P = Some P'" and "flow_inv J P"
  shows "pipe_size P' < pipe_size P"
  using assms
proof (cases rule: poll_cases)
  case (found final p ps missing s)
  then show ?thesis by (cases final) (auto simp: pipe_size_def)
next
  case (missed final p ps missing s)
  then show ?thesis by (cases final) (auto simp: pipe_size_def)
next
  case (swept final missing)
  then show ?thesis by (cases final) (auto simp: pipe_size_def)
qed (auto simp: pipe_size_def)

text \<open>A copy worker that moves on is lighter afterwards.\<close>

lemma worker_lowers:
  "i < length (workers P) \<Longrightarrow>
   sum_list (map worker_weight ((workers P)[i := w])) + worker_weight (workers P ! i) =
   sum_list (map worker_weight (workers P)) + worker_weight w"
  by (rule sum_list_update)

lemma take_lowers:
  assumes "take_step i P = Some P'"
  shows "pipe_size P' < pipe_size P"
  using assms
proof (cases rule: take_cases)
  case (got p q)
  then show ?thesis using worker_lowers [of i P "WCopying p"] by (simp add: pipe_size_def)
next
  case ended
  then show ?thesis using worker_lowers [of i P WExited] by (simp add: pipe_size_def)
qed

lemma copy_lowers:
  assumes "copy_step J i P = Some P'"
  shows "pipe_size P' < pipe_size P"
  using assms
proof (rule copy_cases)
  fix p ok s
  assume *: "i < length (workers P)" "workers P ! i = WCopying p"
    "P' = (if ok then P\<lparr>shared := s, workers := (workers P)[i := WPutting p]\<rparr>
      else leave J p StatusCopyFailed (P\<lparr>shared := s, workers := (workers P)[i := WIdle]\<rparr>))"
  then show ?thesis using worker_lowers [of i P "WPutting p"] worker_lowers [of i P WIdle]
    by (cases ok) (simp_all add: pipe_size_def)
qed

lemma put_lowers:
  assumes "put_step i P = Some P'" and "flow_inv J P"
  shows "pipe_size P' < pipe_size P"
  using assms
proof (rule put_cases)
  fix p
  assume *: "i < length (workers P)" "workers P ! i = WPutting p"
    "P' = P\<lparr>workers := (workers P)[i := WIdle], actCh := (actCh P)\<lparr>queue := queue (actCh P) @ [p]\<rparr>\<rparr>"
  then show ?thesis using worker_lowers [of i P WIdle] by (simp add: pipe_size_def)
qed

lemma close_lowers: "close_act P = Some P' \<Longrightarrow> flow_inv J P \<Longrightarrow> pipe_size P' < pipe_size P"
  by (erule (1) close_cases) (simp add: pipe_size_def)

lemma receive_lowers: "receive_step J P = Some P' \<Longrightarrow> pipe_size P' < pipe_size P"
  by (erule receive_cases) (simp_all add: pipe_size_def)

lemma activate_lowers: "activate_step J P = Some P' \<Longrightarrow> pipe_size P' < pipe_size P"
  by (erule activate_cases) (simp add: pipe_size_def)

lemmas lowers = poll_lowers take_lowers copy_lowers put_lowers
  close_lowers receive_lowers activate_lowers

lemma size_step:
  assumes "flow_inv J P" and "pstep J l P = Some P'"
  shows "if working l then pipe_size P' < pipe_size P
    else pipe_size P' \<le> pipe_size P + (length (jtodo J) + 1)"
  using assms(2)
proof (cases rule: pstep_cases)
  case (drift w)
  then show ?thesis by (simp add: pipe_size_def)
next
  case build
  from build(2) show ?thesis by (rule build_cases) (simp add: build(1) pipe_size_def)
next
  case tick
  from tick(2) show ?thesis
    by (rule sweep_cases) (use flow_room [OF assms(1)] in \<open>simp add: tick(1) pipe_size_def\<close>)
next
  case seen
  from seen(3) show ?thesis by (rule sweep_cases) (simp add: seen(1) pipe_size_def)
qed (use lowers assms(1) in \<open>simp_all\<close>)

interpretation flow: step_measure "\<lambda>P. pipe_start J s = Some P" "pstep J" "flow_inv J"
    working pipe_size "length (jtodo J) + 1"
  for J s
proof unfold_locales
  show "flow_inv J P" if "pipe_start J s = Some P" for P using that by (rule flow_start)
  show "flow_inv J P'" if "flow_inv J P" "pstep J l P = Some P'" for P l P'
    using that by (rule flow_step)
  show "pipe_size P' < pipe_size P" if "flow_inv J P" "pstep J l P = Some P'" "working l" for P l P'
    using size_step [OF that(1,2)] that(3) by simp
  show "pipe_size P' \<le> pipe_size P + (length (jtodo J) + 1)"
    if "flow_inv J P" "pstep J l P = Some P'" for P l P'
    using size_step [OF that] by (cases "working l") auto
qed

text \<open>The reachable states are those of the schedules.\<close>

lemma reaches_schedule:
  "reaches J s P \<longleftrightarrow> (\<exists>P0 ls. pipe_start J s = Some P0 \<and> run_labels (pstep J) ls P0 = Some P)"
proof
  show "\<exists>P0 ls. pipe_start J s = Some P0 \<and> run_labels (pstep J) ls P0 = Some P" if "reaches J s P"
    using that
  proof induction
    case (started P)
    then show ?case by (intro exI [of _ P] exI [of _ "[]"]) simp
  next
    case (stepped P l P')
    then obtain P0 ls where "pipe_start J s = Some P0" "run_labels (pstep J) ls P0 = Some P" by blast
    with stepped.hyps show ?case
      by (intro exI [of _ P0] exI [of _ "ls @ [l]"]) (simp add: run_labels_append)
  qed
  have "reaches J s P \<Longrightarrow> run_labels (pstep J) ls P = Some P' \<Longrightarrow> reaches J s P'" for ls P P'
    by (induction ls arbitrary: P) (auto split: option.splits intro: stepped)
  then show "reaches J s P"
    if "\<exists>P0 ls. pipe_start J s = Some P0 \<and> run_labels (pstep J) ls P0 = Some P"
    using that started by blast
qed

lemma reaches_flow: "reaches J s P \<Longrightarrow> flow_inv J P"
  by (auto simp: reaches_schedule intro: flow.everywhere)

lemma poller_progress:
  assumes "flow_inv J P" and "\<not> building P" and "poller P \<noteq> PollEnded"
  shows "\<exists>l P'. working l \<and> pstep J l P = Some P'"
proof (cases "poller P")
  case (Waiting ps)
  have "\<not> crashed P" using assms(1) by (simp add: flow_inv_def)
  then show ?thesis using Waiting assms(2)
    by (cases ps)
      (force simp: pstep.simps poll_one_def start_sweep_def intro: exI [of _ PollOne] exI [of _ SeeBuilt])+
next
  case (Sweeping final rest missing)
  have "\<exists>P'. poll_one J P = Some P'"
    using Sweeping poll_room [OF assms(1)]
    by (cases rest) (auto simp: poll_one_def send_to_copy_def send_room split_beta Let_def)
  then show ?thesis using assms(1) by (intro exI [of _ PollOne]) (simp add: pstep.simps flow_inv_def)
next
  case (Marking ps)
  then have "\<exists>P'. poll_one J P = Some P'" by (cases ps) (auto simp: poll_one_def)
  then show ?thesis using assms(1) by (intro exI [of _ PollOne]) (simp add: pstep.simps flow_inv_def)
qed (use assms(3) in simp)

lemma worker_progress:
  assumes "flow_inv J P" and "poller P = PollEnded" and "w \<in> set (workers P)" "w \<noteq> WExited"
  shows "\<exists>l P'. working l \<and> pstep J l P = Some P'"
proof -
  obtain i where i: "i < length (workers P)" "workers P ! i = w" using assms(3) by (metis in_set_conv_nth)
  have inv: "\<not> crashed P" "closed (copyCh P)" using assms(1,2) by (simp_all add: flow_inv_def)
  show ?thesis
  proof (cases w)
    case WIdle
    then have "\<exists>P'. take_step i P = Some P'"
      using i inv(2) by (cases "queue (copyCh P)") (auto simp: take_step_def receive_def)
    then show ?thesis using inv(1) by (intro exI [of _ "Take i"]) (simp add: pstep.simps)
  next
    case (WCopying p)
    then have "\<exists>P'. copy_step J i P = Some P'"
      using i by (auto simp: copy_step_def split_beta Let_def)
    then show ?thesis using inv(1) by (intro exI [of _ "Copy i"]) (simp add: pstep.simps)
  next
    case (WPutting p)
    then have "\<exists>P'. put_step i P = Some P'"
      using i put_room [OF assms(1) i(1)] by (auto simp: put_step_def send_to_act_def send_room)
    then show ?thesis using inv(1) by (intro exI [of _ "Put i"]) (simp add: pstep.simps)
  qed (use assms(4) in simp)
qed

lemma drainer_progress:
  assumes "flow_inv J P" and "poller P = PollEnded" and "set (workers P) \<subseteq> {WExited}"
    and "drainer P \<noteq> Returned"
  shows "\<exists>l P'. working l \<and> pstep J l P = Some P'"
proof (cases "closer P")
  case True
  then have "\<exists>P'. close_act P = Some P'"
    using assms(3) by (auto simp: close_act_def list_all_iff split: option.split)
  then show ?thesis using assms(1) by (intro exI [of _ CloseAct]) (simp add: pstep.simps flow_inv_def)
next
  case False
  then have inv: "\<not> crashed P" "closed (actCh P)" using assms(1) by (simp_all add: flow_inv_def)
  show ?thesis
  proof (cases "drainer P")
    case Draining
    then have "\<exists>P'. receive_step J P = Some P'"
      using inv(2) by (cases "queue (actCh P)") (auto simp: receive_step_def receive_def Let_def)
    then show ?thesis using inv(1) by (intro exI [of _ Receive]) (simp add: pstep.simps)
  next
    case (Activating p)
    then have "\<exists>P'. activate_step J P = Some P'"
      by (simp add: activate_step_def split_beta Let_def)
    then show ?thesis using inv(1) by (intro exI [of _ Activate]) (simp add: pstep.simps)
  qed (use assms(4) in simp)
qed

lemma pipe_progress:
  assumes "flow_inv J P" and "drainer P \<noteq> Returned"
  shows "\<exists>l P'. working l \<and> pstep J l P = Some P'"
proof (cases "building P")
  case True
  then have "\<exists>P'. pstep J FinishBuild P = Some P'"
    using assms(1) by (simp add: pstep.simps flow_inv_def finish_build_def split_beta)
  then show ?thesis by (intro exI [of _ FinishBuild]) simp
next
  case False
  then show ?thesis
    using poller_progress [OF assms(1)] worker_progress [OF assms(1)] drainer_progress [OF assms(1)] assms(2)
    by blast
qed

end
