(* ===== verification/Pipeline_Props.thy ===== *)
theory Pipeline_Props
  imports Pipeline_Flow
begin

text \<open>
  What a pipeline run guarantees: it moves every host to exactly one end, a stage is only
  entered on evidence of the stage before it, the reported results are those of the
  activations that ran, a failure that stops the run stops it for good, and the run ends.
\<close>

section \<open>How a host leaves\<close>

text \<open>The failures after which nothing is activated any more.\<close>

definition halts :: "'w job \<Rightarrow> precheck_result \<Rightarrow> bool" where
  "halts J p \<longleftrightarrow> InGroup (pr_host p) ''k3s'' \<or> OnFailure (jopts J) = OnFailureStop"

lemma step_leaves:
  assumes "pstep J l P = Some P'" and "flow_inv J P"
  obtains
    (stays) "finished P' = finished P" "results P' = results P" "stopped P' = stopped P"
      "on_table (drainer P') \<noteq> [] \<Longrightarrow> drainer P' = drainer P \<or> \<not> stopped P"
  | (unbuilt) p Q where "P' = leave J p StatusBuildFailed Q" "finished Q = finished P"
      "results Q = results P" "stopped Q = stopped P" "drainer Q = drainer P"
      "p \<in> set (polled (poller P))"
  | (uncopied) p Q where "P' = leave J p StatusCopyFailed Q" "finished Q = finished P"
      "results Q = results P" "stopped Q = stopped P" "drainer Q = drainer P"
  | (cancelled) p Q where "P' = leave J p StatusCancelled Q" "finished Q = finished P"
      "results Q = results P" "stopped Q = stopped P" "drainer Q = Draining" "stopped P"
  | (activated) p ok Q where "drainer P = Activating p"
      "P' = (leave J p (if ok then StatusDeployed else StatusDeployFailed) Q)
        \<lparr>stopped := stopped P \<or> \<not> ok \<and> halts J p\<rparr>"
      "finished Q = finished P" "results Q = results P" "drainer Q = Draining"
  using assms(1)
proof (cases rule: pstep_cases)
  case (drift w)
  then show ?thesis using stays by simp
next
  case build
  from build(2) show ?thesis by (rule build_cases) (use stays in simp)
next
  case tick
  from tick(2) show ?thesis by (rule sweep_cases) (use stays in simp)
next
  case seen
  from seen(3) show ?thesis by (rule sweep_cases) (use stays in simp)
next
  case poll
  from poll(2) assms(2) show ?thesis
  proof (cases rule: poll_cases)
    case (marked p ps)
    then show ?thesis by (intro unbuilt [OF marked(2)]) simp_all
  qed (use stays in simp_all)
next
  case (take i)
  from take(2) show ?thesis by (cases rule: take_cases) (use stays in simp_all)
next
  case (copy i)
  from copy(2) show ?thesis
  proof (rule copy_cases)
    fix p ok s
    assume eq: "P' = (if ok then P\<lparr>shared := s, workers := (workers P)[i := WPutting p]\<rparr>
      else leave J p StatusCopyFailed (P\<lparr>shared := s, workers := (workers P)[i := WIdle]\<rparr>))"
    show ?thesis
    proof (cases ok)
      case True
      then show ?thesis using stays eq by simp
    next
      case False
      with eq have "P' = leave J p StatusCopyFailed (P\<lparr>shared := s, workers := (workers P)[i := WIdle]\<rparr>)"
        by simp
      then show ?thesis by (rule uncopied) simp_all
    qed
  qed
next
  case (put i)
  from put(2) assms(2) show ?thesis by (rule put_cases) (use stays in simp)
next
  case close
  from close(2) assms(2) show ?thesis by (rule close_cases) (use stays in simp)
next
  case receive
  from receive(2) show ?thesis
  proof (cases rule: receive_cases)
    case (cancelled p q)
    then show ?thesis by (intro that(4) [OF cancelled(4)]) simp_all
  qed (use stays in simp_all)
next
  case activate
  from activate(2) show ?thesis
  proof (rule activate_cases)
    fix p ok s stop
    assume *: "drainer P = Activating p"
      "P' = (leave J p (if ok then StatusDeployed else StatusDeployFailed)
        (P\<lparr>shared := dropSSHMaster (ctx_runner (jctx J)) (pr_host p) s, drainer := Draining\<rparr>))
        \<lparr>stopped := stop\<rparr>"
      "stop \<longleftrightarrow> stopped P \<or> \<not> ok \<and> (InGroup (pr_host p) ''k3s'' \<or> OnFailure (jopts J) = OnFailureStop)"
    show ?thesis
      by (rule activated [of p ok
            "P\<lparr>shared := dropSSHMaster (ctx_runner (jctx J)) (pr_host p) s, drainer := Draining\<rparr>"])
        (use * in \<open>simp_all add: halts_def\<close>)
  qed
qed

section \<open>The results\<close>

text \<open>The statuses the run writes, in the order the hosts leave.\<close>

definition write_status :: "'w job \<Rightarrow> precheck_result \<times> host_status \<Rightarrow> host_result list \<Rightarrow> host_result list" where
  "write_status J = (\<lambda>(p, st) rs. if st = StatusDeployed then rs else set_status (jtodo J) p st rs)"

definition all_deployed :: "'w job \<Rightarrow> host_result list" where
  "all_deployed J = map (\<lambda>p. \<lparr>hr_host = pr_host p, hr_status = StatusDeployed\<rparr>) (jtodo J)"

definition replay :: "'w job \<Rightarrow> (precheck_result \<times> host_status) list \<Rightarrow> host_result list" where
  "replay J fs = fold (write_status J) fs (all_deployed J)"

lemma replay_snoc [simp]: "replay J (fs @ [f]) = write_status J f (replay J fs)"
  by (simp add: replay_def)

lemma leave_results [simp]: "results (leave J p st P) = write_status J (p, st) (results P)"
  by (simp add: leave_def write_status_def)

lemma reaches_replay: "reaches J s P \<Longrightarrow> results P = replay J (finished P)"
proof (induction rule: reaches.induct)
  case (started P)
  then show ?case by (auto simp: pipe_start_Some replay_def all_deployed_def)
next
  case (stepped P l P')
  from stepped.hyps(2) reaches_flow [OF stepped.hyps(1)] show ?case
    by (cases rule: step_leaves) (simp_all add: stepped.IH)
qed

lemma index_from_other: "n \<notin> (Name \<circ> pr_host) ` set ps \<Longrightarrow> index_from i ps m n = m n"
  by (induction ps arbitrary: i m) auto

lemma index_from_nth:
  "distinct (map (Name \<circ> pr_host) ps) \<Longrightarrow> k < length ps \<Longrightarrow>
   index_from i ps m (Name (pr_host (ps ! k))) = Some (i + k)"
proof (induction ps arbitrary: i m k)
  case (Cons p ps)
  then show ?case by (cases k) (auto simp: index_from_other)
qed simp

lemma set_status_nth:
  assumes "distinct (map (Name \<circ> pr_host) todo)" and "k < length todo" and "length rs = length todo"
    and "j < length todo"
  shows "set_status todo (todo ! k) st rs ! j =
    (if j = k then (rs ! k)\<lparr>hr_status := st\<rparr> else rs ! j)"
  using index_from_nth [OF assms(1,2), of 0 Map.empty] assms(3,4)
  by (simp add: set_status_def index_of_name_def Let_def)

lemma length_write [simp]: "length (write_status J f rs) = length rs"
  by (simp add: write_status_def set_status_def Let_def split: prod.split)

lemma length_replay [simp]: "length (replay J fs) = length (jtodo J)"
proof (induction fs rule: rev_induct)
  case Nil
  then show ?case by (simp add: replay_def all_deployed_def)
qed simp

text \<open>With distinct names, slot \<open>j\<close> is host \<open>j\<close> with the last status it left with.\<close>

lemma replay_nth:
  assumes "distinct (map (Name \<circ> pr_host) (jtodo J))" and "fst ` set fs \<subseteq> set (jtodo J)"
    and "distinct (map fst fs)" and "j < length (jtodo J)"
  shows "replay J fs ! j = \<lparr>hr_host = pr_host (jtodo J ! j), hr_status =
    (case map_of fs (jtodo J ! j) of Some st \<Rightarrow> st | None \<Rightarrow> StatusDeployed)\<rparr>"
  using assms(2,3)
proof (induction fs rule: rev_induct)
  case Nil
  then show ?case using assms(4) by (simp add: replay_def all_deployed_def)
next
  case (snoc f fs)
  obtain p st where f: "f = (p, st)" by force
  with snoc.prems obtain k where k: "k < length (jtodo J)" "p = jtodo J ! k"
    by (auto simp: in_set_conv_nth)
  have new: "map_of fs p = None" using snoc.prems(2) f by (auto simp: map_of_eq_None_iff)
  have eq: "jtodo J ! j = jtodo J ! k \<longleftrightarrow> j = k"
    using assms(1,4) k(1) by (metis (no_types, lifting) distinct_map nth_eq_iff_index_eq)
  have lookup: "map_of (fs @ [(p, st)]) (jtodo J ! j) =
      (if j = k then Some st else map_of fs (jtodo J ! j))"
    using new k(2) eq by (auto simp: map_add_def split: option.split)
  have IH: "replay J fs ! j = \<lparr>hr_host = pr_host (jtodo J ! j), hr_status =
      (case map_of fs (jtodo J ! j) of Some st \<Rightarrow> st | None \<Rightarrow> StatusDeployed)\<rparr>"
    using snoc by simp
  show ?case
  proof (cases "st = StatusDeployed")
    case True
    then show ?thesis using IH lookup new k(2) f by (auto simp: write_status_def)
  next
    case False
    have "replay J (fs @ [f]) ! j =
        (if j = k then (replay J fs ! k)\<lparr>hr_status := st\<rparr> else replay J fs ! j)"
      using False f k set_status_nth [OF assms(1) k(1) length_replay assms(4)]
      by (simp add: write_status_def)
    then show ?thesis using IH lookup f by auto
  qed
qed

lemma todo_distinct: "distinct (map (Name \<circ> pr_host) todo) \<Longrightarrow> distinct todo"
  by (simp add: distinct_map)

lemma returned_all:
  assumes "flow_inv J P" and "drainer P = Returned"
  shows "mset (map fst (finished P)) = mset (jtodo J)" and "set (workers P) = {WExited}"
    and "poller P = PollEnded"
proof -
  have w: "set (workers P) \<subseteq> {WExited}" and "length (workers P) = job_copies J" "0 < job_copies J"
    using assms by (auto simp: flow_inv_def job_copies_def)
  then show workers: "set (workers P) = {WExited}" by (cases "workers P") auto
  then have empty: "queue (copyCh P) = []" "queue (actCh P) = []" and poll: "poller P = PollEnded"
    using assms by (auto simp: flow_inv_def)
  have hands: "concat (map in_hand (workers P)) = []" using w by auto
  have "places P = map fst (finished P)" by (simp add: places_def hands empty poll assms(2))
  then show "mset (map fst (finished P)) = mset (jtodo J)"
    using assms(1) by (simp only: flow_inv_def)
  show "poller P = PollEnded" by (rule poll)
qed

lemma finished_subset:
  assumes "flow_inv J P"
  shows "fst ` set (finished P) \<subseteq> set (jtodo J)"
proof -
  have "set (map fst (finished P)) \<subseteq> set (places P)" by (auto simp: places_def)
  also have "\<dots> = set (jtodo J)" using assms by (metis flow_inv_def set_mset_mset)
  finally show ?thesis by simp
qed

lemma finished_distinct:
  assumes "flow_inv J P" and "distinct (map (Name \<circ> pr_host) (jtodo J))"
  shows "distinct (map fst (finished P))"
proof -
  have "distinct (places P)"
    using assms todo_distinct by (metis flow_inv_def mset_eq_imp_distinct_iff)
  then show ?thesis by (simp add: places_def)
qed

section \<open>The stop rule\<close>

text \<open>Whether one of the hosts that left so far stops the run.\<close>

definition halted :: "'w job \<Rightarrow> (precheck_result \<times> host_status) list \<Rightarrow> bool" where
  "halted J fs \<longleftrightarrow> (\<exists>p. (p, StatusDeployFailed) \<in> set fs \<and> halts J p)"

text \<open>Nothing is activated after a failure that stops the run, and only then is a host cancelled.\<close>

definition orderly :: "'w job \<Rightarrow> (precheck_result \<times> host_status) list \<Rightarrow> bool" where
  "orderly J fs \<longleftrightarrow> (\<forall>xs p st ys. fs = xs @ (p, st) # ys \<longrightarrow>
     (st = StatusCancelled \<longrightarrow> halted J xs) \<and>
     (st = StatusDeployed \<or> st = StatusDeployFailed \<longrightarrow> \<not> halted J xs))"

lemma orderly_snoc:
  "orderly J (fs @ [(p, st)]) \<longleftrightarrow> orderly J fs \<and>
     (st = StatusCancelled \<longrightarrow> halted J fs) \<and>
     (st = StatusDeployed \<or> st = StatusDeployFailed \<longrightarrow> \<not> halted J fs)"
proof (intro iffI conjI)
  assume all: "orderly J (fs @ [(p, st)])"
  show "orderly J fs"
    unfolding orderly_def
  proof (intro allI impI)
    fix xs q r ys
    assume "fs = xs @ (q, r) # ys"
    then have "fs @ [(p, st)] = xs @ (q, r) # (ys @ [(p, st)])" by simp
    then show "(r = StatusCancelled \<longrightarrow> halted J xs) \<and>
        (r = StatusDeployed \<or> r = StatusDeployFailed \<longrightarrow> \<not> halted J xs)"
      using all unfolding orderly_def by blast
  qed
  show "st = StatusCancelled \<longrightarrow> halted J fs"
    and "st = StatusDeployed \<or> st = StatusDeployFailed \<longrightarrow> \<not> halted J fs"
    using all unfolding orderly_def by blast+
next
  assume cond: "orderly J fs \<and> (st = StatusCancelled \<longrightarrow> halted J fs) \<and>
    (st = StatusDeployed \<or> st = StatusDeployFailed \<longrightarrow> \<not> halted J fs)"
  show "orderly J (fs @ [(p, st)])"
    unfolding orderly_def
  proof (intro allI impI)
    fix xs q r ys
    assume split: "fs @ [(p, st)] = xs @ (q, r) # ys"
    show "(r = StatusCancelled \<longrightarrow> halted J xs) \<and>
        (r = StatusDeployed \<or> r = StatusDeployFailed \<longrightarrow> \<not> halted J xs)"
    proof (cases ys rule: rev_cases)
      case Nil
      then show ?thesis using split cond by simp
    next
      case (snoc zs z)
      then have "fs = xs @ (q, r) # zs" using split by simp
      then show ?thesis using cond unfolding orderly_def by blast
    qed
  qed
qed

lemma halted_snoc [simp]:
  "halted J (fs @ [(p, st)]) \<longleftrightarrow> halted J fs \<or> st = StatusDeployFailed \<and> halts J p"
  by (auto simp: halted_def)

definition stop_inv :: "'w job \<Rightarrow> 'w pipe \<Rightarrow> bool" where
  "stop_inv J P \<longleftrightarrow> (stopped P \<longleftrightarrow> halted J (finished P)) \<and>
     (stopped P \<longrightarrow> on_table (drainer P) = []) \<and> orderly J (finished P)"

lemma reaches_stop: "reaches J s P \<Longrightarrow> stop_inv J P"
proof (induction rule: reaches.induct)
  case (started P)
  then show ?case by (auto simp: pipe_start_Some stop_inv_def halted_def orderly_def)
next
  case (stepped P l P')
  from stepped.hyps(2) reaches_flow [OF stepped.hyps(1)] show ?case
  proof (cases rule: step_leaves)
    case stays
    then show ?thesis
      using stepped.IH by (cases "on_table (drainer P') = []") (auto simp: stop_inv_def)
  qed (use stepped.IH in \<open>auto simp: stop_inv_def orderly_snoc\<close>)
qed

section \<open>The evidence of each stage\<close>

text \<open>A call of the run, answered with success or with a failure.\<close>

definition answered :: "call \<Rightarrow> bool \<Rightarrow> 'w st \<Rightarrow> 'w st \<Rightarrow> bool" where
  "answered k ok s u \<longleftrightarrow>
     (\<exists>res. Ran k res \<in> set (since (trace s) (trace u)) \<and> (\<not> Failed res) = ok)"

abbreviation later :: "'w st \<Rightarrow> 'w st \<Rightarrow> bool" where
  "later \<equiv> extends (\<lambda>_. True)"

lemma laterI: "extends Q s u \<Longrightarrow> later s u"
  by (erule extends_mono) simp

lemma answered_mono: "answered k ok s u \<Longrightarrow> later s u \<Longrightarrow> later u v \<Longrightarrow> answered k ok s v"
  using since_trans [of "\<lambda>_. True" s u "\<lambda>_. True" v] by (auto simp: answered_def)

lemma answered_now:
  assumes "later s u" and "trace v = trace u @ [Ran k res]" and "(\<not> Failed res) = ok"
  shows "answered k ok s v"
proof -
  have "trace v = trace s @ (since (trace s) (trace u) @ [Ran k res])"
    using assms(2) extends_since [OF assms(1)] by (metis append_assoc)
  then have "since (trace s) (trace v) = since (trace s) (trace u) @ [Ran k res]"
    by (metis since_append)
  with assms(3) show ?thesis by (auto simp: answered_def)
qed

definition was_built :: "'w st \<Rightarrow> precheck_result \<Rightarrow> 'w st \<Rightarrow> bool" where
  "was_built s p = answered (NixPathInfo (SystemPath (pr_plan p))) True s"

definition was_missing :: "'w st \<Rightarrow> precheck_result \<Rightarrow> 'w st \<Rightarrow> bool" where
  "was_missing s p u \<longleftrightarrow>
     SystemPath (pr_plan p) = [] \<or> answered (NixPathInfo (SystemPath (pr_plan p))) False s u"

definition copy_answer :: "bool \<Rightarrow> 'w st \<Rightarrow> precheck_result \<Rightarrow> 'w st \<Rightarrow> bool" where
  "copy_answer ok s p = answered (NixCopy (pr_host p) (SystemPath (pr_plan p))) ok s"

text \<open>A host is ready for activation: nothing to do, or its closure is built and copied.\<close>

definition ready :: "'w st \<Rightarrow> precheck_result \<Rightarrow> 'w st \<Rightarrow> bool" where
  "ready s p u \<longleftrightarrow> UpToDate (pr_plan p) \<or> was_built s p u \<and> copy_answer True s p u"

text \<open>The activation of a host ran when the host was ready, and gave this answer.\<close>

definition activation_ran :: "'w job \<Rightarrow> bool \<Rightarrow> 'w st \<Rightarrow> precheck_result \<Rightarrow> 'w st \<Rightarrow> bool" where
  "activation_ran J ok s p u \<longleftrightarrow> (\<exists>t t'. later s t \<and> ready s p t \<and>
     Deploy (jctx J) (pr_host p) ModeSafe (pr_plan p) t = (ok, t') \<and> later t' u)"

fun justified :: "'w job \<Rightarrow> 'w st \<Rightarrow> precheck_result \<Rightarrow> host_status \<Rightarrow> 'w st \<Rightarrow> bool" where
  "justified J s p StatusDeployed u = activation_ran J True s p u"
| "justified J s p StatusDeployFailed u = activation_ran J False s p u"
| "justified J s p StatusCancelled u = ready s p u"
| "justified J s p StatusCopyFailed u = (was_built s p u \<and> copy_answer False s p u)"
| "justified J s p StatusBuildFailed u = was_missing s p u"

lemma evidence_mono:
  assumes "later s u" and "later u v"
  shows "was_built s p u \<Longrightarrow> was_built s p v" "was_missing s p u \<Longrightarrow> was_missing s p v"
    "copy_answer ok s p u \<Longrightarrow> copy_answer ok s p v" "ready s p u \<Longrightarrow> ready s p v"
    "activation_ran J ok s p u \<Longrightarrow> activation_ran J ok s p v"
    "justified J s p st u \<Longrightarrow> justified J s p st v"
proof -
  note up = answered_mono [OF _ assms]
  show built: "was_built s p u \<Longrightarrow> was_built s p v"
    and missing: "was_missing s p u \<Longrightarrow> was_missing s p v"
    and copied: "copy_answer ok s p u \<Longrightarrow> copy_answer ok s p v" for ok
    using up by (auto simp: was_built_def was_missing_def copy_answer_def)
  show ready: "ready s p u \<Longrightarrow> ready s p v" using built copied by (auto simp: ready_def)
  show ran: "activation_ran J ok s p u \<Longrightarrow> activation_ran J ok s p v" for ok
    using assms(2) unfolding activation_ran_def by (meson extends_trans)
  show "justified J s p st u \<Longrightarrow> justified J s p st v"
    by (cases st) (use built missing copied ready ran in auto)
qed

text \<open>What the calls of the stages leave behind.\<close>

lemma BuiltOK_evidence:
  assumes "BuiltOK r (SystemPath (pr_plan p)) u = (ok, v)" and "later s u"
  shows "if ok then was_built s p v else was_missing s p v"
  using assms answered_now [OF assms(2), of v "NixPathInfo (SystemPath (pr_plan p))"]
    Run_trace [of r "NixPathInfo (SystemPath (pr_plan p))" "[]" pathInfoTimeout u]
  by (auto simp: BuiltOK_def was_built_def was_missing_def split_beta split: if_splits)

lemma CopyClosure_evidence:
  assumes "CopyClosure r (pr_host p) (SystemPath (pr_plan p)) u = (ok, v)" and "later s u"
  shows "copy_answer ok s p v"
  using assms answered_now [OF assms(2), of v "NixCopy (pr_host p) (SystemPath (pr_plan p))"]
    Run_trace [of r "NixCopy (pr_host p) (SystemPath (pr_plan p))" "copyEnv r" copyTimeout u]
  by (auto simp: CopyClosure_def copy_answer_def split_beta split: if_splits)

text \<open>The calls of a step: an activation deploys its host; every other step builds, asks or copies.\<close>

fun stage_call :: "call \<Rightarrow> bool" where
  "stage_call (NixBuild drvs opts) \<longleftrightarrow> True"
| "stage_call (NixPathInfo path) \<longleftrightarrow> True"
| "stage_call (NixCopy h path) \<longleftrightarrow> True"
| "stage_call _ \<longleftrightarrow> False"

fun was_activated :: "host_status \<Rightarrow> bool" where
  "was_activated StatusDeployed \<longleftrightarrow> True"
| "was_activated StatusDeployFailed \<longleftrightarrow> True"
| "was_activated _ \<longleftrightarrow> False"

definition activations :: "'w pipe \<Rightarrow> (precheck_result \<times> host_status) list" where
  "activations P = filter (\<lambda>(p, st). was_activated st) (finished P)"

lemma activations_leave [simp]:
  "activations (leave J p st P) = activations P @ (if was_activated st then [(p, st)] else [])"
  by (simp add: activations_def)

lemma activations_update [simp]:
  "activations (P\<lparr>shared := s\<rparr>) = activations P" "activations (P\<lparr>workers := ws\<rparr>) = activations P"
  "activations (P\<lparr>poller := q\<rparr>) = activations P" "activations (P\<lparr>drainer := d\<rparr>) = activations P"
  "activations (P\<lparr>stopped := b\<rparr>) = activations P" "activations (P\<lparr>building := b\<rparr>) = activations P"
  "activations (P\<lparr>copyCh := c\<rparr>) = activations P" "activations (P\<lparr>actCh := c\<rparr>) = activations P"
  "activations (P\<lparr>closer := b\<rparr>) = activations P"
  by (simp_all add: activations_def)

lemma step_calls:
  assumes "pstep J l P = Some P'" and "flow_inv J P"
  obtains
    (quiet) "extends stage_call (shared P) (shared P')" "activations P' = activations P"
  | (deploys) p ok u where "drainer P = Activating p"
      "Deploy (jctx J) (pr_host p) ModeSafe (pr_plan p) (shared P) = (ok, u)"
      "shared P' = dropSSHMaster (ctx_runner (jctx J)) (pr_host p) u"
      "activations P' = activations P @ [(p, if ok then StatusDeployed else StatusDeployFailed)]"
  using assms(1)
proof (cases rule: pstep_cases)
  case (drift w)
  then show ?thesis by (intro quiet) (simp_all add: extends_def)
next
  case build
  have "extends stage_call s (snd (BuildAll r drvs opts s))" for r drvs opts and s :: "'a st"
    by (rule build.op_from) simp_all
  with build(2) show ?thesis by (elim build_cases) (intro quiet; simp)
next
  case tick
  from tick(2) show ?thesis by (rule sweep_cases) (intro quiet; simp)
next
  case seen
  from seen(3) show ?thesis by (rule sweep_cases) (intro quiet; simp)
next
  case poll
  from poll(2) assms(2) show ?thesis
    by (cases rule: poll_cases) (intro quiet; auto intro: built.op_to)+
next
  case (take i)
  from take(2) show ?thesis by (cases rule: take_cases) (intro quiet; simp)+
next
  case (copy i)
  from copy(2) show ?thesis
  proof (rule copy_cases)
    fix p ok s
    assume c: "CopyClosure (jquiet J) (pr_host p) (SystemPath (pr_plan p)) (shared P) = (ok, s)"
      and eq: "P' = (if ok then P\<lparr>shared := s, workers := (workers P)[i := WPutting p]\<rparr>
      else leave J p StatusCopyFailed (P\<lparr>shared := s, workers := (workers P)[i := WIdle]\<rparr>))"
    from c have "extends stage_call (shared P) s" by (rule copy.op_to) simp
    then show ?thesis using eq by (intro quiet) simp_all
  qed
next
  case (put i)
  from put(2) assms(2) show ?thesis by (rule put_cases) (intro quiet; simp)
next
  case close
  from close(2) assms(2) show ?thesis by (rule close_cases) (intro quiet; simp)
next
  case receive
  from receive(2) show ?thesis by (cases rule: receive_cases) (intro quiet; simp)+
next
  case activate
  from activate(2) show ?thesis
    by (rule activate_cases) (rule deploys, assumption, assumption, simp_all)
qed

text \<open>Every call of a step is made after those of the state it starts in.\<close>

lemma step_later:
  assumes "pstep J l P = Some P'" and "flow_inv J P"
  shows "later (shared P) (shared P')"
  using assms
proof (cases rule: step_calls)
  case (deploys p ok u)
  from deploys(2) have "later (shared P) u" by (rule deploy.op_to) simp
  then show ?thesis unfolding deploys(3) by (rule dropSSHMaster_from) simp
qed (rule laterI)

lemma reaches_later: "reaches J s P \<Longrightarrow> later s (shared P)"
proof (induction rule: reaches.induct)
  case (started P)
  then show ?case by (auto simp: pipe_start_Some)
next
  case (stepped P l P')
  then show ?case using step_later reaches_flow extends_trans by blast
qed

text \<open>The hosts the poller has found missing after the end of the build.\<close>

fun given_up :: "poll_state \<Rightarrow> precheck_result list" where
  "given_up (Waiting ps) = []"
| "given_up (Sweeping final rest missing) = (if final then missing else [])"
| "given_up (Marking ps) = ps"
| "given_up PollEnded = []"

fun last_sweep :: "poll_state \<Rightarrow> bool" where
  "last_sweep (Sweeping final rest missing) = final"
| "last_sweep (Marking ps) = True"
| "last_sweep _ = False"

text \<open>
  What each place of the pipeline says about the calls made so far, up to a state \<open>u\<close> of
  the shared run.
\<close>

definition evidence :: "'w job \<Rightarrow> 'w st \<Rightarrow> 'w st \<Rightarrow> 'w pipe \<Rightarrow> bool" where
  "evidence J s u P \<longleftrightarrow>
     (\<forall>p \<in> set (queue (copyCh P)). was_built s p u) \<and>
     (\<forall>p. WCopying p \<in> set (workers P) \<longrightarrow> was_built s p u) \<and>
     (\<forall>p. WPutting p \<in> set (workers P) \<longrightarrow> was_built s p u \<and> copy_answer True s p u) \<and>
     (\<forall>p \<in> set (queue (actCh P)). ready s p u) \<and>
     (\<forall>p \<in> set (on_table (drainer P)). ready s p u) \<and>
     (\<forall>(p, st) \<in> set (finished P). justified J s p st u) \<and>
     (\<forall>p \<in> set (given_up (poller P)). was_missing s p u) \<and>
     (building P \<longrightarrow> \<not> last_sweep (poller P) \<and> (\<forall>p. (p, StatusBuildFailed) \<notin> set (finished P)))"

lemma evidence_later:
  assumes "evidence J s u P" and "later s u" and "later u v"
  shows "evidence J s v P"
  using assms(1) evidence_mono [OF assms(2,3)] unfolding evidence_def split_beta by blast

lemma evidence_poll:
  assumes "evidence J s (shared P) P" and "later s (shared P)" and "flow_inv J P"
    and "poll_one J P = Some P'"
  shows "evidence J s (shared P') P'"
  using assms(4,3)
proof (cases rule: poll_cases)
  case ended
  then show ?thesis using assms(1) by (auto simp: evidence_def)
next
  case (found final p ps missing u)
  have u: "later (shared P) u" using found(2) by (rule built.op_to) simp
  have "was_built s p u" using BuiltOK_evidence [OF found(2) assms(2)] by simp
  then show ?thesis
    using evidence_later [OF assms(1,2) u] found by (auto simp: evidence_def)
next
  case (missed final p ps missing u)
  have u: "later (shared P) u" using missed(2) by (rule built.op_to) simp
  have "was_missing s p u" using BuiltOK_evidence [OF missed(2) assms(2)] by simp
  then show ?thesis
    using evidence_later [OF assms(1,2) u] missed by (auto simp: evidence_def)
next
  case (swept final missing)
  then show ?thesis using assms(1) by (cases final) (auto simp: evidence_def)
next
  case (marked p ps)
  then show ?thesis using assms(1) by (auto simp: evidence_def)
qed

lemma evidence_copy:
  assumes "evidence J s (shared P) P" and "later s (shared P)" and "copy_step J i P = Some P'"
  shows "evidence J s (shared P') P'"
  using assms(3)
proof (rule copy_cases)
  fix p ok u
  assume *: "i < length (workers P)" "workers P ! i = WCopying p"
    "CopyClosure (jquiet J) (pr_host p) (SystemPath (pr_plan p)) (shared P) = (ok, u)"
    "P' = (if ok then P\<lparr>shared := u, workers := (workers P)[i := WPutting p]\<rparr>
      else leave J p StatusCopyFailed (P\<lparr>shared := u, workers := (workers P)[i := WIdle]\<rparr>))"
  have u: "later (shared P) u" using *(3) by (rule copy.op_to) simp
  have c: "copy_answer ok s p u" using *(3) assms(2) by (rule CopyClosure_evidence)
  have ev: "evidence J s u P" using assms(1,2) u by (rule evidence_later)
  moreover have "WCopying p \<in> set (workers P)" using *(1,2) by (metis nth_mem)
  ultimately have "was_built s p u" by (auto simp: evidence_def)
  then show ?thesis using ev c *(4)
    by (cases ok) (auto simp: evidence_def dest!: in_updateD)
qed

lemma evidence_activate:
  assumes "evidence J s (shared P) P" and "later s (shared P)" and "activate_step J P = Some P'"
  shows "evidence J s (shared P') P'"
  using assms(3)
proof (rule activate_cases)
  fix p :: precheck_result and ok u stop
  let ?v = "dropSSHMaster (ctx_runner (jctx J)) (pr_host p) u"
  assume *: "drainer P = Activating p"
    "Deploy (jctx J) (pr_host p) ModeSafe (pr_plan p) (shared P) = (ok, u)"
    "P' = (leave J p (if ok then StatusDeployed else StatusDeployFailed)
      (P\<lparr>shared := ?v, drainer := Draining\<rparr>))\<lparr>stopped := stop\<rparr>"
  have u: "later (shared P) u" using *(2) by (rule deploy.op_to) simp
  have v: "later u ?v" by (intro extends_intros TrueI)
  have "ready s p (shared P)" using assms(1) *(1) by (simp add: evidence_def)
  then have "activation_ran J ok s p ?v"
    using assms(2) *(2) v unfolding activation_ran_def by blast
  moreover have "evidence J s ?v P" using evidence_later [OF assms(1,2)] extends_trans [OF u v] .
  ultimately show ?thesis using *(3) by (cases ok) (auto simp: evidence_def)
qed

lemma evidence_step:
  assumes "evidence J s (shared P) P" and "later s (shared P)" and "flow_inv J P"
    and "pstep J l P = Some P'"
  shows "evidence J s (shared P') P'"
  using assms(4)
proof (cases rule: pstep_cases)
  case (drift w)
  then have "evidence J s (shared P') P"
    using evidence_later [OF assms(1,2)] step_later [OF assms(4,3)] by blast
  then show ?thesis by (simp add: drift(2) evidence_def)
next
  case build
  have ev: "evidence J s (shared P') P"
    using evidence_later [OF assms(1,2)] step_later [OF assms(4,3)] by blast
  from build(2) show ?thesis
    by (rule build_cases) (use ev in \<open>auto simp: evidence_def\<close>)
next
  case tick
  from tick(2) show ?thesis by (rule sweep_cases) (use assms(1) in \<open>simp add: evidence_def\<close>)
next
  case seen
  from seen(3) show ?thesis
    by (rule sweep_cases) (use assms(1) seen(2) in \<open>simp add: evidence_def\<close>)
next
  case poll
  show ?thesis using evidence_poll [OF assms(1-3) poll(2)] .
next
  case (take i)
  from take(2) show ?thesis
    by (cases rule: take_cases) (use assms(1) in \<open>auto simp: evidence_def dest!: in_updateD\<close>)
next
  case (copy i)
  show ?thesis using evidence_copy [OF assms(1,2) copy(2)] .
next
  case (put i)
  from put(2) assms(3) show ?thesis
  proof (rule put_cases)
    fix p
    assume *: "i < length (workers P)" "workers P ! i = WPutting p"
      "P' = P\<lparr>workers := (workers P)[i := WIdle], actCh := (actCh P)\<lparr>queue := queue (actCh P) @ [p]\<rparr>\<rparr>"
    have "WPutting p \<in> set (workers P)" using *(1,2) by (metis nth_mem)
    then have "ready s p (shared P)" using assms(1) by (auto simp: evidence_def ready_def)
    then show ?thesis using assms(1) *(3) by (auto simp: evidence_def dest!: in_updateD)
  qed
next
  case close
  from close(2) assms(3) show ?thesis
    by (rule close_cases) (use assms(1) in \<open>simp add: evidence_def\<close>)
next
  case receive
  from receive(2) show ?thesis
    by (cases rule: receive_cases) (use assms(1) in \<open>auto simp: evidence_def\<close>)
next
  case activate
  show ?thesis using evidence_activate [OF assms(1,2) activate(2)] .
qed

lemma reaches_evidence: "reaches J s P \<Longrightarrow> evidence J s (shared P) P"
proof (induction rule: reaches.induct)
  case (started P)
  then show ?case by (auto simp: pipe_start_Some evidence_def make_chan_def ready_def)
next
  case (stepped P l P')
  show ?case
    using evidence_step [OF stepped.IH reaches_later [OF stepped.hyps(1)]
        reaches_flow [OF stepped.hyps(1)] stepped.hyps(2)] .
qed

section \<open>The results of a run\<close>

lemma result_slot:
  assumes "reaches J s P" and "drainer P = Returned" and "distinct (map (Name \<circ> pr_host) (jtodo J))"
    and "i < length (jtodo J)"
  shows "hr_host (results P ! i) = pr_host (jtodo J ! i)"
    and "(jtodo J ! i, hr_status (results P ! i)) \<in> set (finished P)"
proof -
  have inv: "flow_inv J P" using assms(1) by (rule reaches_flow)
  note dist = finished_distinct [OF inv assms(3)]
  note slot = replay_nth [OF assms(3) finished_subset [OF inv] dist assms(4)]
  have rs: "results P = replay J (finished P)" using assms(1) by (rule reaches_replay)
  show "hr_host (results P ! i) = pr_host (jtodo J ! i)" using slot by (simp add: rs)
  have "set (map fst (finished P)) = set (jtodo J)"
    using returned_all(1) [OF inv assms(2)] by (metis set_mset_mset)
  then have "jtodo J ! i \<in> fst ` set (finished P)" using assms(4) by (metis nth_mem set_map)
  then obtain st where st: "(jtodo J ! i, st) \<in> set (finished P)" by force
  then have "map_of (finished P) (jtodo J ! i) = Some st" using dist by simp
  then have "hr_status (results P ! i) = st" using slot by (simp add: rs)
  with st show "(jtodo J ! i, hr_status (results P ! i)) \<in> set (finished P)" by simp
qed

lemma length_results: "reaches J s P \<Longrightarrow> length (results P) = length (jtodo J)"
  using reaches_replay by fastforce

lemma RunPipeline_justified:
  assumes "RunPipeline J s rs s'" and "distinct (map (Name \<circ> pr_host) (jtodo J))"
  shows "map hr_host rs = map pr_host (jtodo J) \<and>
    (\<forall>i < length rs. justified J s (jtodo J ! i) (hr_status (rs ! i)) s')"
  using assms(1)
proof (cases rule: RunPipeline.cases)
  case no_hosts
  then show ?thesis by simp
next
  case (drained P)
  note slot = result_slot [OF drained(4,5) assms(2)] and len = length_results [OF drained(4)]
  have "justified J s (jtodo J ! i) (hr_status (rs ! i)) s'" if "i < length rs" for i
    using reaches_evidence [OF drained(4)] slot(2) [of i] that len drained(1,2)
    by (auto simp: evidence_def)
  moreover have "map hr_host rs = map pr_host (jtodo J)"
    using slot(1) len drained(1) by (intro nth_equalityI) simp_all
  ultimately show ?thesis by blast
qed

section \<open>A run on machines that fail\<close>

text \<open>
  Two up-to-date hosts, every command of the run exits with 1: the first activation fails,
  the second host is cancelled, and the function returns although the build of the built-only
  host has not ended.
\<close>

definition dead_machine :: "unit machine" where
  "dead_machine =
     \<lparr>exec = (\<lambda>argv env timeout w. (process_of (zero_result\<lparr>ExitCode := 1\<rparr>), w)),
      environ = [], nap = (\<lambda>d w. (0, w)), wall_clock = (\<lambda>w. 0),
      mkdir_temp = (\<lambda>dir pre w. (Inl ''no directory'', w)),
      list_dir = (\<lambda>dir w. []), remove_all = (\<lambda>dir w. w)\<rparr>"

definition dead_runner :: "unit runner" where
  "dead_runner = \<lparr>Quiet = False, Control = None, os = dead_machine\<rparr>"

definition ready_host :: "string \<Rightarrow> precheck_result" where
  "ready_host name = zero_precheck\<lparr>pr_host := zero_host\<lparr>Name := name\<rparr>,
     pr_plan := \<lparr>SystemPath = ''/nix/store/new'', DrvPath = ''/nix/store/new.drv'', UpToDate = True\<rparr>\<rparr>"

definition dead_job :: "unit job" where
  "dead_job =
     \<lparr>jctx = \<lparr>ctx_runner = dead_runner, Prompter = None, RebootFlag = RebootFlagNever, collects = True\<rparr>,
      jquiet = dead_runner, jtodo = [ready_host ''a'', ready_host ''b''], jextra = [''/nix/store/c.drv''],
      jopts = \<lparr>CopyJobs = 1, OnFailure = OnFailureStop,
               Build = \<lparr>MaxJobs = 0, Cores = 0, Stream = True\<rparr>\<rparr>\<rparr>"

definition dead_st :: "unit st" where
  "dead_st = \<lparr>world = (), clock = 0, warnings = [], trace = []\<rparr>"

lemma dead_Run:
  "Run dead_runner k env t s =
     (zero_result\<lparr>ExitCode := 1\<rparr>, s\<lparr>trace := trace s @ [Ran k (zero_result\<lparr>ExitCode := 1\<rparr>)]\<rparr>)"
  by (simp add: Run_def dead_runner_def dead_machine_def process_of_def result_of_def
      zero_result_def Let_def)

lemma dead_Deploy: "fst (Deploy (jctx dead_job) h m p s) = False"
  by (simp add: Deploy_def CheckSSHReachable_def sshEchoOK_def SSHRun_def SSHRunOnce_def dead_job_def
      dead_Run dead_runner_def [THEN arg_cong, of Control] Failed_def zero_result_def
      transportFailed_def Let_def split_beta)

lemma dead_run:
  "\<exists>P. reaches dead_job dead_st P \<and> drainer P = Returned \<and> building P \<and>
     finished P = [(ready_host ''a'', StatusDeployFailed), (ready_host ''b'', StatusCancelled)]"
proof -
  let ?labels = "[Receive, Activate, Receive, PollOne, Take 0, CloseAct, Receive]"
  obtain P0 where P0: "pipe_start dead_job dead_st = Some P0" by (simp add: pipe_start_Some)
  have a: "CopyJobs (jopts dead_job) = 1" "OnFailure (jopts dead_job) = OnFailureStop"
    "jtodo dead_job = [ready_host ''a'', ready_host ''b'']"
    by (simp_all add: dead_job_def)
  have b: "UpToDate (pr_plan (ready_host n))" for n by (simp add: ready_host_def)
  have "\<exists>P. run_labels (pstep dead_job) ?labels P0 = Some P \<and> drainer P = Returned \<and> building P \<and>
      finished P = [(ready_host ''a'', StatusDeployFailed), (ready_host ''b'', StatusCancelled)]"
    using P0 dead_Deploy
    by (auto simp: pipe_start_Some a b pstep.simps receive_step_def activate_step_def poll_one_def
        take_step_def close_act_def receive_def close_def end_poller_def make_chan_def leave_def
        job_copies_def need_build_def split_beta Let_def)
  then obtain P where P: "run_labels (pstep dead_job) ?labels P0 = Some P" "drainer P = Returned"
    "building P" "finished P = [(ready_host ''a'', StatusDeployFailed), (ready_host ''b'', StatusCancelled)]"
    by blast
  have "reaches dead_job dead_st P"
    using P0 P(1) by (intro reaches_schedule [THEN iffD2] exI [of _ P0] exI [of _ ?labels] conjI)
  with P show ?thesis by blast
qed

section \<open>Properties\<close>

text \<open>
  C10: no host is lost, duplicated or dropped, and nothing panics. In every state of every
  run, each host of the plan is in exactly one place: with the poller, queued for copying,
  in the hands of a copy worker, queued for activation, being activated, or gone with a
  status; no channel holds more than its buffer, so no send ever has to wait.
\<close>

theorem pipeline_keeps_every_host:
  assumes "reaches J s P"
  shows "mset (polled (poller P)) + mset (queue (copyCh P)) +
      mset (concat (map in_hand (workers P))) + mset (queue (actCh P)) +
      mset (on_table (drainer P)) + mset (map fst (finished P)) = mset (jtodo J) \<and>
    length (queue (copyCh P)) \<le> cap (copyCh P) \<and> length (queue (actCh P)) \<le> cap (actCh P) \<and>
    \<not> crashed P"
  using reaches_flow [OF assms] flow_room [OF reaches_flow [OF assms]]
  by (auto simp: flow_inv_def places_def add.assoc)

theorem pipeline_keeps_every_host_witness:
  "\<exists>P. reaches dead_job dead_st P \<and> length (finished P) = 2 \<and> \<not> crashed P"
proof -
  obtain P where P: "reaches dead_job dead_st P" "length (finished P) = 2" using dead_run by fastforce
  from pipeline_keeps_every_host [OF P(1)] P show ?thesis by blast
qed

text \<open>
  C16: a run ends. From the start, a schedule of any length makes at most seven steps per
  host, one per copy worker and six more, apart from the ticks of the poller and the changes
  of the world; each of those can cause at most one more step per host and one.
\<close>

theorem pipeline_terminates:
  assumes "pipe_start J s = Some P0" and "run_labels (pstep J) ls P0 = Some P"
  shows "length (filter working ls) \<le> 7 * length (jtodo J) + job_copies J + 6 +
    (length (jtodo J) + 1) * length (filter (\<lambda>l. \<not> working l) ls)"
proof -
  have "length (filter (\<lambda>p. UpToDate (pr_plan p)) (jtodo J)) + length (need_build (jtodo J)) =
      length (jtodo J)"
    unfolding need_build_def by (rule sum_length_filter_compl)
  moreover have "pipe_size P0 = 7 * length (need_build (jtodo J)) + job_copies J +
      2 * length (filter (\<lambda>p. UpToDate (pr_plan p)) (jtodo J)) + 6"
    using assms(1) by (auto simp: pipe_start_Some pipe_size_def make_chan_def sum_list_replicate)
  ultimately have "pipe_size P0 \<le> 7 * length (jtodo J) + job_copies J + 6" by linarith
  then show ?thesis
    using flow.bounded_work [OF flow_start [OF assms(1)] assms(2)] by linarith
qed

theorem pipeline_terminates_witness:
  "\<exists>P0 P. pipe_start dead_job dead_st = Some P0 \<and> run_labels (pstep dead_job) [Tick, Receive] P0 = None \<and>
     run_labels (pstep dead_job) [Receive] P0 = Some P \<and> length (filter working [Receive :: unit label]) \<le> 21"
proof -
  obtain P0 where P0: "pipe_start dead_job dead_st = Some P0" by (simp add: pipe_start_Some)
  obtain P where P: "run_labels (pstep dead_job) [Receive] P0 = Some P"
    using P0 by (auto simp: pipe_start_Some pstep.simps receive_step_def receive_def dead_job_def
        ready_host_def make_chan_def Let_def)
  have "run_labels (pstep dead_job) [Tick, Receive] P0 = None"
    using P0 by (auto simp: pipe_start_Some pstep.simps start_sweep_def dead_job_def ready_host_def
        need_build_def)
  moreover have "length (filter working [Receive :: unit label]) \<le> 21"
    using pipeline_terminates [OF P0 P] by (simp add: dead_job_def job_copies_def)
  ultimately show ?thesis using P0 P by blast
qed

text \<open>
  C15: a run never hangs. As long as the function has not returned, some goroutine other
  than the clock can make its next step, whatever happened so far; and from every reachable
  state those steps alone lead to the return.
\<close>

theorem pipeline_returns:
  assumes "reaches J s P"
  shows "(drainer P = Returned \<or> (\<exists>l P'. working l \<and> pstep J l P = Some P')) \<and>
    (\<exists>ls P'. list_all working ls \<and> run_labels (pstep J) ls P = Some P' \<and> drainer P' = Returned)"
proof (intro conjI)
  have inv: "flow_inv J P" using assms by (rule reaches_flow)
  show "drainer P = Returned \<or> (\<exists>l P'. working l \<and> pstep J l P = Some P')"
    using pipe_progress [OF inv] by argo
  show "\<exists>ls P'. list_all working ls \<and> run_labels (pstep J) ls P = Some P' \<and> drainer P' = Returned"
    by (rule flow.can_finish [OF pipe_progress inv])
qed

theorem pipeline_returns_witness:
  "\<exists>P0. pipe_start dead_job dead_st = Some P0 \<and>
     (\<exists>ls P'. run_labels (pstep dead_job) ls P0 = Some P' \<and> drainer P' = Returned)"
proof -
  obtain P0 where P0: "pipe_start dead_job dead_st = Some P0" by (simp add: pipe_start_Some)
  then have "reaches dead_job dead_st P0" by (rule started)
  from pipeline_returns [OF this] P0 show ?thesis by blast
qed

text \<open>
  C8: the results a run reports are true. With distinct host names, result \<open>i\<close> is about
  host \<open>i\<close> of the plan, and its status rests on the calls of this run: deployed or failed
  to deploy, when the activation of that host returned exactly that, started after the host
  was up to date or its closure had been seen in the store and copied; failed to copy or
  to build, when that was the answer.
\<close>

theorem pipeline_results_true:
  assumes "RunPipeline J s rs s'" and "distinct (map (Name \<circ> pr_host) (jtodo J))"
  shows "map hr_host rs = map pr_host (jtodo J) \<and>
    (\<forall>i < length rs. justified J s (jtodo J ! i) (hr_status (rs ! i)) s')"
  using assms by (rule RunPipeline_justified)

theorem pipeline_results_true_witness:
  "\<exists>rs s'. RunPipeline dead_job dead_st rs s' \<and>
     map hr_host rs = map pr_host [ready_host ''a'', ready_host ''b'']"
proof -
  obtain P where P: "reaches dead_job dead_st P" "drainer P = Returned" using dead_run by blast
  have todo: "jtodo dead_job = [ready_host ''a'', ready_host ''b'']" by (simp add: dead_job_def)
  have "RunPipeline dead_job dead_st (results P) (shared P)"
    using P by (intro RunPipeline.drained) (simp_all add: todo)
  moreover have "distinct (map (Name \<circ> pr_host) (jtodo dead_job))"
    by (simp add: todo ready_host_def)
  ultimately show ?thesis using pipeline_results_true todo by metis
qed

text \<open>
  C14: a stage is only entered on evidence of the one before. A worker copies a closure only
  after the store has answered that it is there; a host is activated only if it was up to
  date, or its closure was seen in the store and its copy succeeded; a host is reported as
  not built only once the build has ended.
\<close>

theorem stages_need_evidence:
  assumes "reaches J s P"
  shows "(WCopying p \<in> set (workers P) \<longrightarrow>
      answered (NixPathInfo (SystemPath (pr_plan p))) True s (shared P)) \<and>
    (drainer P = Activating p \<longrightarrow> UpToDate (pr_plan p) \<or>
      answered (NixPathInfo (SystemPath (pr_plan p))) True s (shared P) \<and>
      answered (NixCopy (pr_host p) (SystemPath (pr_plan p))) True s (shared P)) \<and>
    ((p, StatusBuildFailed) \<in> set (finished P) \<longrightarrow> \<not> building P)"
  using reaches_evidence [OF assms]
  by (auto simp: evidence_def ready_def was_built_def copy_answer_def)

theorem stages_need_evidence_witness:
  "\<exists>P. reaches dead_job dead_st P \<and> building P \<and> (ready_host ''a'', StatusBuildFailed) \<notin> set (finished P)"
proof -
  obtain P where P: "reaches dead_job dead_st P" "building P" using dead_run by blast
  from stages_need_evidence [OF P(1), of "ready_host ''a''"] P show ?thesis by blast
qed

text \<open>
  C9: a failure that stops the run stops it for good. Once the activation of a Kubernetes
  node has failed, or that of any host with \<open>--on-failure stop\<close>, no host is being activated
  and every host that leaves later was cancelled, not built or not copied: its own activation
  never ran. Conversely, a host is cancelled only after such a failure.
\<close>

theorem failure_stops_the_run:
  assumes "reaches J s P" and "finished P = xs @ (p, st) # ys"
  shows "if st = StatusDeployFailed \<and> halts J p
    then on_table (drainer P) = [] \<and>
      (\<forall>(q, r) \<in> set ys. r \<noteq> StatusDeployed \<and> r \<noteq> StatusDeployFailed)
    else st \<noteq> StatusCancelled \<or> (\<exists>q. (q, StatusDeployFailed) \<in> set xs \<and> halts J q)"
proof -
  have inv: "stop_inv J P" using assms(1) by (rule reaches_stop)
  then have ord: "orderly J (finished P)" by (simp add: stop_inv_def)
  show ?thesis
  proof (cases "st = StatusDeployFailed \<and> halts J p")
    case True
    then have "stopped P" using inv assms(2) by (auto simp: stop_inv_def halted_def)
    then have "on_table (drainer P) = []" using inv by (simp add: stop_inv_def)
    moreover have "r \<noteq> StatusDeployed \<and> r \<noteq> StatusDeployFailed" if "(q, r) \<in> set ys" for q r
    proof -
      from that obtain us vs where "ys = us @ (q, r) # vs" by (auto dest: split_list)
      then have "finished P = (xs @ (p, st) # us) @ (q, r) # vs" using assms(2) by simp
      moreover have "halted J (xs @ (p, st) # us)" using True by (auto simp: halted_def)
      ultimately show ?thesis using ord unfolding orderly_def by blast
    qed
    ultimately show ?thesis using True by auto
  next
    case False
    have "st = StatusCancelled \<longrightarrow> halted J xs" using ord assms(2) unfolding orderly_def by blast
    then show ?thesis using False by (auto simp: halted_def)
  qed
qed

theorem failure_stops_the_run_witness:
  "\<exists>P. reaches dead_job dead_st P \<and> halts dead_job (ready_host ''a'') \<and> on_table (drainer P) = [] \<and>
     finished P = [(ready_host ''a'', StatusDeployFailed), (ready_host ''b'', StatusCancelled)]"
proof -
  obtain P where P: "reaches dead_job dead_st P"
    "finished P = [] @ (ready_host ''a'', StatusDeployFailed) # [(ready_host ''b'', StatusCancelled)]"
    using dead_run by auto
  have "halts dead_job (ready_host ''a'')" by (simp add: halts_def dead_job_def)
  with failure_stops_the_run [OF P] P show ?thesis by auto
qed

text \<open>
  The results are final. After the function has returned, only the build can still make
  a step, and it changes neither the results nor where the hosts are: no worker, no poller
  and no activation is left running.
\<close>

theorem nothing_moves_after_return:
  assumes "reaches J s P" and "drainer P = Returned" and "pstep J l P = Some P'"
  shows "((\<exists>w. l = Drift w) \<or> l = FinishBuild \<and> building P) \<and>
    results P' = results P \<and> finished P' = finished P \<and> drainer P' = Returned"
proof -
  have inv: "flow_inv J P" using assms(1) by (rule reaches_flow)
  note ret = returned_all [OF inv assms(2)]
  have idle: "workers P ! i = WExited" if "i < length (workers P)" for i
    using ret(2) nth_mem [OF that] by blast
  have closed: "\<not> closer P" using inv assms(2) by (simp add: flow_inv_def)
  from assms(3) show ?thesis
  proof (cases rule: pstep_cases)
    case (drift w)
    then show ?thesis using assms(2) by simp
  next
    case build
    from build(2) show ?thesis by (rule build_cases) (use build(1) assms(2) in simp)
  next
    case tick
    from tick(2) show ?thesis by (rule sweep_cases) (use ret(3) in simp)
  next
    case seen
    from seen(3) show ?thesis by (rule sweep_cases) (use ret(3) in simp)
  next
    case poll
    from poll(2) inv show ?thesis by (cases rule: poll_cases) (use ret(3) in auto)
  next
    case (take i)
    from take(2) show ?thesis by (cases rule: take_cases) (use idle in auto)
  next
    case (copy i)
    from copy(2) show ?thesis by (rule copy_cases) (use idle in auto)
  next
    case (put i)
    from put(2) inv show ?thesis by (rule put_cases) (use idle in auto)
  next
    case close
    from close(2) inv show ?thesis by (rule close_cases) (use closed in simp)
  next
    case receive
    from receive(2) show ?thesis by (cases rule: receive_cases) (use assms(2) in auto)
  next
    case activate
    from activate(2) show ?thesis by (rule activate_cases) (use assms(2) in simp)
  qed
qed

theorem nothing_moves_after_return_witness:
  "\<exists>P P'. reaches dead_job dead_st P \<and> drainer P = Returned \<and>
     pstep dead_job (Drift ()) P = Some P' \<and> results P' = results P"
proof -
  obtain P where P: "reaches dead_job dead_st P" "drainer P = Returned" using dead_run by blast
  have "\<not> crashed P" using reaches_flow [OF P(1)] by (simp add: flow_inv_def)
  then obtain P' where P': "pstep dead_job (Drift ()) P = Some P'" by (simp add: pstep.simps)
  from nothing_moves_after_return [OF P P'] P P' show ?thesis by blast
qed

text \<open>
  C19: the function does not wait for the build. It can return while the one build is still
  running although derivations of built-only hosts are part of it, which the caller then
  looks for in the store.
\<close>

theorem pipeline_can_return_while_building:
  "\<exists>(J :: unit job) s P. reaches J s P \<and> drainer P = Returned \<and> building P \<and>
     jextra J \<noteq> [] \<and> RunPipeline J s (results P) (shared P)"
proof -
  obtain P where P: "reaches dead_job dead_st P" "drainer P = Returned" "building P"
    using dead_run by blast
  then have "RunPipeline dead_job dead_st (results P) (shared P)"
    by (intro RunPipeline.drained) (simp_all add: dead_job_def)
  moreover have "jextra dead_job \<noteq> []" by (simp add: dead_job_def)
  ultimately show ?thesis using P by blast
qed

end
