(* ===== verification/Cli_Props.thy ===== *)
theory Cli_Props
  imports Cli_Args Pipeline_Props
begin

text \<open>
  What a whole run guarantees: what exit code 0 means, what happens when a Kubernetes node
  fails the precheck, that a build-only run stays local, how the one-by-one modes stop, and
  how the operator's answers are read.
\<close>

section \<open>Parts of a run\<close>

lemma drift_extends: "extends Q s u \<Longrightarrow> extends Q s (u\<lparr>world := w\<rparr>)"
  by (simp add: extends_def)

lemma not_built_extends:
  "extends (\<lambda>k. \<exists>h \<in> set hs. k = NixPathInfo (Out (toplevel_of paths h))) s
     (snd (not_built drift r paths n hs failed s))"
proof (induction hs arbitrary: n failed s)
  case (Cons h hs)
  let ?Q = "\<lambda>k. \<exists>g \<in> set (h # hs). k = NixPathInfo (Out (toplevel_of paths g))"
  obtain built t where b: "BuiltOK r (Out (toplevel_of paths h)) (s\<lparr>world := drift n (world s)\<rparr>) = (built, t)"
    by force
  then have "extends ?Q (s\<lparr>world := drift n (world s)\<rparr>) t" by (rule built.op_to) simp
  then have t: "extends ?Q s t" by (simp add: extends_def)
  have rest: "extends ?Q t (snd (not_built drift r paths (Suc n) hs fs t))" for fs
    using Cons.IH by (rule extends_mono) auto
  show ?case using b extends_trans [OF t rest] by simp
qed simp

lemma not_built_none:
  assumes "not_built drift r paths n hs failed u = ([], s')" and "later s u"
  shows "failed = [] \<and> later s s' \<and>
    (\<forall>h \<in> set hs. answered (NixPathInfo (Out (toplevel_of paths h))) True s s')"
  using assms
proof (induction hs arbitrary: n failed u)
  case (Cons h hs)
  let ?k = "NixPathInfo (Out (toplevel_of paths h))" and ?u = "u\<lparr>world := drift n (world u)\<rparr>"
  obtain built t where b: "BuiltOK r (Out (toplevel_of paths h)) ?u = (built, t)" by force
  have u: "later s ?u" using Cons.prems(2) by (rule drift_extends)
  then have t: "later s t" using b by (metis built.op_from snd_conv)
  have IH: "(if \<not> built then failed @ [Name h] else failed) = [] \<and> later s s' \<and>
      (\<forall>g \<in> set hs. answered (NixPathInfo (Out (toplevel_of paths g))) True s s')"
    using Cons.IH [OF _ t] Cons.prems(1) b by simp
  then have "built" by (cases built) simp_all
  then have "answered ?k True s t"
    using b u answered_now [OF u, of t ?k] Run_trace [of r ?k "[]" pathInfoTimeout ?u]
    by (auto simp: BuiltOK_def split_beta split: if_splits)
  moreover have "later t s'"
    using laterI [OF not_built_extends [of hs paths t drift r "Suc n"
          "if \<not> built then failed @ [Name h] else failed"]] Cons.prems(1) b
    by simp
  ultimately have "answered ?k True s s'" using t answered_mono by blast
  with IH \<open>built\<close> show ?case by simp
qed simp

lemma triage_spec:
  "triage ps failed skipped todo =
     (failed @ map (Name \<circ> pr_host) (filter (\<lambda>p. pr_skip p \<and> pr_failed p) ps),
      skipped @ map (Name \<circ> pr_host) (filter (\<lambda>p. pr_skip p \<and> \<not> pr_failed p) ps),
      todo @ filter (\<lambda>p. \<not> pr_skip p) ps)"
  by (induction ps failed skipped todo rule: triage.induct) auto

lemma k3s_down_None:
  "k3s_down ps = None \<longleftrightarrow> (\<forall>p \<in> set ps. \<not> (pr_skip p \<and> pr_failed p \<and> InGroup (pr_host p) ''k3s''))"
  by (induction ps) auto

lemma failed_hosts_Nil: "failed_hosts rs = [] \<longleftrightarrow> (\<forall>r \<in> set rs. hr_status r = StatusDeployed)"
  by (auto simp: failed_hosts_def status_failed_def filter_empty_conv)

lemma reaches_of_run: "RunPipeline J s rs s' \<Longrightarrow> later s s'"
  by (auto elim!: RunPipeline.cases intro: reaches_later laterI [OF build.op_extends])

lemma Drop_from: "extends Q s u \<Longrightarrow> Q (SshExitHost h) \<Longrightarrow> extends Q s (Drop r h u)"
  using dropSSHMaster_from [of Q s u h r] by (simp add: dropSSHMaster_def)

lemma serial_extends:
  "extends (\<lambda>k. \<exists>p \<in> set ps. concerns (pr_host p) k) s (snd (serial c q args ps failed s))"
proof (induction ps arbitrary: failed s)
  case (Cons p ps)
  let ?Q = "\<lambda>k. \<exists>p \<in> set (p # ps). concerns (pr_host p) k"
  obtain ok t where d: "Deploy c (pr_host p) (arg_mode args) (pr_plan p) s = (ok, t)" by force
  then have "extends ?Q s t" by (rule deploy.op_to) simp
  then have u: "extends ?Q s (Drop q (pr_host p) t)" by (rule Drop_from) simp
  have rest: "extends ?Q (Drop q (pr_host p) t) (snd (serial c q args ps fs (Drop q (pr_host p) t)))"
    for fs
    using Cons.IH by (rule extends_mono) auto
  note whole = extends_trans [OF u rest]
  show ?case using d u whole [of failed] whole [of "failed @ [Name (pr_host p)]"]
    by (simp add: Let_def)
qed simp

lemma deploy_todo_later: "deploy_todo E args ctl todo extraDrvs s failed s' \<Longrightarrow> later s s'"
proof (induction rule: deploy_todo.induct)
  case (one_by_one args E ctl todo s failed t s' extraDrvs)
  have "later s t"
    using laterI [OF serial_extends [of todo s "run_ctx E args ctl" "quiet_runner E ctl" args "[]"]]
      one_by_one(2) by simp
  from build.op_from [OF this] have "later s (snd (BuildAll r drvs opts t))" for r drvs opts by simp
  then show ?case using one_by_one(3) \<open>later s t\<close> by simp
qed (rule reaches_of_run)

lemma Close_later: "later s (Close r s)"
  by (rule Close_from) simp_all

section \<open>What a deployed host rests on\<close>

definition deploy_succeeded :: "'w deploy_ctx \<Rightarrow> 'w st \<Rightarrow> precheck_result \<Rightarrow> 'w st \<Rightarrow> bool" where
  "deploy_succeeded c s p u \<longleftrightarrow> (\<exists>v v'. later s v \<and>
     Deploy c (pr_host p) ModeSafe (pr_plan p) v = (True, v') \<and> later v' u)"

lemma deploy_succeeded_later:
  "deploy_succeeded c s p u \<Longrightarrow> later u u' \<Longrightarrow> deploy_succeeded c s p u'"
  unfolding deploy_succeeded_def using extends_trans by blast

text \<open>
  One host of a safe run that reported no failure: its precheck passed it over for a benign
  reason, or its activation returned success.
\<close>

definition host_done :: "'w env \<Rightarrow> cli_args \<Rightarrow> ssh_control option \<Rightarrow> 'w st \<Rightarrow> host \<Rightarrow> 'w st \<Rightarrow> bool" where
  "host_done E args ctl s h u \<longleftrightarrow>
     (\<exists>p top t. later s t \<and> p = fst (precheckHost (quiet_runner E ctl) (arg_force args) h top t) \<and>
        (pr_skip p \<and> \<not> pr_failed p \<or>
         \<not> pr_skip p \<and> deploy_succeeded (run_ctx E args ctl) s p u))"

lemma host_done_later: "host_done E args ctl s h u \<Longrightarrow> later u u' \<Longrightarrow> host_done E args ctl s h u'"
  unfolding host_done_def using deploy_succeeded_later by blast

lemma pipelined_hosts_done:
  assumes sched: "schedule_of hosts ps" and names: "distinct (map Name hosts)" and st: "later s t"
    and pre: "PrecheckAll (quiet_runner E ctl) ps hosts paths (arg_force args) t = (pre, u)"
    and ok: "\<forall>p \<in> set pre. \<not> (pr_skip p \<and> pr_failed p)"
    and todo: "todo = filter (\<lambda>p. \<not> pr_skip p) pre"
    and run: "RunPipeline (pipeline_job E args ctl todo extra) u rs v"
    and good: "failed_hosts rs = []" and h: "h \<in> set hosts"
  shows "host_done E args ctl s h v"
proof -
  let ?J = "pipeline_job E args ctl todo extra"
  obtain i where i: "i < length hosts" "h = hosts ! i" using h by (auto simp: in_set_conv_nth)
  have hosts: "map pr_host pre = hosts" using PrecheckAll_hosts [OF sched] pre by (metis fst_conv)
  obtain w where w: "later t w"
    "pre ! i = fst (precheckHost (quiet_runner E ctl) (arg_force args) h (toplevel_of paths h) w)"
    using PrecheckAll_each [OF sched i(1), of "quiet_runner E ctl" paths "arg_force args" t] pre i(2) laterI
    by (metis fst_conv)
  have su: "later s u"
    using extends_trans [OF st laterI [OF PrecheckAll_extends [OF sched]]] pre by (metis snd_conv)
  have sw: "later s w" using st w(1) by (rule extends_trans)
  have len: "i < length pre" using i(1) hosts by (metis length_map)
  show ?thesis
  proof (cases "pr_skip (pre ! i)")
    case True
    then have "\<not> pr_failed (pre ! i)" using ok len nth_mem by blast
    with True sw w(2) show ?thesis unfolding host_done_def by blast
  next
    case False
    then have "pre ! i \<in> set todo" using todo len by auto
    then obtain j where j: "j < length todo" "todo ! j = pre ! i" by (auto simp: in_set_conv_nth)
    have "map (Name \<circ> pr_host) pre = map Name hosts" using hosts by (metis map_map)
    then have "distinct (map (Name \<circ> pr_host) pre)" using names by simp
    then have "distinct (map (Name \<circ> pr_host) (jtodo ?J))"
      by (simp add: pipeline_job_def todo distinct_map_filter)
    from RunPipeline_justified [OF run this]
    have res: "length rs = length todo" "justified ?J u (todo ! j) (hr_status (rs ! j)) v"
      using j(1) by (auto simp: pipeline_job_def dest: map_eq_imp_length_eq)
    have "hr_status (rs ! j) = StatusDeployed" using good j(1) res(1) by (simp add: failed_hosts_Nil)
    with res(2) have "activation_ran ?J True u (pre ! i) v" using j(2) by simp
    then obtain x x' where x: "later u x"
      "Deploy (run_ctx E args ctl) (pr_host (pre ! i)) ModeSafe (pr_plan (pre ! i)) x = (True, x')"
      "later x' v"
      by (auto simp: activation_ran_def pipeline_job_def)
    have "later s x" using su x(1) by (rule extends_trans)
    then have "deploy_succeeded (run_ctx E args ctl) s (pre ! i) v"
      using x unfolding deploy_succeeded_def by blast
    with False sw w(2) show ?thesis unfolding host_done_def by blast
  qed
qed

text \<open>The calls of evaluating and probing.\<close>

definition probing :: "host list \<Rightarrow> call \<Rightarrow> bool" where
  "probing hs k \<longleftrightarrow> (\<exists>h \<in> set hs. k = NixEval h \<or> precheck_calls h k)"

lemma resolve_probing:
  assumes "schedule_of hs es" and "ResolveToplevels r es hs s = (res, t)"
  shows "extends (probing hs) s t"
proof -
  have "extends (probing hs) s (snd (ResolveToplevels r es hs s))"
    by (rule extends_mono [OF ResolveToplevels_extends [OF assms(1)]]) (auto simp: probing_def)
  with assms(2) show ?thesis by simp
qed

lemma precheck_probing:
  assumes "schedule_of hs ps" and "PrecheckAll r ps hs paths force s = (pre, t)"
    and "set hs \<subseteq> set all"
  shows "extends (probing all) s t"
proof -
  have "extends (probing all) s (snd (PrecheckAll r ps hs paths force s))"
    by (rule extends_mono [OF PrecheckAll_extends [OF assms(1)]])
      (use assms(3) in \<open>auto simp: probing_def\<close>)
  with assms(2) show ?thesis by simp
qed

lemma processed_success:
  assumes "deploy_run E args hosts buildOnly ctl s (0, out) s'" and "arg_mode args = ModeSafe"
    and "distinct (map Name hosts)"
  shows "later s s' \<and> (\<forall>h \<in> set hosts. host_done E args ctl s h s') \<and>
    (\<exists>paths. \<forall>h \<in> set buildOnly. answered (NixPathInfo (Out (toplevel_of paths h))) True s s')"
  using assms(1)
proof (cases rule: deploy_run.cases)
  case (processed es paths t ps pre u failed skipped todo fell v drift buildFailed)
  from processed(1) have none: "failed = []" "fell = []" "buildFailed = []"
    by (auto simp: exit_code_def split: if_splits)
  have tri: "failed = map (Name \<circ> pr_host) (filter (\<lambda>p. pr_skip p \<and> pr_failed p) pre)"
    "todo = filter (\<lambda>p. \<not> pr_skip p) pre"
    using processed(7) by (auto simp: triage_spec)
  have ok: "\<forall>p \<in> set pre. \<not> (pr_skip p \<and> pr_failed p)"
    using tri(1) none(1) by (auto simp: filter_empty_conv)
  have st: "later s t" by (rule laterI [OF resolve_probing [OF processed(3,4)]])
  have tu: "later t u" by (rule laterI [OF precheck_probing [OF processed(5,6) order_refl]])
  have uv: "later u v" using processed(9) by (rule deploy_todo_later)
  have sv: "later s v" using extends_trans [OF st extends_trans [OF tu uv]] .
  have built: "later s s' \<and> (\<forall>h \<in> set buildOnly.
      answered (NixPathInfo (Out (toplevel_of paths h))) True s s')"
    using not_built_none [OF _ sv] processed(10) none(3) by blast
  have vs: "later v s'"
    using laterI [OF not_built_extends [of buildOnly paths v drift "quiet_runner E ctl" 0 "[]"]]
      processed(10) by simp
  from processed(9) assms(2) obtain rs where
    rs: "RunPipeline (pipeline_job E args ctl todo (map (\<lambda>h. Drv (toplevel_of paths h)) buildOnly)) u rs v"
      "failed_hosts rs = []"
    using none(2) by (auto elim: deploy_todo.cases)
  have "host_done E args ctl s h s'" if "h \<in> set hosts" for h
    using host_done_later [OF pipelined_hosts_done [OF processed(5) assms(3) st processed(6) ok tri(2) rs that] vs] .
  with built show ?thesis by blast
qed (use assms(1) in auto)

text \<open>The calls that contact no other machine.\<close>

fun local_call :: "call \<Rightarrow> bool" where
  "local_call (NixEval h) = True"
| "local_call (NixBuild drvs opts) = True"
| "local_call (NixPathInfo path) = True"
| "local_call _ = False"

lemma build_only_local:
  assumes "build_only_run E args es hosts buildOnly s = (c, s')" and "schedule_of (hosts @ buildOnly) es"
  shows "extends local_call s s' \<and>
    (c \<noteq> 0 \<or> (\<exists>paths. \<forall>h \<in> set (hosts @ buildOnly).
       answered (NixPathInfo (Out (toplevel_of paths h))) True s s'))"
proof -
  let ?hs = "sort_key Order (hosts @ buildOnly)"
  let ?r = "\<lparr>Quiet = False, Control = None, os = env_machine E\<rparr>"
  obtain res t where r: "ResolveToplevels (?r\<lparr>Quiet := True\<rparr>) es ?hs s = (res, t)" by force
  have sched: "schedule_of ?hs es" using assms(2) by (simp add: schedule_of_def)
  have "extends local_call s (snd (ResolveToplevels (?r\<lparr>Quiet := True\<rparr>) es ?hs s))"
    by (rule extends_mono [OF ResolveToplevels_extends [OF sched]]) auto
  then have st: "extends local_call s t" using r by simp
  show ?thesis
  proof (cases res)
    case (Inl errs)
    then show ?thesis using assms(1) r st by (simp add: build_only_run_def Let_def)
  next
    case (Inr paths)
    let ?drvs = "map (\<lambda>h. Drv (toplevel_of paths h)) ?hs"
    obtain ok u where b: "BuildAll ?r ?drvs (buildOpts args) t = (ok, u)" by force
    obtain failed v where q: "not_built (\<lambda>n w. w) ?r paths 0 ?hs [] u = (failed, v)" by force
    have c: "c = exit_code [] failed" "s' = v"
      using assms(1) r Inr b q by (simp_all add: build_only_run_def Let_def split_beta)
    have tu: "extends local_call t u" using b by (rule build.op_to) simp
    have "extends local_call u (snd (not_built (\<lambda>n w. w) ?r paths 0 ?hs [] u))"
      by (rule extends_mono [OF not_built_extends]) auto
    then have uv: "extends local_call u v" using q by simp
    have su: "extends local_call s u" using st tu by (rule extends_trans)
    have "\<forall>h \<in> set ?hs. answered (NixPathInfo (Out (toplevel_of paths h))) True s v" if "failed = []"
      using not_built_none [OF _ laterI [OF su]] q that by blast
    then show ?thesis using c extends_trans [OF su uv] by (auto simp: exit_code_def)
  qed
qed

section \<open>The one-by-one modes\<close>

text \<open>The reference: every host is deployed, whatever happened to the ones before it.\<close>

fun deploy_each :: "'w deploy_ctx \<Rightarrow> 'w runner \<Rightarrow> deploy_mode \<Rightarrow> precheck_result list \<Rightarrow> 'w st
    \<Rightarrow> (precheck_result \<times> bool) list \<times> 'w st" where
  "deploy_each c quiet mode [] s = ([], s)"
| "deploy_each c quiet mode (p # ps) s =
     (let (ok, s) = Deploy c (pr_host p) mode (pr_plan p) s;
          (log, s) = deploy_each c quiet mode ps (Drop quiet (pr_host p) s)
      in ((p, ok) # log, s))"

definition stops_after :: "cli_args \<Rightarrow> precheck_result \<times> bool \<Rightarrow> bool" where
  "stops_after args = (\<lambda>(p, ok). \<not> ok \<and>
     (InGroup (pr_host p) ''k3s'' \<or> arg_on_failure args = OnFailureStop))"

definition failures :: "(precheck_result \<times> bool) list \<Rightarrow> string list" where
  "failures log = map (Name \<circ> pr_host \<circ> fst) (filter (\<lambda>(p, ok). \<not> ok) log)"

lemma failures_simps [simp]:
  "failures [] = []" "failures ((p, ok) # log) = (if ok then [] else [Name (pr_host p)]) @ failures log"
  by (simp_all add: failures_def)

lemma serial_prefix:
  "\<exists>n log s'. n \<le> length todo \<and> deploy_each c q (arg_mode args) (take n todo) s = (log, s') \<and>
     serial c q args todo failed s = (failed @ failures log, s') \<and>
     list_all (\<lambda>x. \<not> stops_after args x) (butlast log) \<and>
     (if n = length todo then True else log \<noteq> [] \<and> stops_after args (last log))"
proof (induction todo arbitrary: failed s)
  case Nil
  then show ?case by simp
next
  case (Cons p ps)
  obtain ok t where d: "Deploy c (pr_host p) (arg_mode args) (pr_plan p) s = (ok, t)" by force
  let ?u = "Drop q (pr_host p) t" and ?f = "if ok then failed else failed @ [Name (pr_host p)]"
  show ?case
  proof (cases "stops_after args (p, ok)")
    case True
    then show ?thesis using d
      by (intro exI [of _ 1] exI [of _ "[(p, ok)]"] exI [of _ ?u]) (auto simp: stops_after_def Let_def)
  next
    case False
    obtain n log s' where IH: "n \<le> length ps"
      "deploy_each c q (arg_mode args) (take n ps) ?u = (log, s')"
      "serial c q args ps ?f ?u = (?f @ failures log, s')"
      "list_all (\<lambda>x. \<not> stops_after args x) (butlast log)"
      "if n = length ps then True else log \<noteq> [] \<and> stops_after args (last log)"
      using Cons.IH [of ?u ?f] by blast
    have "serial c q args (p # ps) failed s = serial c q args ps ?f ?u"
      using d False by (auto simp: stops_after_def Let_def)
    then show ?thesis using d IH False
      by (intro exI [of _ "Suc n"] exI [of _ "(p, ok) # log"] exI [of _ s']) auto
  qed
qed

lemma deploy_each_extends:
  "extends (\<lambda>k. \<exists>p \<in> set ps. concerns (pr_host p) k) s (snd (deploy_each c q mode ps s))"
proof (induction ps arbitrary: s)
  case (Cons p ps)
  let ?Q = "\<lambda>k. \<exists>p \<in> set (p # ps). concerns (pr_host p) k"
  obtain ok t where d: "Deploy c (pr_host p) mode (pr_plan p) s = (ok, t)" by force
  then have "extends ?Q s t" by (rule deploy.op_to) simp
  then have u: "extends ?Q s (Drop q (pr_host p) t)" by (rule Drop_from) simp
  have "extends ?Q (Drop q (pr_host p) t) (snd (deploy_each c q mode ps (Drop q (pr_host p) t)))"
    using Cons.IH by (rule extends_mono) auto
  then show ?case using d extends_trans [OF u] by (simp add: split_beta)
qed simp

section \<open>Standard input\<close>

lemma read_line_first:
  "newline \<notin> set l \<Longrightarrow> read_line [] ((l @ newline # more_bytes) # rest) = (Some (l @ [newline]), rest)"
  using IndexByte_first [of newline l more_bytes] by simp

section \<open>Two runs on scripted machines\<close>

text \<open>
  Every evaluation gives the same paths. On the first machine the printer host answers but
  its moonraker does not; on the second the Kubernetes node does not answer.
\<close>

definition demo_env :: "fake_response list \<Rightarrow> string list list env" where
  "demo_env responses =
     \<lparr>env_machine = fake_machine responses, env_hostname = Inr ''talos.lan'',
      env_input = (\<lambda>w. []), env_set_input = (\<lambda>rest w. w)\<rparr>"

definition resolves :: fake_response where
  \<open>resolves = \<lparr>Match = MatchContains [''nix eval''],
     Result = zero_result\<lparr>Stdout := ''{"drv":"/s/x.drv","out":"/s/x"}''\<rparr>\<rparr>\<close>

definition printer_env :: "string list list env" where
  "printer_env = demo_env
     [resolves, \<lparr>Match = MatchContains [''echo ok''], Result = zero_result\<lparr>Stdout := ''ok''\<rparr>\<rparr>,
      \<lparr>Match = MatchContains [''curl''], Result = zero_result\<lparr>ExitCode := 7\<rparr>\<rparr>]"

definition k3s_env :: "string list list env" where
  "k3s_env = demo_env [resolves]"

definition printer_host :: host where
  "printer_host = zero_host\<lparr>Name := ''skyforge'', FlakeName := ''skyforge'', Order := 50,
     Groups := [''printer''], Default := True, ConnChecks := [CheckSSH]\<rparr>"

definition k3s_host :: host where
  "k3s_host = zero_host\<lparr>Name := ''fus'', FlakeName := ''fus'', Groups := [''k3s'']\<rparr>"

definition demo_ctl :: "ssh_control option" where
  "demo_ctl = Some \<lparr>Dir = ''/tmp/deploy-ssh-1''\<rparr>"

definition demo_resolve :: "string list list env \<Rightarrow> host
    \<Rightarrow> (resolve_error list + (string \<rightharpoonup> toplevel)) \<times> string list list st" where
  "demo_resolve E h = ResolveToplevels (quiet_runner E demo_ctl) [0] [h] fresh"

definition demo_precheck :: "string list list env \<Rightarrow> host
    \<Rightarrow> precheck_result list \<times> string list list st" where
  "demo_precheck E h =
     PrecheckAll (quiet_runner E demo_ctl) [0] [h] (projr (fst (demo_resolve E h))) False
       (snd (demo_resolve E h))"

lemma demo_facts:
  "map_sum id (\<lambda>a. (arg_hosts a, arg_build a, arg_self a, arg_mode a, arg_force a))
     (parseArgs [''-hosts'', ''skyforge'']) = Inr ([''skyforge''], False, False, ModeSafe, False)"
  "SelectHosts AllHosts [''skyforge''] = Inr [printer_host]"
  "NewSSHControl (env_machine printer_env) fresh = (Inr demo_ctl, fresh)"
  "\<not> isl (fst (demo_resolve printer_env printer_host))"
  "map (\<lambda>p. (pr_skip p, pr_failed p)) (fst (demo_precheck printer_env printer_host)) = [(True, False)]"
  "\<not> isl (fst (demo_resolve k3s_env k3s_host))"
  "map (\<lambda>p. (pr_skip p, pr_failed p, InGroup (pr_host p) ''k3s'')) (fst (demo_precheck k3s_env k3s_host)) =
     [(True, True, True)]"
  by code_simp+

lemma demo_schedule: "schedule_of [h] [0]"
  by (auto simp: schedule_of_def)

lemma demo_steps:
  assumes "\<not> isl (fst (demo_resolve E h))"
  shows "ResolveToplevels (quiet_runner E demo_ctl) [0] ([h] @ []) fresh =
      (Inr (projr (fst (demo_resolve E h))), snd (demo_resolve E h))"
    and "PrecheckAll (quiet_runner E demo_ctl) [0] [h] (projr (fst (demo_resolve E h))) False
      (snd (demo_resolve E h)) = (fst (demo_precheck E h), snd (demo_precheck E h))"
  using assms by (simp_all add: demo_resolve_def demo_precheck_def prod_eq_iff)

lemma printer_run:
  "\<exists>out s'. run printer_env [''-hosts'', ''skyforge''] fresh (0, out) s'"
proof -
  from demo_facts(1) obtain args where args: "parseArgs [''-hosts'', ''skyforge''] = Inr args"
    "arg_hosts args = [''skyforge'']" "\<not> arg_build args" "\<not> arg_self args" "arg_mode args = ModeSafe"
    "\<not> arg_force args"
    by (cases "parseArgs [''-hosts'', ''skyforge'']") auto
  let ?pre = "fst (demo_precheck printer_env printer_host)" and ?u = "snd (demo_precheck printer_env printer_host)"
  obtain p where p: "?pre = [p]" "pr_skip p" "\<not> pr_failed p" using demo_facts(5) by auto
  have "RunPipeline (pipeline_job printer_env args demo_ctl [] []) ?u [] ?u"
    by (rule RunPipeline.no_hosts) (simp_all add: pipeline_job_def)
  then have "deploy_todo printer_env args demo_ctl [] [] ?u (failed_hosts []) ?u"
    using args(5) by (intro deploy_todo.pipelined)
  then have todo: "deploy_todo printer_env args demo_ctl [] [] ?u [] ?u" by (simp add: failed_hosts_def)
  have "\<exists>out. deploy_run printer_env args [printer_host] [] demo_ctl fresh
      (exit_code ([] @ []) [], out) ?u"
  proof (rule exI, rule deploy_run.processed)
    show "schedule_of ([printer_host] @ []) [0]" "schedule_of [printer_host] [0]"
      using demo_schedule by simp_all
    show "ResolveToplevels (quiet_runner printer_env demo_ctl) [0] ([printer_host] @ []) fresh =
        (Inr (projr (fst (demo_resolve printer_env printer_host))), snd (demo_resolve printer_env printer_host))"
      by (rule demo_steps(1) [OF demo_facts(4)])
    show "PrecheckAll (quiet_runner printer_env demo_ctl) [0] [printer_host]
        (projr (fst (demo_resolve printer_env printer_host))) (arg_force args)
        (snd (demo_resolve printer_env printer_host)) = (?pre, ?u)"
      using demo_steps(2) [OF demo_facts(4)] args(6) by simp
    show "triage ?pre [] [] [] = ([], [Name (pr_host p)], [])" using p by simp
    show "k3s_down ?pre = None" using p by simp
    show "deploy_todo printer_env args demo_ctl []
        (map (\<lambda>h. Drv (toplevel_of (projr (fst (demo_resolve printer_env printer_host))) h)) []) ?u [] ?u"
      using todo by simp
    show "not_built (\<lambda>n w. w) (quiet_runner printer_env demo_ctl)
        (projr (fst (demo_resolve printer_env printer_host))) 0 [] [] ?u = ([], ?u)"
      by simp
  qed
  then obtain out where "deploy_run printer_env args [printer_host]
      (BuildOnlyHosts AllHosts [''skyforge'']) demo_ctl fresh (0, out) ?u"
    by (auto simp: exit_code_def BuildOnlyHosts_def)
  moreover have "requested printer_env args = Inr [''skyforge'']" using args by (simp add: requested_def)
  ultimately have "run printer_env [''-hosts'', ''skyforge''] fresh (0, out)
      (Close (quiet_runner printer_env demo_ctl) ?u)"
    using args demo_facts(2,3) by (intro run.deployed)
  then show ?thesis by blast
qed

lemma k3s_run:
  fixes args :: cli_args
  assumes "\<not> arg_force args"
  shows "\<exists>m s'. deploy_run k3s_env args [k3s_host] [] demo_ctl fresh (1, Some m) s' \<and> sm_failed m \<noteq> []"
proof -
  let ?pre = "fst (demo_precheck k3s_env k3s_host)" and ?u = "snd (demo_precheck k3s_env k3s_host)"
  obtain p where p: "?pre = [p]" "pr_skip p" "pr_failed p" "InGroup (pr_host p) ''k3s''"
    using demo_facts(7) by auto
  have "deploy_run k3s_env args [k3s_host] [] demo_ctl fresh
      (1, Some \<lparr>sm_warnings = warnings ?u, sm_skipped = [], sm_failed = [Name (pr_host p)],
               sm_build_failed = []\<rparr>) ?u"
  proof (rule deploy_run.k3s_aborts)
    show "schedule_of ([k3s_host] @ []) [0]" "schedule_of [k3s_host] [0]"
      using demo_schedule by simp_all
    show "ResolveToplevels (quiet_runner k3s_env demo_ctl) [0] ([k3s_host] @ []) fresh =
        (Inr (projr (fst (demo_resolve k3s_env k3s_host))), snd (demo_resolve k3s_env k3s_host))"
      by (rule demo_steps(1) [OF demo_facts(6)])
    show "PrecheckAll (quiet_runner k3s_env demo_ctl) [0] [k3s_host]
        (projr (fst (demo_resolve k3s_env k3s_host))) (arg_force args)
        (snd (demo_resolve k3s_env k3s_host)) = (?pre, ?u)"
      using demo_steps(2) [OF demo_facts(6)] assms by simp
    show "triage ?pre [] [] [] = ([Name (pr_host p)], [], [])" using p by simp
    show "k3s_down ?pre = Some p" using p by simp
  qed
  then show ?thesis by fastforce
qed

section \<open>Properties\<close>



text \<open>
  C12: a Kubernetes node that is down before the run stops everything. A run makes a call
  other than evaluating and probing only if no Kubernetes node among its hosts failed the
  precheck; otherwise it builds, copies and deploys nothing on any host.
\<close>

theorem k3s_precheck_guards_the_run:
  assumes "deploy_run E args hosts buildOnly ctl s out s'"
  shows "extends (probing (hosts @ buildOnly)) s s' \<or>
    (\<exists>paths ps t pre u. schedule_of hosts ps \<and> later s t \<and> later u s' \<and>
       PrecheckAll (quiet_runner E ctl) ps hosts paths (arg_force args) t = (pre, u) \<and>
       map pr_host pre = hosts \<and>
       (\<forall>p \<in> set pre. \<not> InGroup (pr_host p) ''k3s'' \<or> \<not> (pr_skip p \<and> pr_failed p)))"
  using assms
proof (cases rule: deploy_run.cases)
  case (not_resolved es errs)
  then show ?thesis using resolve_probing [OF not_resolved(2,3)] by blast
next
  case (k3s_aborts es paths t ps pre failed skipped todo p)
  have "extends (probing (hosts @ buildOnly)) s t" by (rule resolve_probing [OF k3s_aborts(2,3)])
  moreover have "extends (probing (hosts @ buildOnly)) t s'"
    by (rule precheck_probing [OF k3s_aborts(4,5)]) simp
  ultimately show ?thesis using extends_trans by blast
next
  case (processed es paths t ps pre u failed skipped todo fell v drift buildFailed)
  have "later s t" by (rule laterI [OF resolve_probing [OF processed(2,3)]])
  moreover have "later u s'"
    using extends_trans [OF deploy_todo_later [OF processed(8)]
        laterI [OF not_built_extends [of buildOnly paths v drift "quiet_runner E ctl" 0 "[]"]]]
      processed(9) by simp
  moreover have "map pr_host pre = hosts"
    using PrecheckAll_hosts [OF processed(4)] processed(5) by (metis fst_conv)
  moreover have "\<forall>p \<in> set pre. \<not> InGroup (pr_host p) ''k3s'' \<or> \<not> (pr_skip p \<and> pr_failed p)"
    using processed(7) by (auto simp: k3s_down_None)
  ultimately show ?thesis using processed(4,5) by blast
qed

theorem k3s_precheck_guards_the_run_witness:
  "\<exists>args m s'. deploy_run k3s_env args [k3s_host] [] demo_ctl fresh (1, Some m) s' \<and> sm_failed m \<noteq> [] \<and>
     (extends (probing [k3s_host]) fresh s' \<or> (\<exists>pre :: precheck_result list. map pr_host pre = [k3s_host]))"
proof -
  from demo_facts(1) obtain args :: cli_args where args: "\<not> arg_force args"
    by (cases "parseArgs [''-hosts'', ''skyforge'']") auto
  from k3s_run [OF args] obtain m s' where
    run: "deploy_run k3s_env args [k3s_host] [] demo_ctl fresh (1, Some m) s'" "sm_failed m \<noteq> []"
    by blast
  have "extends (probing [k3s_host]) fresh s' \<or> (\<exists>pre :: precheck_result list. map pr_host pre = [k3s_host])"
    using k3s_precheck_guards_the_run [OF run(1)] unfolding append_Nil2
    by (elim disjE exE conjE) (rule disjI1, assumption, rule disjI2, rule exI, assumption)
  with run show ?thesis by (intro exI conjI)
qed



text \<open>
  C13: the one-by-one modes stop where they should. The loop is the reference that deploys
  every host, cut after the first failure of a Kubernetes node or, with \<open>--on-failure stop\<close>,
  after the first failure: it reports exactly the hosts that failed up to there, and the
  hosts after it are not contacted.
\<close>

theorem serial_stops_at_failure:
  "\<exists>n log s'. n \<le> length todo \<and>
     deploy_each c q (arg_mode args) (take n todo) s = (log, s') \<and>
     serial c q args todo [] s = (failures log, s') \<and>
     list_all (\<lambda>x. \<not> stops_after args x) (butlast log) \<and>
     (if n = length todo then True else log \<noteq> [] \<and> stops_after args (last log)) \<and>
     extends (\<lambda>k. \<exists>p \<in> set (take n todo). concerns (pr_host p) k) s s'"
proof -
  obtain n log s' where n: "n \<le> length todo"
    "deploy_each c q (arg_mode args) (take n todo) s = (log, s')"
    "serial c q args todo [] s = ([] @ failures log, s')"
    "list_all (\<lambda>x. \<not> stops_after args x) (butlast log)"
    "if n = length todo then True else log \<noteq> [] \<and> stops_after args (last log)"
    using serial_prefix [of todo c q args s "[]"] by blast
  have "extends (\<lambda>k. \<exists>p \<in> set (take n todo). concerns (pr_host p) k) s s'"
    using deploy_each_extends [of "take n todo" s c q "arg_mode args"] n(2) by simp
  with n show ?thesis by (intro exI [of _ n] exI [of _ log] exI [of _ s']) simp
qed

text \<open>
  C27: an answer is the first line of what one read of standard input returns, and anything
  the same read returned after that line is lost with the reader: typed line by line, each
  prompt gets its own line, but of two answers that arrive together the second prompt sees
  only the end of the input, which declines.
\<close>

theorem answers_are_read_by_line:
  assumes "newline \<notin> set l" and "\<And>xs v. input (set_input xs v) = xs"
    and "input w = (l @ newline # more_bytes) # rest"
  shows "fst (stdinPrompter input set_input prompt w) = equal_fold_y (TrimSpace (l @ [newline])) \<and>
    input (snd (stdinPrompter input set_input prompt w)) = rest \<and>
    (if rest = [] then
       \<not> fst (stdinPrompter input set_input prompt (snd (stdinPrompter input set_input prompt w)))
     else True)"
  using read_line_first [OF assms(1), of more_bytes rest] assms(2,3)
  by (auto simp: stdinPrompter_def split_beta)

theorem answers_are_read_by_line_witness:
  "fst (stdinPrompter id (\<lambda>xs v. xs) ''Reboot? '' [''y'' @ newline # ''y'' @ [newline]]) \<and>
   \<not> fst (stdinPrompter id (\<lambda>xs v. xs) ''Reboot? ''
      (snd (stdinPrompter id (\<lambda>xs v. xs) ''Reboot? '' [''y'' @ newline # ''y'' @ [newline]])))"
proof -
  let ?w = "[''y'' @ newline # ''y'' @ [newline]]" and ?ask = "stdinPrompter id (\<lambda>xs v. xs) ''Reboot? ''"
  have yes: "equal_fold_y (TrimSpace (''y'' @ [newline]))" by code_simp
  have "fst (?ask ?w) = equal_fold_y (TrimSpace (''y'' @ [newline])) \<and> id (snd (?ask ?w)) = [] \<and>
      (if ([] :: string list) = [] then \<not> fst (?ask (snd (?ask ?w))) else True)"
    by (rule answers_are_read_by_line [of "''y''" id "\<lambda>xs v. xs" ?w "''y'' @ [newline]" "[]"]) simp_all
  with yes show ?thesis by (simp only: simp_thms if_True)
qed

end
