(* ===== verification/Fleet.thy ===== *)
theory Fleet
  imports Watchdog Cli_Props
begin

text \<open>
  The fleet: what a whole run of the tool does to one of the hosts. A run touches a host in
  one stretch only, its activation; whatever comes before and after, for this host or for
  the others, leaves its phase alone. So the guarantees of the watchdog, which theory
  Watchdog gives for one protected deployment, hold for every host at every moment of a run.
\<close>

section \<open>Calls that leave a host alone\<close>

text \<open>\<open>aside\<close>: in every phase of the host. \<open>harmless\<close>: while nothing was activated on it.\<close>

fun aside :: "host \<Rightarrow> call \<Rightarrow> bool" where
  "aside h (SshCall v h' cmd) \<longleftrightarrow> h' \<noteq> h \<or> gentle_remote cmd"
| "aside h (NixosRebuild m h') \<longleftrightarrow> h' \<noteq> h"
| "aside h _ \<longleftrightarrow> True"

definition harmless :: "host \<Rightarrow> call \<Rightarrow> bool" where
  "harmless h k \<longleftrightarrow> aside h k \<or> idle k"

lemma aside_harmless: "aside h k \<Longrightarrow> harmless h k"
  by (simp add: harmless_def)

lemma gentle_aside: "gentle k \<Longrightarrow> aside h k"
  by (cases k) auto

lemma concerns_aside: "concerns h' k \<Longrightarrow> h' \<noteq> h \<Longrightarrow> aside h k"
  by (cases k) (auto simp: pings_def split: remote.splits)

lemma precheck_harmless: "precheck_calls h' k \<Longrightarrow> harmless h k"
  by (auto simp: precheck_calls_def harmless_def)

lemma probing_harmless: "probing hs k \<Longrightarrow> harmless h k"
  by (auto simp: probing_def intro: precheck_harmless) (simp add: harmless_def)

text \<open>An activation on this host.\<close>

definition activates :: "host \<Rightarrow> event \<Rightarrow> bool" where
  "activates h e \<longleftrightarrow> (\<exists>v path sub res. e = Ran (SshCall v h (SwitchTo path sub)) res)"

lemma harmless_activates: "runs (harmless h) e \<Longrightarrow> \<not> activates h e"
  by (auto simp: activates_def harmless_def)

lemma unconnected: "list_all (\<lambda>e. \<not> activates h e) pre \<Longrightarrow> \<not> connected h path pre"
  by (auto simp: connected_def activates_def)

lemma advance_aside: "runs (aside h) e \<Longrightarrow> advance h path pre ph e = Some (calm ph)"
proof (cases e)
  case (Ran k res)
  assume *: "runs (aside h) e"
  show ?thesis
  proof (cases k)
    case (SshCall v h' cmd)
    then show ?thesis using * Ran by (cases cmd) auto
  qed (use * Ran in auto)
qed auto

lemma track_aside: "list_all (runs (aside h)) es \<Longrightarrow> \<exists>ph'. track h path pre ph es = Some ph'"
  by (induction es arbitrary: pre ph) (auto simp: advance_aside)

lemma advance_harmless:
  assumes "runs (harmless h) e" and "\<not> connected h path pre"
  shows "advance h path pre Untouched e = Some Untouched"
proof (cases e)
  case (Ran k res)
  show ?thesis
  proof (cases "aside h k")
    case True
    then show ?thesis using Ran advance_aside [of h e path pre Untouched] by simp
  next
    case False
    then have "idle k" using assms(1) Ran by (simp add: harmless_def)
    then show ?thesis using assms(2) Ran
    proof (cases k)
      case (SshCall v h' cmd)
      then show ?thesis using \<open>idle k\<close> assms(2) Ran by (cases cmd) auto
    qed auto
  qed
qed auto

lemma track_harmless:
  "list_all (runs (harmless h)) es \<Longrightarrow> list_all (\<lambda>e. \<not> activates h e) pre \<Longrightarrow>
   track h path pre Untouched es = Some Untouched"
  by (induction es arbitrary: pre)
    (auto simp: advance_harmless unconnected harmless_activates)

section \<open>A stretch after a stretch that left the host alone\<close>

lemma connected_shift:
  assumes "list_all (\<lambda>e. \<not> activates h e) pre"
  shows "connected h path (pre @ es) \<longleftrightarrow> connected h path es"
proof
  assume "connected h path (pre @ es)"
  then obtain a v res b st c where
    eq: "pre @ es = a @ Ran (SshCall v h (SwitchTo path ''test'')) res # b @ st @ c"
    and ok: "occurs is_pause st = 0" "\<forall>check \<in> set (ConnChecks h). \<exists>e \<in> set st. check_passed h check e"
    unfolding connected_def by blast
  have "\<not> length a < length pre"
  proof
    assume "length a < length pre"
    then have "pre ! length a = Ran (SshCall v h (SwitchTo path ''test'')) res"
      using arg_cong [OF eq, of "\<lambda>xs. xs ! length a"] by (simp add: nth_append)
    moreover have "pre ! length a \<in> set pre" using \<open>length a < length pre\<close> by simp
    ultimately show False using assms by (auto simp: list_all_iff activates_def)
  qed
  then have "a = pre @ drop (length pre) a"
    using arg_cong [OF eq, of "take (length pre)"] by (simp, metis append_take_drop_id)
  then have "es = drop (length pre) a @ Ran (SshCall v h (SwitchTo path ''test'')) res # b @ st @ c"
    using eq by (metis append_assoc same_append_eq)
  then show "connected h path es" using ok unfolding connected_def by blast
next
  assume "connected h path es"
  then obtain a v res b st c where
    "es = a @ Ran (SshCall v h (SwitchTo path ''test'')) res # b @ st @ c"
    and ok: "occurs is_pause st = 0" "\<forall>check \<in> set (ConnChecks h). \<exists>e \<in> set st. check_passed h check e"
    unfolding connected_def by blast
  then have "pre @ es = (pre @ a) @ Ran (SshCall v h (SwitchTo path ''test'')) res # b @ st @ c" by simp
  with ok show "connected h path (pre @ es)" unfolding connected_def by blast
qed

lemma advance_shift:
  assumes "list_all (\<lambda>e. \<not> activates h e) pre"
  shows "advance h path (pre @ a) ph e = advance h path a ph e"
proof (cases e)
  case (Ran k res)
  then show ?thesis
  proof (cases k)
    case (SshCall v h' cmd)
    then show ?thesis using Ran connected_shift [OF assms, of path a] by (cases cmd) auto
  qed auto
qed auto

lemma track_shift:
  "list_all (\<lambda>e. \<not> activates h e) pre \<Longrightarrow> track h path (pre @ a) ph es = track h path a ph es"
  by (induction es arbitrary: a ph) (simp_all add: advance_shift split: option.split)

section \<open>One deployment in its surroundings\<close>

lemma Deploy_safe_cases:
  assumes "Deploy c h ModeSafe p s = (ok, u)"
  obtains (refused) "\<not> ok" "extends gentle s u"
  | (ran) v ok' w where "extends gentle s v" "deploySafe c h p v = (ok', w)" "extends gentle w u" "ok \<Longrightarrow> ok'"
proof -
  obtain up s1 where up: "CheckSSHReachable (ctx_runner c) h s = (up, s1)" by force
  then have e1: "extends gentle s s1" by (rule reachable.op_to) (auto simp: ssh_calls_def)
  obtain go s2 where go: "(if CephHealthCheck h then CephBeforeDeploy (ctx_runner c) h s1
      else (True, s1)) = (go, s2)" by force
  then have e2: "extends gentle s s2"
    using ceph_before.op_from [OF e1, where r = "ctx_runner c" and h = h] gentle_classes(4) e1
    by (auto split: if_splits dest: arg_cong [of _ _ snd])
  obtain ok1 s3 where safe: "deploySafe c h p s2 = (ok1, s3)" by force
  obtain fin s4 where after: "(if ok1 then CephAfterDeploy (ctx_runner c) h s3 else (ok1, s3)) = (fin, s4)"
    by force
  have "extends gentle s3 (snd (CephAfterDeploy (ctx_runner c) h s3))"
    using ceph_after.op_from [OF extends_refl, where Q = gentle and h = h and r = "ctx_runner c" and s = s3] gentle_classes(4) by blast
  with after have e4: "extends gentle s3 s4" by (auto split: if_splits)
  have e5: "extends gentle s3 (if \<not> fin then appendWarning c (cephNooutLeftSet h) s4 else s4)"
    by (intro extends_intros e4)
  have eq: "(ok, u) = (if \<not> up then (False, s1) else if \<not> go then (False, s2)
      else if CephHealthCheck h then (fin, if \<not> fin then appendWarning c (cephNooutLeftSet h) s4 else s4)
      else (ok1, s3))"
    using assms unfolding Deploy_def Let_def prod.case up go after safe deploy_mode.case by simp
  show ?thesis
  proof (cases "up \<and> go")
    case False
    then show ?thesis using eq e1 e2 by (intro refused) (auto split: if_splits)
  next
    case True
    have "fin \<Longrightarrow> ok1" using after by (auto split: if_splits)
    then show ?thesis using True eq e2 e5
      by (intro ran [OF _ safe]) (auto split: if_split_asm)
  qed
qed

text \<open>
  The whole stretch: harmless events, the one deployment of the host, and events that leave
  it alone.
\<close>

definition deployed_once :: "'w deploy_ctx \<Rightarrow> precheck_result \<Rightarrow> bool \<Rightarrow> 'w st \<Rightarrow> 'w st \<Rightarrow> bool" where
  "deployed_once c p ok s u \<longleftrightarrow> (\<exists>v w. extends (harmless (pr_host p)) s v \<and>
     Deploy c (pr_host p) ModeSafe (pr_plan p) v = (ok, w) \<and> extends (aside (pr_host p)) w u)"

lemma deployed_once_after:
  "deployed_once c p ok s u \<Longrightarrow> extends (aside (pr_host p)) u u' \<Longrightarrow> deployed_once c p ok s u'"
  unfolding deployed_once_def using extends_trans by blast

lemma deployed_once_before:
  "extends (harmless (pr_host p)) s s' \<Longrightarrow> deployed_once c p ok s' u \<Longrightarrow> deployed_once c p ok s u"
  unfolding deployed_once_def using extends_trans by blast

lemma harmless_phase:
  assumes "extends (harmless h) s u"
  shows "in_phase h path s u Untouched"
  using assms extends_since [OF assms] unfolding in_phase_def
  by (intro exI [of _ "since (trace s) (trace u)"]) (auto simp: extends_def track_harmless)

text \<open>Putting the three parts together.\<close>

lemma in_phase_between:
  assumes "extends (harmless h) s v" and "in_phase h path v w ph" and "extends (aside h) w u"
  shows "\<exists>ph'. in_phase h path s u ph'"
proof -
  let ?pre = "since (trace s) (trace v)" and ?post = "since (trace w) (trace u)"
  from assms(2) obtain es where es: "trace w = trace v @ es" "track h path [] Untouched es = Some ph"
    unfolding in_phase_def by blast
  have pre: "list_all (runs (harmless h)) ?pre" using assms(1) by (simp add: extends_def)
  then have quiet: "list_all (\<lambda>e. \<not> activates h e) ?pre"
    by (auto simp: list_all_iff harmless_activates)
  have "list_all (runs (aside h)) ?post" using assms(3) by (simp add: extends_def)
  then obtain ph' where ph': "track h path (?pre @ es) ph ?post = Some ph'"
    using track_aside by blast
  have "track h path ?pre Untouched es = Some ph"
    using es(2) track_shift [OF quiet, of path "[]" Untouched es] by simp
  then have "track h path [] Untouched ((?pre @ es) @ ?post) = Some ph'"
    using pre ph' by (simp add: track_append track_harmless)
  moreover have "trace u = trace s @ (?pre @ es) @ ?post"
    using extends_since [OF assms(1)] extends_since [OF assms(3)] es(1) by (metis append_assoc)
  ultimately show ?thesis unfolding in_phase_def by blast
qed

lemma Deploy_phase:
  assumes "Deploy c h ModeSafe p s = (ok, u)"
  shows "\<exists>ph. in_phase h (SystemPath p) s u ph"
  using assms
proof (cases rule: Deploy_safe_cases)
  case refused
  then have "extends (harmless h) s u"
    using gentle_aside aside_harmless by (blast intro: extends_mono)
  then show ?thesis using harmless_phase by blast
next
  case (ran v ok' w)
  have "extends (harmless h) s v" "extends (aside h) w u"
    using ran(1,3) gentle_aside aside_harmless by (blast intro: extends_mono)+
  then show ?thesis using in_phase_between deploySafe_phase [OF ran(2)] by blast
qed

lemma deployed_once_phase:
  assumes "deployed_once c p ok s u"
  shows "\<exists>ph. in_phase (pr_host p) (SystemPath (pr_plan p)) s u ph"
proof -
  from assms obtain v w where pre: "extends (harmless (pr_host p)) s v"
    and run: "Deploy c (pr_host p) ModeSafe (pr_plan p) v = (ok, w)" and post: "extends (aside (pr_host p)) w u"
    unfolding deployed_once_def by blast
  from Deploy_phase [OF run] obtain ph where "in_phase (pr_host p) (SystemPath (pr_plan p)) v w ph" ..
  from in_phase_between [OF pre this post] show ?thesis .
qed

section \<open>The boot default over a stretch\<close>

lemma evolves_split: "evolves h t0 es t \<Longrightarrow> es = a @ b \<Longrightarrow> \<exists>m. evolves h t0 a m \<and> evolves h m b t"
proof (induction arbitrary: b rule: evolves.induct)
  case start
  then show ?case using evolves.start by auto
next
  case (does es t e t')
  show ?case
  proof (cases b rule: rev_cases)
    case Nil
    then have "evolves h t0 a t'" using evolves.does [OF does.hyps(1,2)] does.prems by simp
    then show ?thesis using Nil evolves.start by blast
  next
    case (snoc b' e')
    then have "es = a @ b'" "e' = e" using does.prems by simp_all
    with does.IH obtain m where "evolves h t0 a m" "evolves h m b' t" by blast
    then show ?thesis using evolves.does does.hyps(2) snoc \<open>e' = e\<close> by blast
  qed
next
  case (fires es t)
  then obtain m where "evolves h t0 a m" "evolves h m b t" by blast
  moreover have "\<not> just_armed b" using fires.hyps(3) fires.prems by (auto simp: just_armed_def)
  ultimately show ?case using evolves.fires fires.hyps(2) by blast
qed

lemma aside_effect: "runs (aside h) e \<Longrightarrow> effect h e t t' \<Longrightarrow> t' = t"
proof (cases e)
  case (Ran k res)
  assume *: "runs (aside h) e" "effect h e t t'"
  show ?thesis
  proof (cases k)
    case (SshCall v h' cmd)
    then show ?thesis using * Ran by (cases cmd) (auto split: if_splits)
  qed (use * Ran in auto)
qed auto

lemma harmless_effect:
  "runs (harmless h) e \<Longrightarrow> effect h e t t' \<Longrightarrow>
   boot_default t' = boot_default t \<and> profile_path t' = profile_path t"
proof (cases "runs (aside h) e")
  case True
  moreover assume "effect h e t t'"
  ultimately show ?thesis using aside_effect by blast
next
  case False
  moreover assume "runs (harmless h) e" "effect h e t t'"
  ultimately have "runs idle e" "effect h e t t'" by (cases e; simp add: harmless_def)+
  then show ?thesis using idle_effect by blast
qed

lemma harmless_keeps:
  assumes "evolves h t0 (since (trace s) (trace u)) t" and "extends (harmless h) s u"
  shows "boot_default t = boot_default t0 \<and> profile_path t = profile_path t0"
proof -
  have "boot_default t = boot_default t0 \<and> profile_path t = profile_path t0"
    if "evolves h t0 es t" "list_all (runs (harmless h)) es" for es
    using that
  proof (induction rule: evolves.induct)
    case (does es t e t')
    then show ?case using harmless_effect [of h e t t'] by simp
  qed simp_all
  then show ?thesis using assms by (simp add: extends_def)
qed

lemma evolves_stretch:
  assumes "evolves h t0 (since (trace s) (trace u)) t" and "extends P s v" and "extends Q v u"
  obtains m where "evolves h t0 (since (trace s) (trace v)) m" "evolves h m (since (trace v) (trace u)) t"
  using evolves_split [OF assms(1) since_trans [OF assms(2,3)]] by blast

lemma boots_between:
  assumes "extends (harmless h) s v" and "later v w" and "extends (harmless h) w u"
    and mid: "\<And>x y. evolves h x (since (trace v) (trace w)) y \<Longrightarrow> boot_default x = profile_path x \<Longrightarrow>
      boot_default y = path"
    and "evolves h t0 (since (trace s) (trace u)) t" and "boot_default t0 = profile_path t0"
  shows "boot_default t = path"
proof -
  from evolves_stretch [OF assms(5,1) extends_trans [OF assms(2) laterI [OF assms(3)]]]
  obtain t1 where t1: "evolves h t0 (since (trace s) (trace v)) t1" "evolves h t1 (since (trace v) (trace u)) t" .
  from evolves_stretch [OF t1(2) assms(2,3)]
  obtain t2 where t2: "evolves h t1 (since (trace v) (trace w)) t2" "evolves h t2 (since (trace w) (trace u)) t" .
  have "boot_default t1 = profile_path t1" using harmless_keeps [OF t1(1) assms(1)] assms(6) by simp
  with mid [OF t2(1)] harmless_keeps [OF t2(2) assms(3)] show ?thesis by simp
qed

lemma Deploy_boots:
  assumes "Deploy c h ModeSafe p s = (True, u)" and "evolves h t0 (since (trace s) (trace u)) t"
    and "boot_default t0 = profile_path t0"
  shows "boot_default t = SystemPath p"
  using assms(1)
proof (cases rule: Deploy_safe_cases)
  case (ran v ok' w)
  have quiet: "extends (harmless h) s v" "extends (harmless h) w u"
    using ran(1,3) gentle_aside aside_harmless by (blast intro: extends_mono)+
  have run: "deploySafe c h p v = (True, w)" using ran(2,4) by simp
  then have "later v w" by (rule deploy_safe.op_to) simp
  from boots_between [OF quiet(1) this quiet(2) deploySafe_boots [OF run] assms(2,3)] show ?thesis .
qed simp

lemma deployed_once_boots:
  assumes "deployed_once c p True s u" and "evolves (pr_host p) t0 (since (trace s) (trace u)) t"
    and "boot_default t0 = profile_path t0"
  shows "boot_default t = SystemPath (pr_plan p)"
proof -
  from assms(1) obtain v w where pre: "extends (harmless (pr_host p)) s v"
    and run: "Deploy c (pr_host p) ModeSafe (pr_plan p) v = (True, w)" and "extends (aside (pr_host p)) w u"
    unfolding deployed_once_def by blast
  then have post: "extends (harmless (pr_host p)) w u" using aside_harmless by (blast intro: extends_mono)
  have "later v w" using run by (rule deploy.op_to) simp
  from boots_between [OF pre this post Deploy_boots [OF run] assms(2,3)] show ?thesis .
qed

section \<open>A pipeline run\<close>

lemma stage_aside: "stage_call k \<Longrightarrow> aside h k"
  by (cases k) auto

lemma drop_aside: "extends (aside h) u (dropSSHMaster r h' u)"
  by (intro extends_intros) simp

text \<open>
  What a run of the pipeline has done to a host so far: nothing as long as no host of this
  name was activated, and otherwise the one deployment whose answer it recorded.
\<close>

definition touched :: "'w job \<Rightarrow> 'w st \<Rightarrow> host \<Rightarrow> 'w pipe \<Rightarrow> bool" where
  "touched J s h P \<longleftrightarrow>
     (if h \<in> (pr_host \<circ> fst) ` set (activations P)
      then \<forall>(p, st) \<in> set (activations P). pr_host p = h \<longrightarrow>
        deployed_once (jctx J) p (st = StatusDeployed) s (shared P)
      else extends (aside h) s (shared P))"

lemma touched_after:
  assumes "touched J s h P" and "activations P' = activations P @ new" and "\<forall>(p, st) \<in> set new. pr_host p \<noteq> h"
    and "extends (aside h) (shared P) (shared P')"
  shows "touched J s h P'"
proof (cases "h \<in> (pr_host \<circ> fst) ` set (activations P)")
  case True
  have "deployed_once (jctx J) p (st = StatusDeployed) s (shared P')"
    if "(p, st) \<in> set (activations P')" "pr_host p = h" for p st
  proof (rule deployed_once_after)
    have "(p, st) \<in> set (activations P)" using that assms(2,3) by auto
    then show "deployed_once (jctx J) p (st = StatusDeployed) s (shared P)"
      using assms(1) True that(2) unfolding touched_def by auto
    show "extends (aside (pr_host p)) (shared P) (shared P')" using assms(4) that(2) by simp
  qed
  then show ?thesis using True assms(2) unfolding touched_def by auto
next
  case False
  then have "extends (aside h) s (shared P')"
    using assms(1) extends_trans [OF _ assms(4)] unfolding touched_def by simp
  moreover have "h \<notin> (pr_host \<circ> fst) ` set (activations P')" using False assms(2,3) by auto
  ultimately show ?thesis unfolding touched_def by simp
qed

lemma places_hosts:
  assumes "flow_inv J P" and "distinct (map pr_host (jtodo J))"
  shows "distinct (map pr_host (places P))"
proof -
  have "mset (map pr_host (places P)) = mset (map pr_host (jtodo J))"
    using assms(1) by (simp add: flow_inv_def)
  then show ?thesis using assms(2) mset_eq_imp_distinct_iff by blast
qed

lemma activated_before:
  assumes "flow_inv J P" and "distinct (map pr_host (jtodo J))" and "drainer P = Activating p"
  shows "pr_host p \<notin> (pr_host \<circ> fst) ` set (activations P)"
proof -
  have "pr_host p \<notin> set (map pr_host (map fst (finished P)))"
    using places_hosts [OF assms(1,2)] assms(3) by (simp add: places_def)
  then show ?thesis by (auto simp: activations_def)
qed

lemma touched_step:
  assumes "pstep J l P = Some P'" and "flow_inv J P" and "distinct (map pr_host (jtodo J))"
    and "touched J s h P"
  shows "touched J s h P'"
  using assms(1,2)
proof (cases rule: step_calls)
  case quiet
  then have "extends (aside h) (shared P) (shared P')" using stage_aside by (blast intro: extends_mono)
  then show ?thesis using touched_after [OF assms(4), of P' "[]"] quiet(2) by simp
next
  case (deploys p ok u)
  have last: "extends (aside h) u (shared P')" for h unfolding deploys(3) by (rule drop_aside)
  show ?thesis
  proof (cases "pr_host p = h")
    case True
    have fresh: "h \<notin> (pr_host \<circ> fst) ` set (activations P)"
      using activated_before [OF assms(2,3) deploys(1)] True by simp
    then have "extends (harmless h) s (shared P)"
      using assms(4) aside_harmless unfolding touched_def by (auto intro: extends_mono)
    then have "deployed_once (jctx J) p ok s (shared P')"
      using deploys(2) last True unfolding deployed_once_def by blast
    moreover have "pr_host q \<noteq> h" if "(q, st) \<in> set (activations P)" for q st
      using fresh that by force
    ultimately show ?thesis using True unfolding touched_def deploys(4) by auto
  next
    case False
    have "extends (concerns (pr_host p)) (shared P) u" using deploys(2) by (rule deploy.op_to)
    then have "extends (aside h) (shared P) u"
      using concerns_aside False by (blast intro: extends_mono)
    then have "extends (aside h) (shared P) (shared P')" using last extends_trans by blast
    then show ?thesis using touched_after [OF assms(4) deploys(4)] False by simp
  qed
qed

lemma reaches_touched:
  assumes "reaches J s P" and "distinct (map pr_host (jtodo J))"
  shows "touched J s h P"
  using assms(1)
proof (induction rule: reaches.induct)
  case (started P)
  then show ?case by (auto simp: pipe_start_Some touched_def activations_def)
next
  case (stepped P l P')
  then show ?case using touched_step [OF stepped.hyps(2) reaches_flow assms(2)] by blast
qed

lemma RunPipeline_touched:
  assumes "RunPipeline J s rs s'" and "distinct (map (Name \<circ> pr_host) (jtodo J))"
  shows "extends (aside h) s s' \<or>
      (\<exists>p ok. pr_host p = h \<and> deployed_once (jctx J) p ok s s')"
    and "\<forall>i < length rs. hr_status (rs ! i) = StatusDeployed \<longrightarrow>
      deployed_once (jctx J) (jtodo J ! i) True s s'"
proof -
  have dist: "distinct (map pr_host (jtodo J))"
    using assms(2) by (metis distinct_map map_map)
  from assms(1) show "extends (aside h) s s' \<or> (\<exists>p ok. pr_host p = h \<and> deployed_once (jctx J) p ok s s')"
  proof (cases rule: RunPipeline.cases)
    case no_hosts
    then show ?thesis using build.op_from [OF extends_refl, where Q = "aside h"] by auto
  next
    case (drained P)
    from reaches_touched [OF drained(4) dist, of h] drained(2) show ?thesis
      unfolding touched_def by (auto split: if_splits)
  qed
  from assms(1) show "\<forall>i < length rs. hr_status (rs ! i) = StatusDeployed \<longrightarrow>
      deployed_once (jctx J) (jtodo J ! i) True s s'"
  proof (cases rule: RunPipeline.cases)
    case (drained P)
    have "deployed_once (jctx J) (jtodo J ! i) True s s'"
      if "i < length rs" "hr_status (rs ! i) = StatusDeployed" for i
    proof -
      have "(jtodo J ! i, StatusDeployed) \<in> set (activations P)"
        using result_slot(2) [OF drained(4,5) assms(2), of i] that length_results [OF drained(4)] drained(1)
        by (simp add: activations_def)
      with reaches_touched [OF drained(4) dist, of "pr_host (jtodo J ! i)"] show ?thesis
        unfolding touched_def drained(2) by (force split: if_splits)
    qed
    then show ?thesis by blast
  qed simp
qed

section \<open>A whole run\<close>

lemma not_built_aside: "extends (aside h) s (snd (not_built drift r paths n hs failed s))"
  by (rule extends_mono [OF not_built_extends]) auto

lemma NewSSHControl_extends: "NewSSHControl m s = (res, t) \<Longrightarrow> extends Q s t"
  by (auto simp: NewSSHControl_def extends_def split: if_splits prod.splits sum.splits)

lemma todo_names:
  assumes "schedule_of hosts ps" and "distinct (map Name hosts)"
    and "PrecheckAll r ps hosts paths force t = (pre, u)"
  shows "distinct (map (Name \<circ> pr_host) (filter (\<lambda>p. \<not> pr_skip p) pre))"
proof -
  have "map pr_host pre = hosts" using PrecheckAll_hosts [OF assms(1)] assms(3) by (metis fst_conv)
  then have "map (Name \<circ> pr_host) pre = map Name hosts" by (metis map_map)
  then show ?thesis using assms(2) by (simp add: distinct_map_filter)
qed

lemma deploy_run_touched:
  assumes "deploy_run E args hosts buildOnly ctl s out s'" and "arg_mode args = ModeSafe"
    and "distinct (map Name hosts)"
  shows "extends (harmless h) s s' \<or>
    (\<exists>p ok. pr_host p = h \<and> deployed_once (run_ctx E args ctl) p ok s s')"
  using assms(1)
proof (cases rule: deploy_run.cases)
  case (not_resolved es errs)
  then show ?thesis using resolve_probing probing_harmless by (blast intro: extends_mono)
next
  case (k3s_aborts es paths t ps pre failed skipped todo p)
  have "extends (probing (hosts @ buildOnly)) s s'"
    using extends_trans [OF resolve_probing [OF k3s_aborts(2,3)]
        precheck_probing [OF k3s_aborts(4,5)]] by simp
  then show ?thesis using probing_harmless by (blast intro: extends_mono)
next
  case (processed es paths t ps pre u failed skipped todo fell v drift buildFailed)
  let ?J = "pipeline_job E args ctl todo (map (\<lambda>h. Drv (toplevel_of paths h)) buildOnly)"
  have "extends (probing (hosts @ buildOnly)) s u"
    using extends_trans [OF resolve_probing [OF processed(2,3)]
        precheck_probing [OF processed(4,5)]] by simp
  then have su: "extends (harmless h) s u" using probing_harmless by (blast intro: extends_mono)
  have vs: "extends (aside h) v s'"
    using not_built_aside [of h v drift "quiet_runner E ctl" paths 0 buildOnly "[]"] processed(9) by simp
  have "todo = filter (\<lambda>p. \<not> pr_skip p) pre" using processed(6) by (simp add: triage_spec)
  then have names: "distinct (map (Name \<circ> pr_host) (jtodo ?J))"
    using todo_names [OF processed(4) assms(3) processed(5)] by (simp add: pipeline_job_def)
  from processed(8) assms(2) obtain rs where "RunPipeline ?J u rs v" by (auto elim: deploy_todo.cases)
  from RunPipeline_touched(1) [OF this names, of h]
  have "extends (aside h) u v \<or> (\<exists>p ok. pr_host p = h \<and> deployed_once (run_ctx E args ctl) p ok u v)"
    by (simp add: pipeline_job_def)
  then show ?thesis
  proof
    assume "extends (aside h) u v"
    then have "extends (harmless h) u s'"
      using extends_trans [OF _ vs] aside_harmless by (blast intro: extends_mono)
    then show ?thesis using extends_trans [OF su] by blast
  next
    assume "\<exists>p ok. pr_host p = h \<and> deployed_once (run_ctx E args ctl) p ok u v"
    then show ?thesis using deployed_once_before deployed_once_after su vs by blast
  qed
qed

lemma run_touched:
  assumes "run E argv s out s'" and "parseArgs argv = Inr args" and "arg_mode args = ModeSafe"
  shows "extends (harmless h) s s' \<or> (\<exists>c p ok. pr_host p = h \<and> deployed_once c p ok s s')"
  using assms(1)
proof (cases rule: run.cases)
  case (built_only args' names hosts es code)
  then have "extends local_call s s'" using build_only_local by blast
  then have "extends (harmless h) s s'"
    by (rule extends_mono) (auto simp: harmless_def elim: local_call.elims)
  then show ?thesis ..
next
  case (no_control args' names hosts err)
  then show ?thesis using NewSSHControl_extends by blast
next
  case (deployed args' names hosts ctl t u)
  then have [simp]: "args' = args" using assms(2) by simp
  have dist: "distinct (map Name hosts)"
    using SelectHosts_distinct [OF _ AllHosts_names] deployed(4) by simp
  have st: "extends (harmless h) s t" using deployed(6) by (rule NewSSHControl_extends)
  have us: "extends (aside h) u s'" unfolding deployed(1) by (rule Close_from) simp_all
  have "arg_mode args' = ModeSafe" using assms(3) by simp
  from deploy_run_touched [OF deployed(7) this dist, of h] show ?thesis
  proof (elim disjE exE)
    assume "extends (harmless h) t u"
    then have "extends (harmless h) s u" using extends_trans [OF st] by blast
    moreover have "extends (harmless h) u s'" using us aside_harmless by (blast intro: extends_mono)
    ultimately show ?thesis using extends_trans by blast
  next
    fix p ok
    assume "pr_host p = h \<and> deployed_once (run_ctx E args' ctl) p ok t u"
    then show ?thesis using deployed_once_before deployed_once_after st us by blast
  qed
qed simp_all

text \<open>
  A run that ends with exit code 0: every selected host was skipped, and is listed as such
  in the summary, or was deployed once, with success, to the path that was resolved for it.
\<close>

lemma deploy_run_boots:
  assumes "deploy_run E args hosts buildOnly ctl s (0, out) s'" and "arg_mode args = ModeSafe"
    and "distinct (map Name hosts)" and "h \<in> set hosts"
  obtains m es paths v p where "out = Some m"
    "ResolveToplevels (quiet_runner E ctl) es (hosts @ buildOnly) s = (Inr paths, v)"
    "Name h \<in> set (sm_skipped m) \<or> pr_host p = h \<and> SystemPath (pr_plan p) = Out (toplevel_of paths h) \<and>
       deployed_once (run_ctx E args ctl) p True s s'"
  using assms(1)
proof (cases rule: deploy_run.cases)
  case (processed es paths t ps pre u failed skipped todo fell v drift buildFailed)
  let ?J = "pipeline_job E args ctl todo (map (\<lambda>h. Drv (toplevel_of paths h)) buildOnly)"
  from processed(1) have none: "failed = []" "fell = []" by (auto simp: exit_code_def split: if_splits)
  have tri: "failed = map (Name \<circ> pr_host) (filter (\<lambda>p. pr_skip p \<and> pr_failed p) pre)"
    "skipped = map (Name \<circ> pr_host) (filter (\<lambda>p. pr_skip p \<and> \<not> pr_failed p) pre)"
    "todo = filter (\<lambda>p. \<not> pr_skip p) pre"
    using processed(7) by (auto simp: triage_spec)
  obtain i where i: "i < length hosts" "hosts ! i = h" using assms(4) by (auto simp: in_set_conv_nth)
  have hosts: "map pr_host pre = hosts" using PrecheckAll_hosts [OF processed(5)] processed(6) by (metis fst_conv)
  then have len: "i < length pre" and host: "pr_host (pre ! i) = h" using i by auto
  have path: "SystemPath (pr_plan (pre ! i)) = Out (toplevel_of paths h)"
    using PrecheckAll_each [OF processed(5) i(1), of "quiet_runner E ctl" paths "arg_force args" t]
      processed(6) i(2) by auto
  note found = that [OF _ processed(4)]
  show ?thesis
  proof (cases "pr_skip (pre ! i)")
    case True
    have "pre ! i \<in> set pre" using len by simp
    with True have "pre ! i \<in> set (filter (\<lambda>p. pr_skip p \<and> \<not> pr_failed p) pre)"
      using tri(1) none(1) by (auto simp: filter_empty_conv)
    then have "Name h \<in> set skipped" using host tri(2) by force
    then show ?thesis using processed(2) by (intro found) auto
  next
    case False
    then have "pre ! i \<in> set todo" using len tri(3) by simp
    then obtain j where j: "j < length todo" "todo ! j = pre ! i" by (auto simp: in_set_conv_nth)
    have names: "distinct (map (Name \<circ> pr_host) (jtodo ?J))"
      using todo_names [OF processed(5) assms(3) processed(6)] tri(3) by (simp add: pipeline_job_def)
    from processed(9) assms(2) none(2) obtain rs where
      run: "RunPipeline ?J u rs v" and good: "failed_hosts rs = []" by (auto elim: deploy_todo.cases)
    have "length rs = length todo"
      using RunPipeline_justified [OF run names] by (auto simp: pipeline_job_def dest: map_eq_imp_length_eq)
    then have "hr_status (rs ! j) = StatusDeployed" using good j(1) by (simp add: failed_hosts_Nil)
    then have once: "deployed_once (run_ctx E args ctl) (pre ! i) True u v"
      using RunPipeline_touched(2) [OF run names, rule_format, of j] j \<open>length rs = length todo\<close>
      by (simp add: pipeline_job_def)
    have "extends (probing (hosts @ buildOnly)) s u"
      using extends_trans [OF resolve_probing [OF processed(3,4)]
          precheck_probing [OF processed(5,6)]] by simp
    then have su: "extends (harmless (pr_host (pre ! i))) s u"
      using probing_harmless by (blast intro: extends_mono)
    have vs: "extends (aside (pr_host (pre ! i))) v s'"
      using not_built_aside [of "pr_host (pre ! i)" v drift "quiet_runner E ctl" paths 0 buildOnly "[]"]
        processed(10) by simp
    have "deployed_once (run_ctx E args ctl) (pre ! i) True s s'"
      using deployed_once_after [OF deployed_once_before [OF su once] vs] .
    then show ?thesis using processed(2) host path by (intro found [where p = "pre ! i"]) auto
  qed
qed (use assms(1) in auto)

end
