(* ===== verification/Fleet_Props.thy ===== *)
theory Fleet_Props
  imports Fleet
begin

text \<open>
  What a run of the whole tool guarantees for each host of the fleet, and a concrete run of
  it: one host that is up to date goes through evaluation, precheck, pipeline and activation.
\<close>

section \<open>A run with one host that is up to date\<close>

definition current_answer :: "string list \<Rightarrow> run_result" where
  \<open>current_answer argv =
     (let word = (if argv \<noteq> [] then hd argv else []); line = (if argv \<noteq> [] then last argv else []) in
      if word = ''nix'' then zero_result\<lparr>Stdout := ''{"drv":"/s/x.drv","out":"/s/x"}''\<rparr>
      else if word = ''curl'' then
        zero_result\<lparr>Stdout := ''{"result":{"status":{"print_stats":{"state":"standby"}}}}''\<rparr>
      else if line = ''echo ok'' then zero_result\<lparr>Stdout := ''ok''\<rparr>
      else if line = render ReadActive \<or> line = render ReadProfile then zero_result\<lparr>Stdout := ''/s/x''\<rparr>
      else zero_result)\<close>

definition current_env :: "string list list env" where
  "current_env = (demo_env [])\<lparr>env_machine :=
     (fake_machine [])\<lparr>exec := (\<lambda>argv env timeout calls. (process_of (current_answer argv), calls))\<rparr>\<rparr>"

definition demo_args :: cli_args where
  "demo_args = projr (parseArgs [''-hosts'', ''skyforge''])"

definition current_plan :: precheck_result where
  "current_plan = hd (fst (demo_precheck current_env printer_host))"

definition current_deploy :: "bool \<times> string list list st" where
  "current_deploy = Deploy (run_ctx current_env demo_args demo_ctl) printer_host ModeSafe
     (pr_plan current_plan) (snd (demo_precheck current_env printer_host))"

definition current_end :: "string list list st" where
  "current_end = Close (quiet_runner current_env demo_ctl)
     (dropSSHMaster (ctx_runner (run_ctx current_env demo_args demo_ctl)) printer_host (snd current_deploy))"

definition current_target :: target where
  "current_target = \<lparr>live = ''/s/x'', boot_default = ''/s/x'', profile_path = ''/s/x'', timers = {}\<rparr>"

lemma current_facts:
  "parseArgs [''-hosts'', ''skyforge''] = Inr demo_args"
  "(arg_hosts demo_args, arg_build demo_args, arg_self demo_args, arg_mode demo_args, arg_force demo_args,
    arg_copy_jobs demo_args) = ([''skyforge''], False, False, ModeSafe, False, 4)"
  "NewSSHControl (env_machine current_env) fresh = (Inr demo_ctl, fresh)"
  "\<not> isl (fst (demo_resolve current_env printer_host))"
  "map (\<lambda>p. (pr_skip p, pr_host p = printer_host, UpToDate (pr_plan p)))
     (fst (demo_precheck current_env printer_host)) = [(False, True, True)]"
  "fst current_deploy"
  by code_simp+

lemma current_effects: "list_all (\<lambda>e. effect printer_host e current_target current_target) (trace current_end)"
  by code_simp

lemma current_evolves: "evolves printer_host current_target (trace current_end) current_target"
proof -
  have "evolves h t es t" if "list_all (\<lambda>e. effect h e t t) es" for h t es
    using that by (induction es rule: rev_induct) (auto intro: evolves.intros)
  then show ?thesis using current_effects by blast
qed

text \<open>A pipeline with one host that is up to date and whose activation succeeds.\<close>

lemma lone_run:
  assumes "jtodo J = [p]" and "UpToDate (pr_plan p)" and "CopyJobs (jopts J) = 4"
    and "Deploy (jctx J) (pr_host p) ModeSafe (pr_plan p) s = (True, v)"
  shows "RunPipeline J s [\<lparr>hr_host = pr_host p, hr_status = StatusDeployed\<rparr>]
    (dropSSHMaster (ctx_runner (jctx J)) (pr_host p) v)"
proof -
  let ?labels = "[Receive, Activate, PollOne, Take 0, Take 1, Take 2, Take 3, CloseAct, Receive]"
  obtain P0 where P0: "pipe_start J s = Some P0" using assms(1) by (simp add: pipe_start_Some)
  have "\<exists>P. run_labels (pstep J) ?labels P0 = Some P \<and> drainer P = Returned \<and>
      results P = [\<lparr>hr_host = pr_host p, hr_status = StatusDeployed\<rparr>] \<and>
      shared P = dropSSHMaster (ctx_runner (jctx J)) (pr_host p) v"
    using P0 assms
    by (auto simp: pipe_start_Some pstep.simps receive_step_def activate_step_def poll_one_def
        take_step_def close_act_def receive_def close_def end_poller_def make_chan_def leave_def
        job_copies_def need_build_def numeral_eq_Suc split_beta Let_def)
  then obtain P where P: "run_labels (pstep J) ?labels P0 = Some P" "drainer P = Returned"
    "results P = [\<lparr>hr_host = pr_host p, hr_status = StatusDeployed\<rparr>]"
    "shared P = dropSSHMaster (ctx_runner (jctx J)) (pr_host p) v" by blast
  have "reaches J s P"
    using P0 P(1) by (intro reaches_schedule [THEN iffD2] exI [of _ P0] exI [of _ ?labels] conjI)
  from RunPipeline.drained [OF _ this P(2)] P(3,4) assms(1) show ?thesis by simp
qed

lemma current_run:
  "\<exists>out. run current_env [''-hosts'', ''skyforge''] fresh (0, out) current_end"
proof -
  have args: "arg_hosts demo_args = [''skyforge'']" "\<not> arg_build demo_args" "\<not> arg_self demo_args"
    "arg_mode demo_args = ModeSafe" "\<not> arg_force demo_args" "arg_copy_jobs demo_args = 4"
    using current_facts(2) by simp_all
  let ?E = current_env and ?pre = "fst (demo_precheck current_env printer_host)"
    and ?u = "snd (demo_precheck current_env printer_host)"
    and ?paths = "projr (fst (demo_resolve current_env printer_host))"
  let ?v = "dropSSHMaster (ctx_runner (run_ctx ?E demo_args demo_ctl)) printer_host (snd current_deploy)"
  let ?J = "pipeline_job ?E demo_args demo_ctl [current_plan] []"
  have p: "?pre = [current_plan]" "\<not> pr_skip current_plan" "pr_host current_plan = printer_host"
    "UpToDate (pr_plan current_plan)"
    using current_facts(5) by (auto simp: current_plan_def)
  have "Deploy (run_ctx ?E demo_args demo_ctl) printer_host ModeSafe (pr_plan current_plan) ?u =
      (True, snd current_deploy)"
    using current_facts(6) by (simp add: current_deploy_def prod_eq_iff)
  with lone_run [of ?J current_plan ?u "snd current_deploy"] p
  have "RunPipeline ?J ?u [\<lparr>hr_host = printer_host, hr_status = StatusDeployed\<rparr>] ?v"
    by (simp add: pipeline_job_def pipelineOpts_def args)
  from deploy_todo.pipelined [OF args(4) this]
  have todo: "deploy_todo ?E demo_args demo_ctl [current_plan] [] ?u [] ?v"
    by (simp add: failed_hosts_def status_failed_def)
  have "\<exists>out. deploy_run ?E demo_args [printer_host] [] demo_ctl fresh (exit_code ([] @ []) [], out) ?v"
  proof (rule exI, rule deploy_run.processed)
    show "schedule_of ([printer_host] @ []) [0]" "schedule_of [printer_host] [0]"
      using demo_schedule by simp_all
    show "ResolveToplevels (quiet_runner ?E demo_ctl) [0] ([printer_host] @ []) fresh =
        (Inr ?paths, snd (demo_resolve ?E printer_host))"
      by (rule demo_steps(1) [OF current_facts(4)])
    show "PrecheckAll (quiet_runner ?E demo_ctl) [0] [printer_host] ?paths (arg_force demo_args)
        (snd (demo_resolve ?E printer_host)) = (?pre, ?u)"
      using demo_steps(2) [OF current_facts(4)] args(5) by simp
    show "triage ?pre [] [] [] = ([], [], [current_plan])" "k3s_down ?pre = None" using p by simp_all
    show "deploy_todo ?E demo_args demo_ctl [current_plan] (map (\<lambda>h. Drv (toplevel_of ?paths h)) []) ?u [] ?v"
      using todo by simp
    show "not_built (\<lambda>n w. w) (quiet_runner ?E demo_ctl) ?paths 0 [] [] ?v = ([], ?v)" by simp
  qed
  then obtain out where "deploy_run ?E demo_args [printer_host]
      (BuildOnlyHosts AllHosts [''skyforge'']) demo_ctl fresh (0, out) ?v"
    by (auto simp: exit_code_def BuildOnlyHosts_def)
  moreover have "requested ?E demo_args = Inr [''skyforge'']" using args by (simp add: requested_def)
  ultimately have "run ?E [''-hosts'', ''skyforge''] fresh (0, out) current_end"
    unfolding current_end_def using current_facts(1,3) demo_facts(2) args(2) by (intro run.deployed)
  then show ?thesis by blast
qed

section \<open>Properties\<close>

text \<open>
  C1: no run strands a host. Stop a run in safe mode after any number of its calls, whatever
  the interleaving of its goroutines, and take any host that reacted to them as documented,
  with timers firing at any point. There is one system such that the host's boot default is
  the one it had, or that system after it was verified on the host; and the host runs what
  it ran, or its old boot default, or that system with a reboot timer armed or after the
  verification.
\<close>

theorem run_never_strands:
  assumes "run E argv s out s'" and "parseArgs argv = Inr args" and "arg_mode args = ModeSafe"
    and "prefix seen (since (trace s) (trace s'))" and "evolves h t0 seen t"
  shows "\<exists>path. (boot_default t = boot_default t0 \<or>
      boot_default t = path \<and> verified h path seen) \<and>
    (live t \<in> {live t0, boot_default t0} \<or>
      live t = path \<and> (timers t \<noteq> {} \<or> verified h path seen))"
proof -
  from run_touched [OF assms(1-3), of h] obtain path ph where "in_phase h path s s' ph"
    using harmless_phase deployed_once_phase by blast
  from in_phase_recoverable [OF this assms(4,5)] show ?thesis by blast
qed

theorem run_never_strands_witness:
  "\<exists>out. run current_env [''-hosts'', ''skyforge''] fresh (0, out) current_end \<and>
     evolves printer_host current_target (trace current_end) current_target \<and>
     (\<exists>path. live current_target = ''/s/x'' \<or>
        live current_target = path \<and> verified printer_host path (trace current_end))"
proof -
  obtain out where run: "run current_env [''-hosts'', ''skyforge''] fresh (0, out) current_end"
    using current_run by blast
  have mode: "arg_mode demo_args = ModeSafe" using current_facts(2) by simp
  have ev: "evolves printer_host current_target (since (trace fresh) (trace current_end)) current_target"
    using current_evolves by (simp add: fresh_def since_def)
  from run_never_strands [OF run current_facts(1) mode prefix_order.refl ev]
  have "\<exists>path. live current_target = ''/s/x'' \<or>
      live current_target = path \<and> verified printer_host path (trace current_end)"
    by (auto simp: current_target_def)
  with run current_evolves show ?thesis by blast
qed



end
