(* ===== verification/Pipeline_Spec.thy ===== *)
theory Pipeline_Spec
  imports Pipeline_Props
begin

text \<open>
  What a pipeline is, without its machinery: every host is at one stage of a lifecycle, and
  moves along it, one activation at a time, until a failure stops the run. The goroutines
  and channels of \<open>deployment/pipeline.go\<close> refine this specification. The second part is
  the order in which hosts are handed on.
\<close>

section \<open>The lifecycle of a host\<close>

datatype stage = Unbuilt | Built | Copying | Ready | Live | Left host_status

type_synonym fleet = "(precheck_result \<times> stage) multiset \<times> bool"

text \<open>
  The moves of one host, with the flag that stops the run. \<open>halts\<close> says which hosts stop the
  run when their activation fails. An activation begins only while no other is under way.
\<close>

inductive move :: "(precheck_result \<Rightarrow> bool) \<Rightarrow> fleet \<Rightarrow> fleet \<Rightarrow> bool" for hs where
  found: "move hs (add_mset (p, Unbuilt) M, stop) (add_mset (p, Built) M, stop)"
| not_built: "move hs (add_mset (p, Unbuilt) M, stop) (add_mset (p, Left StatusBuildFailed) M, stop)"
| taken: "move hs (add_mset (p, Built) M, stop) (add_mset (p, Copying) M, stop)"
| copied: "move hs (add_mset (p, Copying) M, stop) (add_mset (p, Ready) M, stop)"
| not_copied: "move hs (add_mset (p, Copying) M, stop) (add_mset (p, Left StatusCopyFailed) M, stop)"
| cancelled: "move hs (add_mset (p, Ready) M, True) (add_mset (p, Left StatusCancelled) M, True)"
| begun: "\<forall>q. (q, Live) \<notin># M \<Longrightarrow>
    move hs (add_mset (p, Ready) M, False) (add_mset (p, Live) M, False)"
| deployed: "move hs (add_mset (p, Live) M, stop) (add_mset (p, Left StatusDeployed) M, stop)"
| not_deployed: "move hs (add_mset (p, Live) M, stop)
    (add_mset (p, Left StatusDeployFailed) M, stop \<or> hs p)"

text \<open>At the start the hosts that are up to date are ready, and the others not built.\<close>

definition fleet_start :: "precheck_result list \<Rightarrow> fleet \<Rightarrow> bool" where
  "fleet_start todo F \<longleftrightarrow>
     F = (mset (map (\<lambda>p. (p, if UpToDate (pr_plan p) then Ready else Unbuilt)) todo), False)"

section \<open>The stages of a pipeline state\<close>

fun hand_stage :: "copy_worker \<Rightarrow> (precheck_result \<times> stage) list" where
  "hand_stage WIdle = []"
| "hand_stage (WCopying p) = [(p, Copying)]"
| "hand_stage (WPutting p) = [(p, Ready)]"
| "hand_stage WExited = []"

definition at_stage :: "stage \<Rightarrow> precheck_result list \<Rightarrow> (precheck_result \<times> stage) list" where
  "at_stage st ps = map (\<lambda>p. (p, st)) ps"

definition fleet_of :: "'w pipe \<Rightarrow> fleet" where
  "fleet_of P =
     (mset (at_stage Unbuilt (polled (poller P)) @ at_stage Built (queue (copyCh P)) @
        concat (map hand_stage (workers P)) @ at_stage Ready (queue (actCh P)) @
        at_stage Live (on_table (drainer P)) @ map (\<lambda>(p, st). (p, Left st)) (finished P)),
      stopped P)"

lemma at_stage_simps [simp]:
  "at_stage st [] = []" "at_stage st (p # ps) = (p, st) # at_stage st ps"
  "at_stage st (ps @ qs) = at_stage st ps @ at_stage st qs"
  by (simp_all add: at_stage_def)

lemma no_live:
  "(q, Live) \<notin> set (at_stage Unbuilt ps)" "(q, Live) \<notin> set (at_stage Built ps)"
  "(q, Live) \<notin> set (at_stage Ready ps)" "(q, Live) \<notin> set (concat (map hand_stage ws))"
  "(q, Live) \<notin> (\<lambda>(p, st). (p, Left st)) ` set fs"
proof -
  have "(q, Live) \<notin> set (hand_stage w)" for w by (cases w) auto
  then show "(q, Live) \<notin> set (concat (map hand_stage ws))" by auto
qed (auto simp: at_stage_def)

text \<open>One host changes its stage.\<close>

lemma moveI:
  assumes "x \<in># fst F" and "fst F' = add_mset y (fst F - {#x#})"
    and "move hs (add_mset x (fst F - {#x#}), snd F) (add_mset y (fst F - {#x#}), snd F')"
  shows "move hs F F'"
  using assms by (cases F; cases F') simp

lemma worker_fleet:
  assumes "i < length ws"
  obtains R where "mset (concat (map hand_stage ws)) = mset (hand_stage (ws ! i)) + R"
    and "\<And>w. mset (concat (map hand_stage (ws[i := w]))) = mset (hand_stage w) + R"
  using mset_concat_update [OF assms, of hand_stage] by blast

lemma fleet_starts: "pipe_start J s = Some P \<Longrightarrow> fleet_start (jtodo J) (fleet_of P)"
proof -
  assume "pipe_start J s = Some P"
  moreover have "mset (map (\<lambda>p. (p, if UpToDate (pr_plan p) then Ready else Unbuilt)) ps) =
      mset (at_stage Unbuilt (need_build ps)) + mset (at_stage Ready (filter (\<lambda>p. UpToDate (pr_plan p)) ps))"
    for ps
    by (induction ps) (auto simp: need_build_def)
  moreover have "mset (at_stage Unbuilt (sort_key f ps)) = mset (at_stage Unbuilt ps)"
    for f :: "precheck_result \<Rightarrow> int" and ps
    by (simp add: at_stage_def)
  moreover have "concat (map hand_stage (replicate n WIdle)) = []" for n by (induction n) auto
  ultimately show ?thesis
    by (auto simp: fleet_start_def fleet_of_def pipe_start_Some make_chan_def)
qed

section \<open>Every step is a move or none\<close>

lemma fleet_poll:
  assumes "flow_inv J P" and "poll_one J P = Some P'"
  shows "fleet_of P' = fleet_of P \<or> move (halts J) (fleet_of P) (fleet_of P')"
  using assms(2,1)
proof (cases rule: poll_cases)
  case ended
  then show ?thesis by (auto simp: fleet_of_def)
next
  case (found final p ps missing s)
  have "move (halts J) (fleet_of P) (fleet_of P')"
    by (rule moveI [where x = "(p, Unbuilt)" and y = "(p, Built)"])
      (simp_all add: fleet_of_def found move.found)
  then show ?thesis by simp
next
  case (missed final p ps missing s)
  then show ?thesis by (simp add: fleet_of_def)
next
  case (swept final missing)
  then show ?thesis by (simp add: fleet_of_def)
next
  case (marked p ps)
  have "move (halts J) (fleet_of P) (fleet_of P')"
    by (rule moveI [where x = "(p, Unbuilt)" and y = "(p, Left StatusBuildFailed)"])
      (simp_all add: fleet_of_def marked move.not_built)
  then show ?thesis by simp
qed

lemma fleet_take:
  assumes "take_step i P = Some P'"
  shows "fleet_of P' = fleet_of P \<or> move (halts J) (fleet_of P) (fleet_of P')"
  using assms
proof (cases rule: take_cases)
  case (got p q)
  obtain R where R: "mset (concat (map hand_stage (workers P))) = mset (hand_stage (workers P ! i)) + R"
    "\<And>w. mset (concat (map hand_stage ((workers P)[i := w]))) = mset (hand_stage w) + R"
    using worker_fleet [OF got(1)] by blast
  have "move (halts J) (fleet_of P) (fleet_of P')"
    by (rule moveI [where x = "(p, Built)" and y = "(p, Copying)"])
      (simp_all add: fleet_of_def got R move.taken del: mset_concat)
  then show ?thesis by simp
next
  case ended
  obtain R where "mset (concat (map hand_stage (workers P))) = mset (hand_stage (workers P ! i)) + R"
    "\<And>w. mset (concat (map hand_stage ((workers P)[i := w]))) = mset (hand_stage w) + R"
    using worker_fleet [OF ended(1)] by blast
  then show ?thesis using ended by (simp add: fleet_of_def del: mset_concat)
qed

lemma fleet_copy:
  assumes "copy_step J i P = Some P'"
  shows "move (halts J) (fleet_of P) (fleet_of P')"
  using assms
proof (rule copy_cases)
  fix p ok s
  assume i: "i < length (workers P)" "workers P ! i = WCopying p"
    and eq: "P' = (if ok then P\<lparr>shared := s, workers := (workers P)[i := WPutting p]\<rparr>
      else leave J p StatusCopyFailed (P\<lparr>shared := s, workers := (workers P)[i := WIdle]\<rparr>))"
  obtain R where R: "mset (concat (map hand_stage (workers P))) = mset (hand_stage (workers P ! i)) + R"
    "\<And>w. mset (concat (map hand_stage ((workers P)[i := w]))) = mset (hand_stage w) + R"
    using worker_fleet [OF i(1)] by blast
  show ?thesis
  proof (cases ok)
    case True
    show ?thesis
      by (rule moveI [where x = "(p, Copying)" and y = "(p, Ready)"])
        (simp_all add: fleet_of_def eq True i R move.copied del: mset_concat)
  next
    case False
    show ?thesis
      by (rule moveI [where x = "(p, Copying)" and y = "(p, Left StatusCopyFailed)"])
        (simp_all add: fleet_of_def eq False i R move.not_copied del: mset_concat)
  qed
qed

lemma fleet_put:
  assumes "put_step i P = Some P'" and "flow_inv J P"
  shows "fleet_of P' = fleet_of P"
  using assms
proof (rule put_cases)
  fix p
  assume i: "i < length (workers P)" "workers P ! i = WPutting p"
    and eq: "P' = P\<lparr>workers := (workers P)[i := WIdle], actCh := (actCh P)\<lparr>queue := queue (actCh P) @ [p]\<rparr>\<rparr>"
  obtain R where "mset (concat (map hand_stage (workers P))) = mset (hand_stage (workers P ! i)) + R"
    "\<And>w. mset (concat (map hand_stage ((workers P)[i := w]))) = mset (hand_stage w) + R"
    using worker_fleet [OF i(1)] by blast
  then show ?thesis by (simp add: fleet_of_def eq i del: mset_concat)
qed

lemma fleet_receive:
  assumes "receive_step J P = Some P'"
  shows "fleet_of P' = fleet_of P \<or> move (halts J) (fleet_of P) (fleet_of P')"
  using assms
proof (cases rule: receive_cases)
  case (cancelled p q)
  have "move (halts J) (fleet_of P) (fleet_of P')"
    by (rule moveI [where x = "(p, Ready)" and y = "(p, Left StatusCancelled)"])
      (simp_all add: fleet_of_def cancelled move.cancelled)
  then show ?thesis by simp
next
  case (begun p q)
  let ?M = "mset (at_stage Unbuilt (polled (poller P)) @ at_stage Built (queue (copyCh P)) @
      concat (map hand_stage (workers P)) @ at_stage Ready q @ map (\<lambda>(p, st). (p, Left st)) (finished P))"
  have "(r, Live) \<notin># ?M" for r
    unfolding set_mset_mset set_append set_map using no_live by (simp only: Un_iff simp_thms)
  then have "move (halts J) (add_mset (p, Ready) ?M, False) (add_mset (p, Live) ?M, False)"
    by (intro move.begun allI)
  moreover have "fleet_of P = (add_mset (p, Ready) ?M, False)" "fleet_of P' = (add_mset (p, Live) ?M, False)"
    by (simp_all add: fleet_of_def begun del: mset_concat)
  ultimately have "move (halts J) (fleet_of P) (fleet_of P')" by (simp only:)
  then show ?thesis by simp
next
  case returned
  then show ?thesis by (simp add: fleet_of_def)
qed

lemma fleet_activate:
  assumes "activate_step J P = Some P'"
  shows "move (halts J) (fleet_of P) (fleet_of P')"
  using assms
proof (rule activate_cases)
  fix p ok s stop
  assume at: "drainer P = Activating p"
    and eq: "P' = (leave J p (if ok then StatusDeployed else StatusDeployFailed)
      (P\<lparr>shared := dropSSHMaster (ctx_runner (jctx J)) (pr_host p) s, drainer := Draining\<rparr>))\<lparr>stopped := stop\<rparr>"
    and stop: "stop \<longleftrightarrow> stopped P \<or> \<not> ok \<and> (InGroup (pr_host p) ''k3s'' \<or> OnFailure (jopts J) = OnFailureStop)"
  show ?thesis
  proof (cases ok)
    case True
    show ?thesis
      by (rule moveI [where x = "(p, Live)" and y = "(p, Left StatusDeployed)"])
        (simp_all add: fleet_of_def eq at stop True move.deployed)
  next
    case False
    have down: "move (halts J) (add_mset (p, Live) M, stopped P) (add_mset (p, Left StatusDeployFailed) M, stop)" for M
      using move.not_deployed [of "halts J" p M "stopped P"] stop False by (simp add: halts_def)
    show ?thesis
      by (rule moveI [where x = "(p, Live)" and y = "(p, Left StatusDeployFailed)"])
        (simp_all add: fleet_of_def eq at False down)
  qed
qed

lemma fleet_step:
  assumes "flow_inv J P" and "pstep J l P = Some P'"
  shows "fleet_of P' = fleet_of P \<or> move (halts J) (fleet_of P) (fleet_of P')"
  using assms(2)
proof (cases rule: pstep_cases)
  case (drift w)
  then show ?thesis by (simp add: fleet_of_def)
next
  case build
  from build(2) show ?thesis by (rule build_cases) (simp add: fleet_of_def)
next
  case tick
  from tick(2) show ?thesis by (rule sweep_cases) (simp add: fleet_of_def)
next
  case seen
  from seen(3) show ?thesis by (rule sweep_cases) (simp add: fleet_of_def)
next
  case poll
  then show ?thesis using fleet_poll [OF assms(1)] by blast
next
  case (take i)
  then show ?thesis using fleet_take by blast
next
  case (copy i)
  then show ?thesis using fleet_copy by blast
next
  case (put i)
  then show ?thesis using fleet_put [OF _ assms(1)] by blast
next
  case close
  from close(2) assms(1) show ?thesis by (rule close_cases) (simp add: fleet_of_def)
next
  case receive
  then show ?thesis using fleet_receive by blast
next
  case activate
  then show ?thesis using fleet_activate by blast
qed

interpretation lifecycle: simulation "\<lambda>P. pipe_start J s = Some P" "pstep J" "flow_inv J"
    fleet_of "fleet_start (jtodo J)" "move (halts J)" for J s
proof unfold_locales
  show "fleet_start (jtodo J) (fleet_of P)" if "pipe_start J s = Some P" for P
    using that by (rule fleet_starts)
  show "fleet_of P' = fleet_of P \<or> move (halts J) (fleet_of P) (fleet_of P')"
    if "flow_inv J P" "pstep J l P = Some P'" for P l P'
    using that by (rule fleet_step)
qed

text \<open>What the specification itself says: no host is lost, and at most one is live.\<close>

definition live_hosts :: "fleet \<Rightarrow> precheck_result multiset" where
  "live_hosts F = image_mset fst (filter_mset (\<lambda>(p, st). st = Live) (fst F))"

lemma move_sound:
  assumes "move hs F F'" and "size (live_hosts F) \<le> 1"
  shows "image_mset fst (fst F') = image_mset fst (fst F) \<and> size (live_hosts F') \<le> 1"
  using assms
proof (induction rule: move.induct)
  case (begun M p)
  then have "filter_mset (\<lambda>(p, st). st = Live) M = {#}" by auto
  note none = this
  show ?case by (simp add: live_hosts_def none del: filter_mset_eq_mempty_iff)
qed (auto simp: live_hosts_def simp del: filter_mset_eq_mempty_iff split: if_splits)

lemma lifecycle_sound:
  assumes "fleet_start todo F" and "(move hs)\<^sup>*\<^sup>* F F'"
  shows "image_mset fst (fst F') = mset todo \<and> size (live_hosts F') \<le> 1"
  using assms(2)
proof induction
  case base
  have "live_hosts F = {#}"
    using assms(1) by (auto simp: live_hosts_def fleet_start_def split: if_splits)
  then show ?case using assms(1) by (simp add: fleet_start_def multiset.map_comp o_def)
next
  case (step G H)
  then show ?case using move_sound [of hs G H] by simp
qed

section \<open>The order of dispatch\<close>

text \<open>
  The hosts that are still to be built stay in the order they were sorted into, whatever
  the sweeps find, so that a sweep meets them by their deploy order, ties as in the list.
\<close>

definition dispatch_inv :: "'w job \<Rightarrow> 'w pipe \<Rightarrow> bool" where
  "dispatch_inv J P \<longleftrightarrow>
     subseq (polled (poller P)) (sort_key (\<lambda>p. Order (pr_host p)) (need_build (jtodo J)))"

lemma subseq_drop_one: "subseq (xs @ ys) (xs @ y # ys)"
  by (simp add: subseq_append' list_emb_Cons)

lemma dispatch_poll:
  assumes "flow_inv J P" and "poll_one J P = Some P'"
  shows "subseq (polled (poller P')) (polled (poller P))"
  using assms(2,1)
  by (cases rule: poll_cases) (auto simp: subseq_drop_one)

lemma dispatch_step:
  assumes "flow_inv J P" and "pstep J l P = Some P'"
  shows "subseq (polled (poller P')) (polled (poller P))"
  using assms(2)
proof (cases rule: pstep_cases)
  case (drift w)
  then show ?thesis by simp
next
  case build
  from build(2) show ?thesis by (rule build_cases) simp
next
  case tick
  from tick(2) show ?thesis by (rule sweep_cases) simp
next
  case seen
  from seen(3) show ?thesis by (rule sweep_cases) simp
next
  case poll
  then show ?thesis using dispatch_poll [OF assms(1)] by blast
next
  case (take i)
  from take(2) show ?thesis by (cases rule: take_cases) simp_all
next
  case (copy i)
  from copy(2) show ?thesis by (rule copy_cases) simp
next
  case (put i)
  from put(2) assms(1) show ?thesis by (rule put_cases) simp
next
  case close
  from close(2) assms(1) show ?thesis by (rule close_cases) simp
next
  case receive
  from receive(2) show ?thesis by (cases rule: receive_cases) simp_all
next
  case activate
  from activate(2) show ?thesis by (rule activate_cases) simp
qed

interpretation dispatch: inductive_invariant "\<lambda>P. pipe_start J s = Some P" "pstep J"
    "\<lambda>P. flow_inv J P \<and> dispatch_inv J P" for J s
proof unfold_locales
  show "flow_inv J P \<and> dispatch_inv J P" if "pipe_start J s = Some P" for P
    using that flow_start [OF that] by (auto simp: dispatch_inv_def pipe_start_Some)
  show "flow_inv J P' \<and> dispatch_inv J P'"
    if "flow_inv J P \<and> dispatch_inv J P" "pstep J l P = Some P'" for P l P'
    using that flow_step dispatch_step subseq_order.trans unfolding dispatch_inv_def by blast
qed

lemma reaches_dispatch: "reaches J s P \<Longrightarrow> dispatch_inv J P"
  unfolding reaches_schedule using dispatch.everywhere [of J s] by blast

lemma sorted_subseq: "subseq xs ys \<Longrightarrow> sorted (map f ys) \<Longrightarrow> sorted (map f xs)"
  by (auto simp: subseq_conv_nths sorted_nths simp flip: nths_map)

lemma poll_keeps_order:
  assumes "reaches J s P" and "poller P = Sweeping final (p # ps) missing"
  shows "list_all (\<lambda>q. Order (pr_host p) \<le> Order (pr_host q)) ps"
proof -
  have "sorted (map (\<lambda>p. Order (pr_host p)) (polled (poller P)))"
    using reaches_dispatch [OF assms(1)] sorted_sort_key unfolding dispatch_inv_def
    by (rule sorted_subseq)
  then show ?thesis using assms(2) by (auto simp: sorted_append list_all_iff)
qed

section \<open>The properties\<close>

text \<open>
  C11: The pipeline refines the lifecycle of its hosts. Whatever the schedule, the states of
  the goroutines and channels, read as the stage of every host, are a run of the
  specification from its start; each single step is one move of one host or none; no host
  is lost and at most one is being activated; and when the function has returned, every
  host has left.
\<close>

theorem pipeline_refines_lifecycle:
  assumes "reaches J s P"
  shows "(\<exists>F. fleet_start (jtodo J) F \<and> (move (halts J))\<^sup>*\<^sup>* F (fleet_of P)) \<and>
    (\<forall>l P'. pstep J l P = Some P' \<longrightarrow>
       fleet_of P' = fleet_of P \<or> move (halts J) (fleet_of P) (fleet_of P')) \<and>
    image_mset fst (fst (fleet_of P)) = mset (jtodo J) \<and> size (live_hosts (fleet_of P)) \<le> 1 \<and>
    (drainer P = Returned \<longrightarrow> (\<forall>(p, st) \<in># fst (fleet_of P). \<exists>x. st = Left x))"
proof -
  obtain P0 ls where start: "pipe_start J s = Some P0" and ls: "run_labels (pstep J) ls P0 = Some P"
    using assms by (auto simp: reaches_schedule)
  note run = lifecycle.every_run_matches [OF start ls]
  have inv: "flow_inv J P" using assms by (rule reaches_flow)
  have "\<forall>(p, st) \<in># fst (fleet_of P). \<exists>x. st = Left x" if ret: "drainer P = Returned"
  proof -
    have "queue (copyCh P) = []" "queue (actCh P) = []" "concat (map hand_stage (workers P)) = []"
      using inv returned_all [OF inv ret] ret by (auto simp: flow_inv_def)
    then show ?thesis using returned_all(3) [OF inv ret] ret by (auto simp: fleet_of_def)
  qed
  with run lifecycle_sound [OF conjunct1 [OF run] conjunct2 [OF run]] fleet_step [OF inv]
  show ?thesis by blast
qed

theorem pipeline_refines_lifecycle_witness:
  "\<exists>P. reaches dead_job dead_st P \<and> image_mset fst (fst (fleet_of P)) = mset (jtodo dead_job) \<and>
     (\<forall>(p, st) \<in># fst (fleet_of P). \<exists>x. st = Left x)"
proof -
  obtain P where "reaches dead_job dead_st P" "drainer P = Returned" using dead_run by blast
  with pipeline_refines_lifecycle [OF this(1)] show ?thesis by blast
qed

text \<open>
  A sweep hands hosts on in deploy order. Whenever the poller is in the middle of a
  sweep, no host it has yet to ask about comes before the one it asks about now, and the
  hosts that are still to be built are the start's sorted list with some left out.
\<close>

theorem sweeps_keep_deploy_order:
  assumes "reaches J s P" and "poller P = Sweeping final (p # ps) missing"
  shows "list_all (\<lambda>q. Order (pr_host p) \<le> Order (pr_host q)) ps \<and>
    subseq (missing @ p # ps) (sort_key (\<lambda>p. Order (pr_host p)) (need_build (jtodo J)))"
  using poll_keeps_order [OF assms] reaches_dispatch [OF assms(1)] assms(2)
  by (simp add: dispatch_inv_def)

text \<open>Two hosts to build, listed against their order: the first tick starts a sweep.\<close>

definition late_host :: "string \<Rightarrow> int \<Rightarrow> precheck_result" where
  "late_host name n = zero_precheck\<lparr>pr_host := zero_host\<lparr>Name := name, Order := n\<rparr>,
     pr_plan := \<lparr>SystemPath = ''/nix/store/new'', DrvPath = ''/nix/store/new.drv'', UpToDate = False\<rparr>\<rparr>"

definition two_builds :: "unit job" where
  "two_builds = dead_job\<lparr>jtodo := [late_host ''b'' 2, late_host ''a'' 1]\<rparr>"

theorem sweeps_keep_deploy_order_witness:
  "\<exists>P. reaches two_builds dead_st P \<and>
     poller P = Sweeping False (late_host ''a'' 1 # [late_host ''b'' 2]) [] \<and>
     list_all (\<lambda>q. Order (pr_host (late_host ''a'' 1)) \<le> Order (pr_host q)) [late_host ''b'' 2]"
proof -
  obtain P0 where start: "pipe_start two_builds dead_st = Some P0" by (simp add: pipe_start_Some)
  have "poller P0 = Waiting [late_host ''a'' 1, late_host ''b'' 2]" "\<not> crashed P0"
    using start by (auto simp: pipe_start_Some two_builds_def need_build_def late_host_def sort_key_def)
  then obtain P where step: "pstep two_builds Tick P0 = Some P"
    and at: "poller P = Sweeping False (late_host ''a'' 1 # [late_host ''b'' 2]) []"
    by (simp add: pstep.simps start_sweep_def)
  have "reaches two_builds dead_st P" using start step by (blast intro: reaches.intros)
  with sweeps_keep_deploy_order [OF this at] at show ?thesis by blast
qed

end
