(* ===== verification/Tv.thy ===== *)
theory Tv
  imports Runner Json "HOL-Library.AList"
begin

text \<open>
  \<open>tests/tv\<close>: the driver of the TV box. \<open>helpers.go\<close> runs shell commands on two hosts over
  ssh (the TV's power state and its CEC bus, key presses through \<open>ydotool\<close>, JavaScript in
  the CEF targets of Steam's user interface), and \<open>menu.go\<close> walks Steam's menus with them.
  As for the deployment tool, what lies behind ssh is the parameter: a \<open>tv_machine\<close> answers
  every command, says how much longer a sleep took than it was asked to, and picks the
  order in which a \<open>range\<close> visits a Go map, which the language leaves open. The state is
  that world, the clock, and as a ghost the log of what was run.
\<close>

section \<open>Quoting and base64\<close>

text \<open>\<open>"'" + strings.ReplaceAll(s, "'", `'\''`) + "'"\<close>\<close>

definition shellQuote :: "string \<Rightarrow> string" where
  "shellQuote s =
     quoted (concat (map (\<lambda>c. if c = quote_char
                              then [quote_char, CHR 0x5C, quote_char, quote_char] else [c]) s))"

text \<open>\<open>base64.StdEncoding.EncodeToString\<close>\<close>

definition base64_alphabet :: string where
  "base64_alphabet = ''ABCDEFGHIJKLMNOPQRSTUVWXYZabcdefghijklmnopqrstuvwxyz0123456789+/''"

definition sextet :: "nat \<Rightarrow> char" where
  "sextet n = base64_alphabet ! n"

fun base64 :: "string \<Rightarrow> string" where
  "base64 [] = []"
| "base64 [a] =
     (let x = of_char a in
      [sextet (x div 4), sextet (x mod 4 * 16), CHR ''='', CHR ''=''])"
| "base64 [a, b] =
     (let x = of_char a; y = of_char b in
      [sextet (x div 4), sextet (x mod 4 * 16 + y div 16), sextet (y mod 16 * 4), CHR ''=''])"
| "base64 (a # b # c # rest) =
     (let x = of_char a; y = of_char b; z = of_char c in
      [sextet (x div 4), sextet (x mod 4 * 16 + y div 16), sextet (y mod 16 * 4 + z div 64),
       sextet (z mod 64)] @ base64 rest)"

section \<open>JavaScript evaluated in the user interface\<close>

definition menuStateJS :: string where
  \<open>menuStateJS = Join
     [''(function(){'',
      ''  var m = document.querySelector("div.BasicUIContextMenu");'',
      ''  var f = document.querySelector("div.contextMenuItem.gpfocus");'',
      ''  var rows = [];'',
      ''  if (m) {'',
      ''    var n = m.querySelectorAll("div.contextMenuItem");'',
      ''    for (var i = 0; i < n.length; i++) rows.push((n[i].textContent||"").trim());'',
      ''  }'',
      ''  var title = "";'',
      ''  if (m && rows.length) {'',
      ''    var whole = (m.textContent||"").trim();'',
      ''    var first = whole.indexOf(rows[0]);'',
      ''    if (first > 0) title = whole.slice(0, first).trim();'',
      ''  }'',
      ''  return JSON.stringify({open: !!m, title: title, rows: rows,'',
      ''    focused: f ? (f.textContent||"").trim() : ""});'',
      ''})()''] [newline]\<close>

definition uiFocusJS :: string where
  \<open>uiFocusJS = Join
     [''(function(){'',
      ''  var f = document.querySelector(".gpfocus");'',
      ''  var m = document.querySelector("div.BasicUIContextMenu");'',
      ''  return JSON.stringify({focus: f ? (f.textContent||"").trim().slice(0,30) : "",'',
      ''    ctx: !!m, ctxTitle: m ? (m.textContent||"").trim().slice(0,18) : ""});'',
      ''})()''] [newline]\<close>

definition focusJS :: string where
  \<open>focusJS = Join
     [''(function(){'',
      [CHR 0x09] @ ''  var f = document.querySelector(".gpfocus");'',
      [CHR 0x09] @ ''  return f ? (f.textContent||"").trim() : "";'',
      [CHR 0x09] @ ''})()''] [newline]\<close>

definition routeJS :: string where
  "routeJS = ''location.pathname''"

section \<open>Commands\<close>

definition guevenne :: string where
  "guevenne = ''guevenne''"

definition nelkir :: string where
  "nelkir = ''nelkir''"

text \<open>One constructor per command the driver runs; \<open>Ydo\<close> carries a key script.\<close>

datatype tv_cmd =
    TvStatus
  | ReadEdid
  | CecMonitor string int
  | CecLast string
  | CdpEval string string
  | Ydo string
  | LsSocket
  | StartYdotoold
  | ListTargets
  | CdpSweep string
  | SetInput string

text \<open>The request every evaluation sends, a \<open>jq\<close> program that puts the script in.\<close>

definition cdp_request :: string where
  \<open>cdp_request =
     ''jq -nc --arg e "$E" '' @ quoted
       (''{id:1,method:"Runtime.evaluate",params:'' @
        ''{expression:$e,returnByValue:true,awaitPromise:true}}'')\<close>

definition cdp_script :: "string \<Rightarrow> string \<Rightarrow> string" where
  \<open>cdp_script target expr = Join
     [[],
      ''E=$(printf %s '' @ quoted (base64 expr) @ '' | base64 -d)'',
      ''WS=$(curl -s http://127.0.0.1:8080/json/list | nix shell nixpkgs#jq -c jq -r --arg t '' @
        quoted target @ '' '' @
        quoted ''[.[]|select(.title|contains($t))|.webSocketDebuggerUrl][0]'' @ '')'',
      ''if [ -z "$WS" ] || [ "$WS" = "null" ]; then echo "NOTARGET"; exit 1; fi'',
      ''nix shell nixpkgs#jq -c '' @ cdp_request @ '' | tr -d '' @ quoted [CHR 0x5C, CHR ''n''] @
        '' > /tmp/.tvtest-cdp'',
      ''echo >> /tmp/.tvtest-cdp'',
      ''nix shell nixpkgs#websocat -c websocat -n1 "$WS" < /tmp/.tvtest-cdp''] [newline]\<close>

definition sweep_script :: "string \<Rightarrow> string" where
  \<open>sweep_script expr = Join
     [[],
      ''E=$(printf %s '' @ quoted (base64 expr) @ '' | base64 -d)'',
      ''curl -s http://127.0.0.1:8080/json/list '' @ [CHR 0x5C],
      ''  | jq -r '' @ quoted (''.[] | select(.webSocketDebuggerUrl != null) | '' @
        ''[.title, .webSocketDebuggerUrl] | @tsv'') @ '' '' @ [CHR 0x5C],
      ''  | while IFS="$(printf '' @ quoted [CHR 0x5C, CHR ''t''] @ '')" read -r title ws; do'',
      ''      '' @ cdp_request @ '' > /tmp/.tvtest-cdp-all'',
      ''      R=$(websocat -n1 "$ws" < /tmp/.tvtest-cdp-all 2>/dev/null)'',
      ''      printf '' @ quoted ([CHR ''%'', CHR ''s'', CHR 0x5C, CHR ''t''] @
        [CHR ''%'', CHR ''s'', CHR 0x5C, CHR ''n'']) @ '' "$title" "$R"'',
      ''    done''] [newline]\<close>

definition routingAwk :: string where
  "routingAwk = ''awk '' @ quoted
     (''/Received from TV.*(ROUTING_CHANGE|SET_STREAM_PATH)/ {f=1; next} '' @
      ''f && /new-phys-addr:/ {v=$NF; f=0; next} '' @
      ''f && /orig-phys-addr:/ {next} '' @
      ''f && /phys-addr:/ {v=$NF; f=0; next} '' @
      ''END {print v}'')"

fun cmd_text :: "tv_cmd \<Rightarrow> string" where
  "cmd_text TvStatus = ''tv status''"
| \<open>cmd_text ReadEdid =
     ''nix shell nixpkgs#edid-decode -c sh -c '' @
     ''"edid-decode /sys/class/drm/card1-HDMI-A-1/edid 2>/dev/null | '' @
     ''awk '' @ quoted (''/Source physical address/ {print '' @ [CHR 0x5C] @ ''$NF}'') @ ''"''\<close>
| \<open>cmd_text (CecMonitor file seconds) =
     ''sudo sh -c "nohup timeout '' @ Itoa seconds @ '' cec-ctl -d /dev/cec0 --monitor > '' @
     file @ '' 2>&1 &"''\<close>
| "cmd_text (CecLast file) = routingAwk @ '' '' @ file @ '' 2>/dev/null''"
| "cmd_text (CdpEval target expr) = cdp_script target expr"
| "cmd_text (Ydo script) =
     ''export YDOTOOL_SOCKET=/tmp/ydotool.sock DISPLAY=:0; '' @
     ''nix shell nixpkgs#ydotool -c sh -c '' @ quoted script"
| "cmd_text LsSocket = ''ls /tmp/ydotool.sock 2>/dev/null''"
| \<open>cmd_text StartYdotoold =
     ''sudo modprobe uinput 2>/dev/null; '' @
     ''sudo sh -c "nix shell nixpkgs#ydotool -c setsid ydotoold --socket-path=/tmp/ydotool.sock '' @
     ''--socket-own=1000:100 >/dev/null 2>&1 &"; '' @
     ''sleep 8; ls /tmp/ydotool.sock''\<close>
| "cmd_text ListTargets = ''curl -s http://127.0.0.1:8080/json/list''"
| "cmd_text (CdpSweep expr) =
     ''nix shell nixpkgs#jq nixpkgs#websocat nixpkgs#curl -c bash -c '' @
     shellQuote (sweep_script expr)"
| "cmd_text (SetInput pa) =
     ''exec 3<>/dev/tcp/nelkir/5555 && printf '' @
     quoted (''source '' @ pa @ [CHR 0x5C, CHR ''n'']) @ '' >&3 && timeout 5 head -1 <&3''"

definition ssh_argv :: "string \<Rightarrow> string \<Rightarrow> string list" where
  "ssh_argv host cmd =
     [''ssh'', ''-o'', ''BatchMode=yes'', ''-o'', ''ConnectTimeout=10'',
      ''-o'', ''StrictHostKeyChecking=accept-new'', host, cmd]"

section \<open>What the user interface answers\<close>

record menu_state =
  Open :: bool
  Title :: string
  Rows :: "string list"
  Focused :: string

definition zero_menu :: menu_state where
  "zero_menu = \<lparr>Open = False, Title = [], Rows = [], Focused = []\<rparr>"

definition menu_field :: "menu_state \<Rightarrow> string \<Rightarrow> json \<Rightarrow> menu_state option" where
  "menu_field m key v =
     (if key_is ''open'' key then map_option (\<lambda>b. m\<lparr>Open := b\<rparr>) (decode_bool (Open m) v)
      else if key_is ''title'' key then map_option (\<lambda>x. m\<lparr>Title := x\<rparr>) (decode_string (Title m) v)
      else if key_is ''rows'' key
        then map_option (\<lambda>xs. m\<lparr>Rows := xs\<rparr>) (decode_list (decode_string []) v)
      else if key_is ''focused'' key
        then map_option (\<lambda>x. m\<lparr>Focused := x\<rparr>) (decode_string (Focused m) v)
      else Some m)"

definition decode_menu :: "string \<Rightarrow> menu_state option" where
  "decode_menu v = Unmarshal (decode_struct menu_field) zero_menu v"

text \<open>\<open>menuState.has\<close>\<close>

fun has_row :: "string list \<Rightarrow> string \<Rightarrow> bool" where
  "has_row [] label = False"
| "has_row (r # rs) label = (if r = label then True else has_row rs label)"

definition has :: "menu_state \<Rightarrow> string \<Rightarrow> bool" where
  "has m label = has_row (Rows m) label"

lemma has_iff: "has m label \<longleftrightarrow> label \<in> set (Rows m)"
proof -
  have "has_row rs label \<longleftrightarrow> label \<in> set rs" for rs by (induction rs) auto
  then show ?thesis by (simp add: has_def)
qed

text \<open>
  \<open>cdpEnvelope\<close> is two structs around one string, so a value of it is that string: each
  level passes on what the level below has so far.
\<close>

definition value_field :: "string \<Rightarrow> string \<Rightarrow> json \<Rightarrow> string option" where
  "value_field cur key v = (if key_is ''value'' key then decode_string cur v else Some cur)"

definition inner_result :: "string \<Rightarrow> string \<Rightarrow> json \<Rightarrow> string option" where
  "inner_result cur key v =
     (if key_is ''result'' key then decode_struct value_field cur v else Some cur)"

definition outer_result :: "string \<Rightarrow> string \<Rightarrow> json \<Rightarrow> string option" where
  "outer_result cur key v =
     (if key_is ''result'' key then decode_struct inner_result cur v else Some cur)"

definition cdpEnvelope :: "string \<Rightarrow> string option" where
  "cdpEnvelope body = Unmarshal (decode_struct outer_result) [] body"

record cdpTarget =
  tgt_title :: string
  tgt_ws :: string

definition target_field :: "cdpTarget \<Rightarrow> string \<Rightarrow> json \<Rightarrow> cdpTarget option" where
  "target_field t key v =
     (if key_is ''title'' key
        then map_option (\<lambda>x. t\<lparr>tgt_title := x\<rparr>) (decode_string (tgt_title t) v)
      else if key_is ''webSocketDebuggerUrl'' key
        then map_option (\<lambda>x. t\<lparr>tgt_ws := x\<rparr>) (decode_string (tgt_ws t) v)
      else Some t)"

text \<open>\<open>strings.Cut\<close> at the first occurrence of a byte.\<close>

definition Cut :: "string \<Rightarrow> char \<Rightarrow> (string \<times> string) option" where
  "Cut s c = map_option (\<lambda>i. (take i s, drop (i + 1) s)) (IndexByte s c)"

text \<open>The map that the loop of \<open>cdpEvalAll\<close> fills: a later line of a title replaces an earlier.\<close>

fun sweep_lines :: "(string \<times> string) list \<Rightarrow> string list \<Rightarrow> (string \<times> string) list" where
  "sweep_lines res [] = res"
| "sweep_lines res (l # ls) =
     (case Cut l (CHR 0x09) of
        None \<Rightarrow> sweep_lines res ls
      | Some (title, body) \<Rightarrow>
          if body = [] then sweep_lines res ls
          else (case cdpEnvelope body of
                  None \<Rightarrow> sweep_lines res ls
                | Some v \<Rightarrow> sweep_lines (AList.update title v res) ls))"

definition parse_sweep :: "string \<Rightarrow> (string \<times> string) list" where
  "parse_sweep out = sweep_lines [] (Split out newline)"

section \<open>The machine and the state\<close>

text \<open>
  \<open>ssh_exec\<close> runs an argv (a \<open>process\<close> without a deadline), \<open>oversleep\<close> is by how much a
  sleep is longer than asked for, and \<open>map_seed\<close> picks the order of one \<open>range\<close> over a map.
\<close>

record 'w tv_machine =
  ssh_exec :: "string list \<Rightarrow> 'w \<Rightarrow> process \<times> 'w"
  oversleep :: "duration \<Rightarrow> 'w \<Rightarrow> nat \<times> 'w"
  map_seed :: "'w \<Rightarrow> nat list \<times> 'w"

datatype tv_event = Did string tv_cmd process | Napped duration

record 'w tv_state =
  tv_world :: 'w
  tv_clock :: int
  tv_log :: "tv_event list"

text \<open>
  The errors, with what their messages are built from. An attempt of \<open>openPowerMenu\<close> that
  failed is kept with its number.
\<close>

datatype tv_error =
    CommandFailed string tv_cmd go_error string
  | NoPhysAddr string
  | BadReply string
  | BadTargetList
  | NoTargetAnswered
  | FocusStuck string string "string list"
  | NotReached string int "string list"
  | Refused string string
  | NoBaseline tv_error
  | AttemptsFailed "(nat \<times> attempt_failure) list"
  | StillOpen menu_state string
  | NoRoute
  | NoMainMenu string
  | NoWayHome tv_error
  | NotHome string string
and attempt_failure =
    MenuDidNotOpen string string
  | StepFailed tv_error
  | NoSubmenu menu_state

definition tv_sleep :: "'w tv_machine \<Rightarrow> duration \<Rightarrow> 'w tv_state \<Rightarrow> 'w tv_state" where
  "tv_sleep m d s =
     (let (extra, w) = oversleep m d (tv_world s) in
      s\<lparr>tv_world := w, tv_clock := tv_clock s + max 0 d + int extra,
        tv_log := tv_log s @ [Napped d]\<rparr>)"

text \<open>
  \<open>run\<close>: the trimmed output of a command, which a failure returns as well, and the error.
\<close>

definition tv_run ::
  "'w tv_machine \<Rightarrow> string \<Rightarrow> tv_cmd \<Rightarrow> 'w tv_state \<Rightarrow> (string \<times> tv_error option) \<times> 'w tv_state" where
  "tv_run m host cmd s =
     (let (p, w) = ssh_exec m (ssh_argv host (cmd_text cmd)) (tv_world s);
          s' = s\<lparr>tv_world := w, tv_clock := tv_clock s + int (elapsed p),
                 tv_log := tv_log s @ [Did host cmd p]\<rparr>;
          out = TrimSpace (proc_out p)
      in (case run_error p of
            Some err \<Rightarrow> ((out, Some (CommandFailed host cmd err (TrimSpace (proc_err p)))), s')
          | None \<Rightarrow> ((out, None), s')))"

text \<open>The pairs of a map in the order a \<open>range\<close> visits them: one permutation per seed.\<close>

fun range_order :: "nat list \<Rightarrow> 'a list \<Rightarrow> 'a list" where
  "range_order ns [] = []"
| "range_order [] (x # xs) = x # xs"
| "range_order (n # ns) (x # xs) =
     (let i = n mod length (x # xs) in
      (x # xs) ! i # range_order ns (take i (x # xs) @ drop (Suc i) (x # xs)))"

definition range_map :: "'w tv_machine \<Rightarrow> 'a list \<Rightarrow> 'w tv_state \<Rightarrow> 'a list \<times> 'w tv_state" where
  "range_map m xs s =
     (let (ns, w) = map_seed m (tv_world s) in (range_order ns xs, s\<lparr>tv_world := w\<rparr>))"

lemma mset_range_order [simp]: "mset (range_order ns xs) = mset xs"
proof (induction ns xs rule: range_order.induct)
  case (3 n ns x xs)
  define i where "i = n mod length (x # xs)"
  have i: "i < length (x # xs)" by (simp add: i_def)
  have "mset (range_order (n # ns) (x # xs)) =
      add_mset ((x # xs) ! i) (mset (take i (x # xs) @ drop (Suc i) (x # xs)))"
    using 3 by (simp add: i_def Let_def)
  also have "\<dots> = mset (take i (x # xs) @ (x # xs) ! i # drop (Suc i) (x # xs))"
    by simp
  also have "\<dots> = mset (x # xs)" using i by (simp only: id_take_nth_drop [symmetric])
  finally show ?case .
qed simp_all

lemma set_range_order [simp]: "set (range_order ns xs) = set xs"
  by (metis mset_range_order set_mset_mset)

lemma range_order_Nil_iff [simp]: "range_order ns xs = [] \<longleftrightarrow> xs = []"
  by (metis mset_range_order mset_zero_iff)

section \<open>What an operation adds\<close>

text \<open>
  The contract of every operation: it appends to the log a piece that satisfies a
  predicate, and the clock does not go back. A predicate that holds of the empty piece and
  is kept by concatenation passes from the steps of an operation to the whole.
\<close>

definition adds :: "(tv_event list \<Rightarrow> bool) \<Rightarrow> 'w tv_state \<Rightarrow> 'w tv_state \<Rightarrow> bool" where
  "adds Q s s' \<longleftrightarrow>
     (\<exists>ys. tv_log s' = tv_log s @ ys \<and> Q ys) \<and> tv_clock s \<le> tv_clock s'"

abbreviation grows :: "'w tv_state \<Rightarrow> 'w tv_state \<Rightarrow> bool" where
  "grows \<equiv> adds (\<lambda>ys. True)"

lemma addsI: "tv_log s' = tv_log s @ ys \<Longrightarrow> Q ys \<Longrightarrow> tv_clock s \<le> tv_clock s' \<Longrightarrow> adds Q s s'"
  by (auto simp: adds_def)

lemma adds_clock: "adds Q s s' \<Longrightarrow> tv_clock s \<le> tv_clock s'"
  by (simp add: adds_def)

lemma adds_mono: "adds P s s' \<Longrightarrow> (\<And>ys. P ys \<Longrightarrow> Q ys) \<Longrightarrow> adds Q s s'"
  by (auto simp: adds_def)

locale log_class =
  fixes Q :: "tv_event list \<Rightarrow> bool"
  assumes no_piece: "Q []"
    and two_pieces: "Q xs \<Longrightarrow> Q ys \<Longrightarrow> Q (xs @ ys)"
begin

lemma adds_refl: "adds Q s s"
  using no_piece by (auto simp: adds_def)

lemma adds_trans: "adds Q s t \<Longrightarrow> adds Q t u \<Longrightarrow> adds Q s u"
  by (auto simp: adds_def two_pieces)

end

interpretation any: log_class "\<lambda>ys. True"
  by unfold_locales auto

named_theorems tv_grows \<open>operations of the driver that only add to the log\<close>

lemma tv_sleep_grows [tv_grows]: "grows s (tv_sleep m d s)"
  by (auto simp: tv_sleep_def adds_def split_beta)

lemma tv_sleep_clock: "tv_clock s + max 0 d \<le> tv_clock (tv_sleep m d s)"
  by (simp add: tv_sleep_def split_beta)

lemma tv_run_grows [tv_grows]: "grows s (snd (tv_run m host cmd s))"
  by (auto simp: tv_run_def adds_def split_beta Let_def split: option.splits)

lemma range_map_log [simp]: "tv_log (snd (range_map m xs s)) = tv_log s"
  by (simp add: range_map_def split_beta)

lemma range_map_clock [simp]: "tv_clock (snd (range_map m xs s)) = tv_clock s"
  by (simp add: range_map_def split_beta)

lemma adds_range_map [simp]: "adds Q s (snd (range_map m xs t)) = adds Q s t"
  by (simp add: adds_def)

lemma range_map_set [simp]: "set (fst (range_map m xs s)) = set xs"
  by (simp add: range_map_def split_beta)

section \<open>The interface of a polling loop\<close>

text \<open>
  Five loops poll until an attempt decides or the time is up: two look at the clock before
  each attempt, three after it. An attempt runs one command and takes what the attempts
  before it have seen; the locales fix a loop by its unfolding equation.
\<close>

definition is_command :: "tv_event \<Rightarrow> bool" where
  "is_command e = (case e of Did host cmd p \<Rightarrow> True | Napped d \<Rightarrow> False)"

definition commands :: "'w tv_state \<Rightarrow> nat" where
  "commands s = length (filter is_command (tv_log s))"

lemma commands_sleep [simp]: "commands (tv_sleep m d s) = commands s"
  by (simp add: commands_def tv_sleep_def is_command_def split_beta)

lemma commands_range_map [simp]: "commands (snd (range_map m xs s)) = commands s"
  by (simp add: commands_def)

lemma commands_run [simp]: "commands (snd (tv_run m host cmd s)) = Suc (commands s)"
  by (simp add: commands_def tv_run_def is_command_def Let_def split_beta split: option.split)

text \<open>The number of pauses that fit between two attempts and a limit.\<close>

definition rounds :: "duration \<Rightarrow> duration \<Rightarrow> nat" where
  "rounds span pause = nat ((span + pause) div pause)"

lemma rounds_step:
  assumes "0 < pause" and "pause \<le> spent" and "0 \<le> span"
  shows "Suc (rounds (span - spent) pause) \<le> rounds span pause"
proof -
  have "(span - spent + pause) div pause \<le> span div pause"
    using assms by (intro zdiv_mono1) auto
  moreover have "(span + pause) div pause = span div pause + 1"
    using assms(1) by (simp add: div_add_self2)
  moreover have "0 \<le> span div pause" using assms by (simp add: pos_imp_zdiv_nonneg_iff)
  ultimately show ?thesis unfolding rounds_def by linarith
qed

locale poll_after =
  fixes m :: "'w tv_machine" and pause :: duration
    and attempt :: "'a \<Rightarrow> 'w tv_state \<Rightarrow> ('a + 'b) \<times> 'w tv_state"
    and give_up :: "'a \<Rightarrow> 'b"
    and loop :: "int \<Rightarrow> 'a \<Rightarrow> 'w tv_state \<Rightarrow> 'b \<times> 'w tv_state"
  assumes pause_pos: "0 < pause"
    and attempt_grows: "grows s (snd (attempt a s))"
    and attempt_cost: "commands (snd (attempt a s)) = Suc (commands s)"
    and loop_unfold: "loop limit a s =
      (case attempt a s of
         (Inr b, s1) \<Rightarrow> (b, s1)
       | (Inl a1, s1) \<Rightarrow>
           if limit < tv_clock s1 then (give_up a1, s1)
           else loop limit a1 (tv_sleep m pause s1))"
begin

lemma pause_passes:
  assumes "attempt a s = (x, s1)"
  shows "tv_clock s \<le> tv_clock s1" and "tv_clock s + pause \<le> tv_clock (tv_sleep m pause s1)"
  using adds_clock [OF attempt_grows [of s a]] tv_sleep_clock [of s1 pause m] assms pause_pos by auto

text \<open>Induction over the attempts.\<close>

lemma loop_induct [case_names attempt]:
  assumes step: "\<And>a s. (\<And>a1 s1. attempt a s = (Inl a1, s1) \<Longrightarrow> \<not> limit < tv_clock s1 \<Longrightarrow>
      P a1 (tv_sleep m pause s1)) \<Longrightarrow> P a s"
  shows "P a s"
proof (induction "nat (limit + 1 - tv_clock s)" arbitrary: a s rule: less_induct)
  case less
  show ?case
  proof (rule step)
    fix a1 s1 assume "attempt a s = (Inl a1, s1)" and "\<not> limit < tv_clock s1"
    with pause_passes [of a s "Inl a1" s1] pause_pos show "P a1 (tv_sleep m pause s1)"
      by (intro less) auto
  qed
qed

text \<open>A loop ends with an attempt that decided, or with the last one after the limit.\<close>

lemma step_grows: "attempt a s = (x, s1) \<Longrightarrow> grows s (tv_sleep m pause s1)"
  using any.adds_trans [OF attempt_grows [of s a] tv_sleep_grows [of _ m pause]] by simp

lemma loop_outcome:
  assumes "loop limit a s = (b, s')"
  shows "(\<exists>a0 s0. grows s s0 \<and> attempt a0 s0 = (Inr b, s')) \<or>
    (limit < tv_clock s' \<and> (\<exists>a0 s0 a1. grows s s0 \<and> attempt a0 s0 = (Inl a1, s') \<and> b = give_up a1))"
  using assms
proof (induction a s rule: loop_induct [of limit])
  case (attempt a s)
  obtain r s1 where Pair: "attempt a s = (r, s1)" by force
  consider (decided) b' where "r = Inr b'" | (late) a1 where "r = Inl a1" "limit < tv_clock s1"
    | (again) a1 where "r = Inl a1" "\<not> limit < tv_clock s1"
    by (cases r) auto
  then show ?case
  proof cases
    case decided
    with Pair attempt(2) have "attempt a s = (Inr b, s')" by (auto simp: loop_unfold [of limit a s])
    then show ?thesis using any.adds_refl [of s] by blast
  next
    case late
    with Pair attempt(2) have "b = give_up a1" and "s' = s1" by (simp_all add: loop_unfold [of limit a s])
    with late Pair show ?thesis using any.adds_refl [of s] by blast
  next
    case again
    with Pair attempt(2) have "loop limit a1 (tv_sleep m pause s1) = (b, s')"
      by (simp add: loop_unfold [of limit a s])
    from attempt(1) [OF _ again(2) this] Pair again(1) show ?thesis
      using any.adds_trans [OF step_grows [OF Pair]] by blast
  qed
qed

lemma loop_adds:
  assumes "log_class Q" and att: "\<And>a s. adds Q s (snd (attempt a s))"
    and nap: "\<And>s. adds Q s (tv_sleep m pause s)"
  shows "adds Q s (snd (loop limit a s))"
proof (induction a s rule: loop_induct [of limit])
  case (attempt a s)
  obtain r s1 where Pair: "attempt a s = (r, s1)" by force
  note trans = log_class.adds_trans [OF assms(1)]
  have first: "adds Q s s1" using att [of s a] Pair by simp
  show ?case
  proof (cases "\<exists>a1. r = Inl a1 \<and> \<not> limit < tv_clock s1")
    case True
    then obtain a1 where "r = Inl a1" "\<not> limit < tv_clock s1" by blast
    with Pair attempt [of a1 s1] show ?thesis
      by (auto simp: loop_unfold [of limit a s] intro: trans [OF trans [OF first nap]])
  next
    case False
    with Pair first show ?thesis by (cases r) (auto simp: loop_unfold [of limit a s])
  qed
qed

lemma loop_cost:
  "commands (snd (loop limit a s)) \<le> commands s + Suc (rounds (limit - tv_clock s) pause)"
proof (induction a s rule: loop_induct [of limit])
  case (attempt a s)
  show ?case
  proof (cases "attempt a s")
    case (Pair r s1)
    have c: "commands s1 = Suc (commands s)" using attempt_cost [of a s] Pair by simp
    show ?thesis
    proof (cases r)
      case (Inl a1)
      note fin = pause_passes [OF Pair]
      show ?thesis
      proof (cases "limit < tv_clock s1")
        case False
        let ?s2 = "tv_sleep m pause s1"
        have "Suc (rounds (limit - tv_clock ?s2) pause) \<le> rounds (limit - tv_clock s) pause"
          using rounds_step [of pause "tv_clock ?s2 - tv_clock s" "limit - tv_clock s"]
            pause_pos fin False by simp
        with False Inl Pair c attempt [of a1 s1] show ?thesis
          by (simp add: loop_unfold [of limit a s])
      qed (use Inl Pair c in \<open>simp add: loop_unfold [of limit a s]\<close>)
    qed (use Pair c in \<open>simp add: loop_unfold [of limit a s]\<close>)
  qed
qed

end

locale poll_until =
  fixes m :: "'w tv_machine" and pause :: duration
    and attempt :: "'a \<Rightarrow> 'w tv_state \<Rightarrow> ('a + 'b) \<times> 'w tv_state"
    and give_up :: "'a \<Rightarrow> 'b"
    and loop :: "int \<Rightarrow> 'a \<Rightarrow> 'w tv_state \<Rightarrow> 'b \<times> 'w tv_state"
  assumes pause_pos: "0 < pause"
    and attempt_grows: "grows s (snd (attempt a s))"
    and attempt_cost: "commands (snd (attempt a s)) = Suc (commands s)"
    and loop_unfold: "loop limit a s =
      (if tv_clock s < limit then
         (case attempt a s of
            (Inr b, s1) \<Rightarrow> (b, s1)
          | (Inl a1, s1) \<Rightarrow> loop limit a1 (tv_sleep m pause s1))
       else (give_up a, s))"
begin

lemma pause_passes:
  assumes "attempt a s = (x, s1)"
  shows "tv_clock s + pause \<le> tv_clock (tv_sleep m pause s1)"
  using adds_clock [OF attempt_grows [of s a]] tv_sleep_clock [of s1 pause m] assms pause_pos by auto

lemma loop_induct [case_names attempt]:
  assumes step: "\<And>a s. (\<And>a1 s1. tv_clock s < limit \<Longrightarrow> attempt a s = (Inl a1, s1) \<Longrightarrow>
      P a1 (tv_sleep m pause s1)) \<Longrightarrow> P a s"
  shows "P a s"
proof (induction "nat (limit - tv_clock s)" arbitrary: a s rule: less_induct)
  case less
  show ?case
  proof (rule step)
    fix a1 s1 assume "tv_clock s < limit" and "attempt a s = (Inl a1, s1)"
    with pause_passes [of a s "Inl a1" s1] pause_pos show "P a1 (tv_sleep m pause s1)"
      by (intro less) auto
  qed
qed

lemma loop_outcome:
  assumes "loop limit a s = (b, s')"
  shows "(\<exists>a0 s0. attempt a0 s0 = (Inr b, s')) \<or>
    limit \<le> tv_clock s' \<and> (\<exists>a1. b = give_up a1 \<and> (a1 = a \<or> (\<exists>a0 s0 s1. attempt a0 s0 = (Inl a1, s1))))"
  using assms
proof (induction a s rule: loop_induct [of limit])
  case (attempt a s)
  obtain r s1 where Pair: "attempt a s = (r, s1)" by force
  consider (late) "\<not> tv_clock s < limit" | (decided) b' where "tv_clock s < limit" "r = Inr b'"
    | (again) a1 where "tv_clock s < limit" "r = Inl a1"
    by (cases r) auto
  then show ?case
  proof cases
    case again
    with Pair attempt(2) have "loop limit a1 (tv_sleep m pause s1) = (b, s')"
      by (simp add: loop_unfold [of limit a s])
    with attempt(1) [OF again(1) _ this] Pair again(2) show ?thesis by blast
  qed (use Pair attempt(2) in \<open>auto simp: loop_unfold [of limit a s]\<close>)
qed

lemma loop_cost:
  "commands (snd (loop limit a s)) \<le> commands s + rounds (limit - tv_clock s - 1) pause"
proof (induction a s rule: loop_induct [of limit])
  case (attempt a s)
  show ?case
  proof (cases "tv_clock s < limit")
    case True
    obtain r s1 where Pair: "attempt a s = (r, s1)" by force
    let ?s2 = "tv_sleep m pause s1"
    have c: "commands s1 = Suc (commands s)" using attempt_cost [of a s] Pair by simp
    have "Suc (rounds (limit - tv_clock ?s2 - 1) pause) \<le> rounds (limit - tv_clock s - 1) pause"
      using rounds_step [of pause "tv_clock ?s2 - tv_clock s" "limit - tv_clock s - 1"]
        pause_pos pause_passes [OF Pair] True by (simp add: algebra_simps)
    with True Pair c attempt show ?thesis
      by (cases r) (fastforce simp: loop_unfold [of limit a s])+
  qed (simp add: loop_unfold [of limit a s])
qed

end

text \<open>Every polling loop of the driver sleeps between two attempts, so it ends.\<close>

lemma poll_advances:
  assumes "(x, s1) = f" and "grows s (snd f)" and "0 < d"
  shows "tv_clock s < tv_clock (tv_sleep m d s1)"
proof -
  have "snd f = s1" using assms(1) [symmetric] by simp
  then show ?thesis
    using assms(2,3) adds_clock [of _ s s1] tv_sleep_clock [of s1 d m] by fastforce
qed

lemma poll_before: "(x, s1) = f \<Longrightarrow> grows s (snd f) \<Longrightarrow> \<not> d < tv_clock s1 \<Longrightarrow> tv_clock s \<le> d"
  using adds_clock [of _ s s1] by (cases f) force

section \<open>The television\<close>

definition lastLine :: "string \<Rightarrow> string" where
  "lastLine s = TrimSpace (last (Split (TrimSpace s) newline))"

definition tvStatus :: "'w tv_machine \<Rightarrow> 'w tv_state \<Rightarrow> string \<times> 'w tv_state" where
  "tvStatus m s =
     (case tv_run m guevenne TvStatus s of
        ((out, Some err), s) \<Rightarrow> (''unreachable'', s)
      | ((out, None), s) \<Rightarrow> (lastLine out, s))"

lemma tvStatus_grows [tv_grows]: "grows s (snd (tvStatus m s))"
  using tv_run_grows [of s m guevenne TvStatus]
  by (auto simp: tvStatus_def split: prod.splits option.splits)

text \<open>The loop of \<open>tvSettled\<close>; \<open>cur\<close> is the last answer.\<close>

function settle_loop ::
  "'w tv_machine \<Rightarrow> int \<Rightarrow> string \<Rightarrow> 'w tv_state \<Rightarrow> string \<times> 'w tv_state" where
  "settle_loop m deadline cur s =
     (if tv_clock s < deadline then
        (case tvStatus m s of
           (st, s1) \<Rightarrow>
             if st \<noteq> ''unknown'' then (st, s1)
             else settle_loop m deadline st (tv_sleep m (4 * Second) s1))
      else (cur, s))"
  by pat_completeness auto
termination
  by (relation "measure (\<lambda>(m, deadline, cur, s). nat (deadline - tv_clock s))")
    (auto intro: poll_advances [OF _ tvStatus_grows])

declare settle_loop.simps [simp del]

definition tvSettled :: "'w tv_machine \<Rightarrow> duration \<Rightarrow> 'w tv_state \<Rightarrow> string \<times> 'w tv_state" where
  "tvSettled m timeout s = settle_loop m (tv_clock s + timeout) ''unknown'' s"

function wait_tv_loop ::
  "'w tv_machine \<Rightarrow> string \<Rightarrow> int \<Rightarrow> 'w tv_state \<Rightarrow> bool \<times> 'w tv_state" where
  "wait_tv_loop m state deadline s =
     (if tv_clock s < deadline then
        (case tvStatus m s of
           (st, s1) \<Rightarrow>
             if st = state then (True, s1)
             else wait_tv_loop m state deadline (tv_sleep m (4 * Second) s1))
      else (False, s))"
  by pat_completeness auto
termination
  by (relation "measure (\<lambda>(m, state, deadline, s). nat (deadline - tv_clock s))")
    (auto intro: poll_advances [OF _ tvStatus_grows])

declare wait_tv_loop.simps [simp del]

definition waitTV :: "'w tv_machine \<Rightarrow> string \<Rightarrow> duration \<Rightarrow> 'w tv_state \<Rightarrow> bool \<times> 'w tv_state" where
  "waitTV m state timeout s = wait_tv_loop m state (tv_clock s + timeout) s"

definition guevennePA :: "'w tv_machine \<Rightarrow> 'w tv_state \<Rightarrow> (tv_error + string) \<times> 'w tv_state" where
  "guevennePA m s =
     (case tv_run m guevenne ReadEdid s of
        ((out, Some err), s) \<Rightarrow> (Inl err, s)
      | ((out, None), s) \<Rightarrow>
          (let pa = lastLine out in
           if length (Split pa CHR ''.'') \<noteq> 4 then (Inl (NoPhysAddr pa), s) else (Inr pa, s)))"

text \<open>The error of a command that is run for its effect.\<close>

definition command :: "'w tv_machine \<Rightarrow> string \<Rightarrow> tv_cmd \<Rightarrow> 'w tv_state
    \<Rightarrow> tv_error option \<times> 'w tv_state" where
  "command m host cmd s = (case tv_run m host cmd s of ((out, err), s) \<Rightarrow> (err, s))"

definition setTVInput :: "'w tv_machine \<Rightarrow> string \<Rightarrow> 'w tv_state \<Rightarrow> tv_error option \<times> 'w tv_state" where
  "setTVInput m pa s = command m guevenne (SetInput pa) s"

section \<open>The CEC bus\<close>

definition cecMonitorStart :: "'w tv_machine \<Rightarrow> string \<Rightarrow> int \<Rightarrow> 'w tv_state
    \<Rightarrow> tv_error option \<times> 'w tv_state" where
  "cecMonitorStart m file seconds s =
     (case command m nelkir (CecMonitor file seconds) s of
        (err, s) \<Rightarrow> (err, tv_sleep m (3 * Second) s))"

definition cecLastRouting :: "'w tv_machine \<Rightarrow> string \<Rightarrow> 'w tv_state \<Rightarrow> string \<times> 'w tv_state" where
  "cecLastRouting m file s =
     (case tv_run m nelkir (CecLast file) s of
        ((out, Some err), s) \<Rightarrow> ([], s)
      | ((out, None), s) \<Rightarrow> (lastLine out, s))"

lemma cecLastRouting_grows [tv_grows]: "grows s (snd (cecLastRouting m file s))"
  using tv_run_grows [of s m nelkir "CecLast file"]
  by (auto simp: cecLastRouting_def split: prod.splits option.splits)

function routing_loop ::
  "'w tv_machine \<Rightarrow> string \<Rightarrow> int \<Rightarrow> 'w tv_state \<Rightarrow> string \<times> 'w tv_state" where
  "routing_loop m file deadline s =
     (case cecLastRouting m file s of
        (pa, s1) \<Rightarrow>
          if pa \<noteq> [] then (pa, s1)
          else if deadline < tv_clock s1 then ([], s1)
          else routing_loop m file deadline (tv_sleep m (2 * Second) s1))"
  by pat_completeness auto
termination
  by (relation "measure (\<lambda>(m, file, deadline, s). nat (deadline + 1 - tv_clock s))")
    (auto intro: poll_advances [OF _ cecLastRouting_grows] poll_before [OF _ cecLastRouting_grows])

declare routing_loop.simps [simp del]

definition waitLastRouting :: "'w tv_machine \<Rightarrow> string \<Rightarrow> duration \<Rightarrow> 'w tv_state
    \<Rightarrow> string \<times> 'w tv_state" where
  "waitLastRouting m file timeout s = routing_loop m file (tv_clock s + timeout) s"

section \<open>The loops meet the interface\<close>

text \<open>One attempt of each loop, as the interface has it.\<close>

definition settle_attempt :: "'w tv_machine \<Rightarrow> string \<Rightarrow> 'w tv_state \<Rightarrow> (string + string) \<times> 'w tv_state" where
  "settle_attempt m cur s =
     (case tvStatus m s of (st, s1) \<Rightarrow> (if st \<noteq> ''unknown'' then Inr st else Inl st, s1))"

definition wait_tv_attempt :: "'w tv_machine \<Rightarrow> string \<Rightarrow> unit \<Rightarrow> 'w tv_state \<Rightarrow> (unit + bool) \<times> 'w tv_state" where
  "wait_tv_attempt m state u s =
     (case tvStatus m s of (st, s1) \<Rightarrow> (if st = state then Inr True else Inl (), s1))"

definition routing_attempt :: "'w tv_machine \<Rightarrow> string \<Rightarrow> unit \<Rightarrow> 'w tv_state \<Rightarrow> (unit + string) \<times> 'w tv_state" where
  "routing_attempt m path u s =
     (case cecLastRouting m path s of (pa, s1) \<Rightarrow> (if pa \<noteq> [] then Inr pa else Inl (), s1))"

lemma commands_tvStatus [simp]: "commands (snd (tvStatus m s)) = Suc (commands s)"
  using commands_run [of m guevenne TvStatus s]
  by (auto simp: tvStatus_def split: prod.splits option.splits simp del: commands_run)

lemma commands_cecLastRouting [simp]: "commands (snd (cecLastRouting m path s)) = Suc (commands s)"
  using commands_run [of m nelkir "CecLast path" s]
  by (auto simp: cecLastRouting_def split: prod.splits option.splits simp del: commands_run)

interpretation settle: poll_until m "4 * Second" "settle_attempt m" "\<lambda>cur. cur" "settle_loop m" for m
  by unfold_locales
    (auto simp: settle_attempt_def split_beta settle_loop.simps [of m] intro: tvStatus_grows)

interpretation wait_tv: poll_until m "4 * Second" "wait_tv_attempt m state" "\<lambda>u. False"
    "\<lambda>limit u. wait_tv_loop m state limit" for m state
  by unfold_locales
    (auto simp: wait_tv_attempt_def split_beta wait_tv_loop.simps [of m] intro: tvStatus_grows)

interpretation routing: poll_after m "2 * Second" "routing_attempt m path" "\<lambda>u. []"
    "\<lambda>limit u. routing_loop m path limit" for m path
  by unfold_locales
    (auto simp: routing_attempt_def split_beta routing_loop.simps [of m] intro: cecLastRouting_grows)

section \<open>Steam's user interface\<close>

definition cdpEval :: "'w tv_machine \<Rightarrow> string \<Rightarrow> string \<Rightarrow> 'w tv_state
    \<Rightarrow> (tv_error + string) \<times> 'w tv_state" where
  "cdpEval m target expr s =
     (case tv_run m guevenne (CdpEval target expr) s of
        ((out, Some err), s) \<Rightarrow> (Inl err, s)
      | ((out, None), s) \<Rightarrow>
          (case cdpEnvelope (lastLine out) of
             None \<Rightarrow> (Inl (BadReply (lastLine out)), s)
           | Some v \<Rightarrow> (Inr v, s)))"

definition ydo :: "'w tv_machine \<Rightarrow> string \<Rightarrow> 'w tv_state \<Rightarrow> tv_error option \<times> 'w tv_state" where
  "ydo m script s = command m guevenne (Ydo script) s"

definition ensureYdotoold :: "'w tv_machine \<Rightarrow> 'w tv_state \<Rightarrow> tv_error option \<times> 'w tv_state" where
  "ensureYdotoold m s =
     (case tv_run m guevenne LsSocket s of
        ((out, _), s) \<Rightarrow>
          if Contains out ''ydotool.sock'' then (None, s)
          else command m guevenne StartYdotoold s)"

definition cdpTargets :: "'w tv_machine \<Rightarrow> 'w tv_state \<Rightarrow> (tv_error + cdpTarget list) \<times> 'w tv_state" where
  "cdpTargets m s =
     (case tv_run m guevenne ListTargets s of
        ((out, Some err), s) \<Rightarrow> (Inl err, s)
      | ((out, None), s) \<Rightarrow>
          (case Unmarshal (\<lambda>ts. decode_list (decode_struct target_field \<lparr>tgt_title = [], tgt_ws = []\<rparr>))
                  [] out of
             None \<Rightarrow> (Inl BadTargetList, s)
           | Some ts \<Rightarrow> (Inr ts, s)))"

definition cdpEvalAll :: "'w tv_machine \<Rightarrow> string \<Rightarrow> 'w tv_state
    \<Rightarrow> (tv_error + (string \<times> string) list) \<times> 'w tv_state" where
  "cdpEvalAll m expr s =
     (case tv_run m guevenne (CdpSweep expr) s of
        ((out, Some err), s) \<Rightarrow> (Inl err, s)
      | ((out, None), s) \<Rightarrow> (Inr (parse_sweep out), s))"

lemma command_grows [tv_grows]: "grows s (snd (command m host cmd s))"
  using tv_run_grows [of s m host cmd] by (auto simp: command_def split: prod.splits)

lemma cdpEvalAll_grows [tv_grows]: "grows s (snd (cdpEvalAll m expr s))"
  using tv_run_grows [of s m guevenne "CdpSweep expr"]
  by (auto simp: cdpEvalAll_def split: prod.splits option.splits)

lemma commands_command [simp]: "commands (snd (command m host cmd s)) = Suc (commands s)"
  using commands_run [of m host cmd s]
  by (auto simp: command_def split: prod.splits simp del: commands_run)

lemma commands_cdpEvalAll [simp]: "commands (snd (cdpEvalAll m expr s)) = Suc (commands s)"
  using commands_run [of m guevenne "CdpSweep expr" s]
  by (auto simp: cdpEvalAll_def split: prod.splits option.splits simp del: commands_run)

text \<open>What a sweep says is the reading of the output that its event in the log holds.\<close>

definition swept :: "process \<Rightarrow> (string \<times> string) list" where
  "swept p = parse_sweep (TrimSpace (proc_out p))"

lemma cdpEvalAll_result:
  "\<exists>p. tv_log (snd (cdpEvalAll m expr s)) = tv_log s @ [Did guevenne (CdpSweep expr) p] \<and>
       (\<forall>res. fst (cdpEvalAll m expr s) = Inr res \<longrightarrow> run_error p = None \<and> res = swept p)"
  by (auto simp: cdpEvalAll_def tv_run_def swept_def Let_def split_beta split: option.splits)

lemma command_log:
  "\<exists>p. tv_log (snd (command m host cmd s)) = tv_log s @ [Did host cmd p]"
  by (auto simp: command_def tv_run_def Let_def split_beta split: option.splits)

end
