(* ===== verification/Tv_Menu.thy ===== *)
theory Tv_Menu
  imports Tv
begin

text \<open>
  \<open>tests/tv/menu.go\<close>: reading and walking Steam's menus. Every reading is a sweep over all
  CEF targets, every key goes through \<open>ydotool\<close>, and every loop over readings is bounded by
  a number of steps or by the clock.
\<close>

section \<open>Keys\<close>

definition keyEsc :: string where "keyEsc = ''1''"
definition keyEnter :: string where "keyEnter = ''28''"
definition keyUp :: string where "keyUp = ''103''"
definition keyDown :: string where "keyDown = ''108''"
definition keyShift :: string where "keyShift = ''42''"
definition keyTab :: string where "keyTab = ''15''"

definition key_script :: "string list \<Rightarrow> string" where
  "key_script keys =
     concat (map (\<lambda>k. ''ydotool key '' @ k @ '':1 '' @ k @ '':0; sleep 0.4; '') keys)"

definition press :: "'w tv_machine \<Rightarrow> string list \<Rightarrow> 'w tv_state \<Rightarrow> tv_error option \<times> 'w tv_state" where
  "press m keys s = ydo m (key_script keys) s"

text \<open>The chord that opens the main menu.\<close>

definition shift_tab :: string where
  "shift_tab = ''ydotool key '' @ keyShift @ '':1 '' @ keyTab @ '':1 '' @ keyTab @ '':0 '' @
     keyShift @ '':0''"

section \<open>Reading the menu\<close>

text \<open>The \<open>range\<close> of \<open>readMenu\<close>: the first readable value that says a menu is open.\<close>

fun first_open :: "(string \<times> string) list \<Rightarrow> menu_state option" where
  "first_open [] = None"
| "first_open ((tgt, v) # rest) =
     (case decode_menu v of
        None \<Rightarrow> first_open rest
      | Some cur \<Rightarrow> if Open cur then Some cur else first_open rest)"

definition readMenu :: "'w tv_machine \<Rightarrow> 'w tv_state \<Rightarrow> (tv_error + menu_state) \<times> 'w tv_state" where
  "readMenu m s =
     (case cdpEvalAll m menuStateJS s of
        (Inl err, s) \<Rightarrow> (Inl err, s)
      | (Inr res, s) \<Rightarrow>
          if length res = 0 then (Inl NoTargetAnswered, s)
          else (case range_map m res s of
                  (pairs, s) \<Rightarrow>
                    (case first_open pairs of
                       Some cur \<Rightarrow> (Inr cur, s)
                     | None \<Rightarrow> (Inr zero_menu, s))))"

text \<open>What a caller that drops the error goes on with.\<close>

definition value_or :: "'a \<Rightarrow> 'e + 'a \<Rightarrow> 'a" where
  "value_or z r = (case r of Inl _ \<Rightarrow> z | Inr x \<Rightarrow> x)"

lemma readMenu_grows [tv_grows]: "grows s (snd (readMenu m s))"
proof -
  obtain r s1 where c: "cdpEvalAll m menuStateJS s = (r, s1)" by force
  then have "grows s s1" using cdpEvalAll_grows [of s m menuStateJS] by simp
  then show ?thesis
    by (cases r) (auto simp: readMenu_def c split_beta split: option.splits)
qed

text \<open>The loop of \<open>waitMenu\<close>; \<open>prev\<close> is the last state it could read.\<close>

function wait_menu_loop :: "'w tv_machine \<Rightarrow> (menu_state \<Rightarrow> bool) \<Rightarrow> int \<Rightarrow> menu_state \<Rightarrow> 'w tv_state
    \<Rightarrow> (menu_state \<times> bool) \<times> 'w tv_state" where
  "wait_menu_loop m cond deadline prev s =
     (case readMenu m s of
        (r, s1) \<Rightarrow>
          (let prev' = value_or prev r in
           if (case r of Inr cur \<Rightarrow> cond cur | Inl err \<Rightarrow> False) then ((prev', True), s1)
           else if deadline < tv_clock s1 then ((prev', False), s1)
           else wait_menu_loop m cond deadline prev' (tv_sleep m Second s1)))"
  by pat_completeness auto
termination
  by (relation "measure (\<lambda>(m, cond, deadline, prev, s). nat (deadline + 1 - tv_clock s))")
    (auto intro: poll_advances [OF _ readMenu_grows] poll_before [OF _ readMenu_grows])

declare wait_menu_loop.simps [simp del]

definition waitMenu :: "'w tv_machine \<Rightarrow> (menu_state \<Rightarrow> bool) \<Rightarrow> duration \<Rightarrow> 'w tv_state
    \<Rightarrow> (menu_state \<times> bool) \<times> 'w tv_state" where
  "waitMenu m cond timeout s = wait_menu_loop m cond (tv_clock s + timeout) zero_menu s"

definition readFocus :: "'w tv_machine \<Rightarrow> 'w tv_state \<Rightarrow> (tv_error + string) \<times> 'w tv_state" where
  "readFocus m s = cdpEval m ''Big Picture'' uiFocusJS s"

section \<open>Focus\<close>

fun first_focus :: "(string \<times> string) list \<Rightarrow> string \<times> string" where
  "first_focus [] = ([], [])"
| "first_focus ((tgt, v) # rest) = (if v \<noteq> [] then (v, tgt) else first_focus rest)"

definition focusAnywhere :: "'w tv_machine \<Rightarrow> 'w tv_state
    \<Rightarrow> (tv_error + string \<times> string) \<times> 'w tv_state" where
  "focusAnywhere m s =
     (case cdpEvalAll m focusJS s of
        (Inl err, s) \<Rightarrow> (Inl err, s)
      | (Inr res, s) \<Rightarrow>
          (case range_map m res s of (pairs, s) \<Rightarrow> (Inr (first_focus pairs), s)))"

definition focusLabel :: "'w tv_machine \<Rightarrow> 'w tv_state \<Rightarrow> (tv_error + string) \<times> 'w tv_state" where
  "focusLabel m s =
     (case focusAnywhere m s of
        (Inl err, s) \<Rightarrow> (Inl err, s)
      | (Inr (label, tgt), s) \<Rightarrow> (Inr label, s))"

definition mainMenuTarget :: string where
  "mainMenuTarget = ''MainMenu_uid2''"

definition mainMenuOpen :: "'w tv_machine \<Rightarrow> 'w tv_state \<Rightarrow> (tv_error + bool \<times> string) \<times> 'w tv_state" where
  "mainMenuOpen m s =
     (case focusAnywhere m s of
        (Inl err, s) \<Rightarrow> (Inl err, s)
      | (Inr (label, tgt), s) \<Rightarrow> (Inr (tgt = mainMenuTarget \<and> label \<noteq> [], label), s))"

lemma focusAnywhere_grows [tv_grows]: "grows s (snd (focusAnywhere m s))"
proof -
  obtain r s1 where c: "cdpEvalAll m focusJS s = (r, s1)" by force
  then have "grows s s1" using cdpEvalAll_grows [of s m focusJS] by simp
  then show ?thesis
    by (cases r) (simp_all add: focusAnywhere_def c split_beta)
qed

lemma focusLabel_grows [tv_grows]: "grows s (snd (focusLabel m s))"
  using focusAnywhere_grows [of s m] by (auto simp: focusLabel_def split: prod.splits sum.splits)

lemma mainMenuOpen_grows [tv_grows]: "grows s (snd (mainMenuOpen m s))"
  using focusAnywhere_grows [of s m] by (auto simp: mainMenuOpen_def split: prod.splits sum.splits)

function wait_main_loop :: "'w tv_machine \<Rightarrow> bool \<Rightarrow> int \<Rightarrow> 'w tv_state
    \<Rightarrow> (string \<times> bool) \<times> 'w tv_state" where
  "wait_main_loop m want deadline s =
     (case mainMenuOpen m s of
        (r, s1) \<Rightarrow>
          (let focus = (case r of Inr (open, focus) \<Rightarrow> focus | Inl err \<Rightarrow> []) in
           if (case r of Inr (open, focus) \<Rightarrow> open = want | Inl err \<Rightarrow> False) then ((focus, True), s1)
           else if deadline < tv_clock s1 then ((focus, False), s1)
           else wait_main_loop m want deadline (tv_sleep m Second s1)))"
  by pat_completeness auto
termination
  by (relation "measure (\<lambda>(m, want, deadline, s). nat (deadline + 1 - tv_clock s))")
    (auto intro: poll_advances [OF _ mainMenuOpen_grows] poll_before [OF _ mainMenuOpen_grows])

declare wait_main_loop.simps [simp del]

definition waitMainMenu :: "'w tv_machine \<Rightarrow> bool \<Rightarrow> duration \<Rightarrow> 'w tv_state
    \<Rightarrow> (string \<times> bool) \<times> 'w tv_state" where
  "waitMainMenu m want timeout s = wait_main_loop m want (tv_clock s + timeout) s"

section \<open>The waits meet the interface\<close>

definition menu_attempt :: "'w tv_machine \<Rightarrow> (menu_state \<Rightarrow> bool) \<Rightarrow> menu_state \<Rightarrow> 'w tv_state
    \<Rightarrow> (menu_state + menu_state \<times> bool) \<times> 'w tv_state" where
  "menu_attempt m cond prev s =
     (case readMenu m s of
        (Inr cur, s1) \<Rightarrow> (if cond cur then Inr (cur, True) else Inl cur, s1)
      | (Inl err, s1) \<Rightarrow> (Inl prev, s1))"

definition main_attempt :: "'w tv_machine \<Rightarrow> bool \<Rightarrow> string \<Rightarrow> 'w tv_state
    \<Rightarrow> (string + string \<times> bool) \<times> 'w tv_state" where
  "main_attempt m want prev s =
     (case mainMenuOpen m s of
        (Inr (open, focus), s1) \<Rightarrow> (if open = want then Inr (focus, True) else Inl focus, s1)
      | (Inl err, s1) \<Rightarrow> (Inl [], s1))"

lemma commands_readMenu [simp]: "commands (snd (readMenu m s)) = Suc (commands s)"
  using commands_cdpEvalAll [of m menuStateJS s]
  by (auto simp: readMenu_def split_beta split: prod.splits sum.splits option.splits
      simp del: commands_cdpEvalAll)

lemma commands_focusAnywhere [simp]: "commands (snd (focusAnywhere m s)) = Suc (commands s)"
  using commands_cdpEvalAll [of m focusJS s]
  by (auto simp: focusAnywhere_def split_beta split: prod.splits sum.splits
      simp del: commands_cdpEvalAll)

lemma commands_focusLabel [simp]: "commands (snd (focusLabel m s)) = Suc (commands s)"
  using commands_focusAnywhere [of m s]
  by (auto simp: focusLabel_def split: prod.splits sum.splits simp del: commands_focusAnywhere)

lemma commands_mainMenuOpen [simp]: "commands (snd (mainMenuOpen m s)) = Suc (commands s)"
  using commands_focusAnywhere [of m s]
  by (auto simp: mainMenuOpen_def split: prod.splits sum.splits simp del: commands_focusAnywhere)

lemma snd_menu_attempt [simp]: "snd (menu_attempt m cond prev s) = snd (readMenu m s)"
  by (auto simp: menu_attempt_def split: prod.splits sum.splits)

lemma snd_main_attempt [simp]: "snd (main_attempt m want prev s) = snd (mainMenuOpen m s)"
  by (auto simp: main_attempt_def split: prod.splits sum.splits)

lemma wait_menu_loop_unfold:
  "wait_menu_loop m cond limit prev s =
     (case menu_attempt m cond prev s of
        (Inr b, s1) \<Rightarrow> (b, s1)
      | (Inl prev1, s1) \<Rightarrow>
          if limit < tv_clock s1 then ((prev1, False), s1)
          else wait_menu_loop m cond limit prev1 (tv_sleep m Second s1))"
  by (subst wait_menu_loop.simps)
    (auto simp: menu_attempt_def value_or_def Let_def split: prod.split sum.split)

lemma wait_main_loop_unfold:
  "wait_main_loop m want limit s =
     (case main_attempt m want prev s of
        (Inr b, s1) \<Rightarrow> (b, s1)
      | (Inl prev1, s1) \<Rightarrow>
          if limit < tv_clock s1 then ((prev1, False), s1)
          else wait_main_loop m want limit (tv_sleep m Second s1))"
  by (subst wait_main_loop.simps)
    (auto simp: main_attempt_def Let_def split: prod.split sum.split)

interpretation menu: poll_after m Second "menu_attempt m cond" "\<lambda>cur. (cur, False)"
    "wait_menu_loop m cond" for m cond
  by unfold_locales
    (simp_all add: readMenu_grows flip: wait_menu_loop_unfold)

interpretation main: poll_after m Second "main_attempt m want" "\<lambda>focus. (focus, False)"
    "\<lambda>limit prev. wait_main_loop m want limit" for m want
  by unfold_locales
    (simp_all add: mainMenuOpen_grows flip: wait_main_loop_unfold)

section \<open>Walking\<close>

text \<open>
  The loop of \<open>stepToLabel\<close> with the steps that are left: \<open>cur\<close> is the label that has
  focus, \<open>saw\<close> the labels the walk has left behind.
\<close>

fun step_loop :: "'w tv_machine \<Rightarrow> string \<Rightarrow> string \<Rightarrow> int \<Rightarrow> nat \<Rightarrow> string list \<Rightarrow> string \<Rightarrow> 'w tv_state
    \<Rightarrow> tv_error option \<times> 'w tv_state" where
  "step_loop m want key maxSteps 0 saw cur s = (Some (NotReached want maxSteps saw), s)"
| "step_loop m want key maxSteps (Suc n) saw cur s =
     (if cur = want then (None, s)
      else let saw = saw @ [cur] in
        case press m [key] s of
          (Some err, s) \<Rightarrow> (Some err, s)
        | (None, s) \<Rightarrow>
            (case focusLabel m (tv_sleep m (700 * 1000000) s) of
               (Inl err, s) \<Rightarrow> (Some err, s)
             | (Inr next_label, s) \<Rightarrow>
                 if next_label = cur then (Some (FocusStuck cur want saw), s)
                 else step_loop m want key maxSteps n saw next_label s))"

definition stepToLabel :: "'w tv_machine \<Rightarrow> string \<Rightarrow> string \<Rightarrow> int \<Rightarrow> 'w tv_state
    \<Rightarrow> tv_error option \<times> 'w tv_state" where
  "stepToLabel m want key maxSteps s =
     (case focusLabel m s of
        (Inl err, s) \<Rightarrow> (Some err, s)
      | (Inr cur, s) \<Rightarrow> step_loop m want key maxSteps (nat maxSteps) [] cur s)"

definition activateRow :: "'w tv_machine \<Rightarrow> string \<Rightarrow> 'w tv_state \<Rightarrow> tv_error option \<times> 'w tv_state" where
  "activateRow m want s =
     (case focusLabel m s of
        (Inl err, s) \<Rightarrow> (Some err, s)
      | (Inr got, s) \<Rightarrow>
          if got \<noteq> want then (Some (Refused got want), s) else press m [keyEnter] s)"

text \<open>The loop of \<open>closeMenus\<close> with the attempts that are left.\<close>

fun close_loop :: "'w tv_machine \<Rightarrow> nat \<Rightarrow> 'w tv_state \<Rightarrow> tv_error option \<times> 'w tv_state" where
  "close_loop m 0 s =
     (case readMenu m s of
        (ctx, s) \<Rightarrow>
          (case mainMenuOpen m s of
             (r, s) \<Rightarrow> (Some (StillOpen (value_or zero_menu ctx) (snd (value_or (False, []) r))), s)))"
| "close_loop m (Suc n) s =
     (case readMenu m s of
        (ctx, s) \<Rightarrow>
          (case mainMenuOpen m s of
             (r, s) \<Rightarrow>
               if (case (ctx, r) of
                     (Inr cur, Inr (main, focus)) \<Rightarrow> \<not> Open cur \<and> \<not> main
                   | _ \<Rightarrow> False) then (None, s)
               else (case press m [keyEsc] s of
                       (Some err, s) \<Rightarrow> (Some err, s)
                     | (None, s) \<Rightarrow> close_loop m n (tv_sleep m (1500 * 1000000) s))))"

definition closeMenus :: "'w tv_machine \<Rightarrow> 'w tv_state \<Rightarrow> tv_error option \<times> 'w tv_state" where
  "closeMenus m s = close_loop m 5 s"

section \<open>Opening the power menu\<close>

text \<open>
  The body of the loop of \<open>openPowerMenu\<close>: an error that ends the function, or the reason
  this attempt failed (\<open>continue\<close>), or the menu.
\<close>

definition power_attempt :: "'w tv_machine \<Rightarrow> 'w tv_state
    \<Rightarrow> (tv_error + attempt_failure + menu_state) \<times> 'w tv_state" where
  "power_attempt m s =
     (case ydo m shift_tab s of
        (Some err, s) \<Rightarrow> (Inl err, s)
      | (None, s) \<Rightarrow>
          (case waitMainMenu m True (6 * Second) s of
             ((_, False), s) \<Rightarrow>
               (case focusAnywhere m s of
                  (r, s) \<Rightarrow> (case value_or ([], []) r of
                     (label, tgt) \<Rightarrow> (Inr (Inl (MenuDidNotOpen label tgt)), s)))
           | ((_, True), s) \<Rightarrow>
               (case stepToLabel m ''Power'' keyDown 12 s of
                  (Some err, s) \<Rightarrow> (Inr (Inl (StepFailed err)), snd (closeMenus m s))
                | (None, s) \<Rightarrow>
                    (case activateRow m ''Power'' s of
                       (Some err, s) \<Rightarrow> (Inr (Inl (StepFailed err)), snd (closeMenus m s))
                     | (None, s) \<Rightarrow>
                         (case waitMenu m (\<lambda>cur. Open cur \<and> has cur ''Suspend System'') (8 * Second) s of
                            ((cur, True), s) \<Rightarrow> (Inr (Inr cur), s)
                          | ((cur, False), s) \<Rightarrow>
                              (Inr (Inl (NoSubmenu cur)), snd (closeMenus m s)))))))"

fun power_loop :: "'w tv_machine \<Rightarrow> nat \<Rightarrow> nat \<Rightarrow> (nat \<times> attempt_failure) list \<Rightarrow> 'w tv_state
    \<Rightarrow> (tv_error + menu_state) \<times> 'w tv_state" where
  "power_loop m attempt 0 errs s = (Inl (AttemptsFailed errs), s)"
| "power_loop m attempt (Suc n) errs s =
     (case power_attempt m s of
        (Inl err, s) \<Rightarrow> (Inl err, s)
      | (Inr (Inr cur), s) \<Rightarrow> (Inr cur, s)
      | (Inr (Inl why), s) \<Rightarrow> power_loop m (attempt + 1) n (errs @ [(attempt, why)]) s)"

definition openPowerMenu :: "'w tv_machine \<Rightarrow> 'w tv_state \<Rightarrow> (tv_error + menu_state) \<times> 'w tv_state" where
  "openPowerMenu m s =
     (case closeMenus m s of
        (Some err, s) \<Rightarrow> (Inl (NoBaseline err), s)
      | (None, s) \<Rightarrow> power_loop m 1 3 [] s)"

section \<open>The home screen\<close>

definition sharedJSTarget :: string where
  "sharedJSTarget = ''SharedJSContext''"

definition homeRoute :: string where
  "homeRoute = ''/routes/library/home''"

definition readRoute :: "'w tv_machine \<Rightarrow> 'w tv_state \<Rightarrow> (tv_error + string) \<times> 'w tv_state" where
  "readRoute m s =
     (case cdpEvalAll m routeJS s of
        (Inl err, s) \<Rightarrow> (Inl err, s)
      | (Inr res, s) \<Rightarrow>
          (case map_of res sharedJSTarget of
             Some v \<Rightarrow> if v \<noteq> [] then (Inr v, s) else (Inl NoRoute, s)
           | None \<Rightarrow> (Inl NoRoute, s)))"

lemma readRoute_grows [tv_grows]: "grows s (snd (readRoute m s))"
  using cdpEvalAll_grows [of s m routeJS]
  by (auto simp: readRoute_def split: prod.splits sum.splits option.splits)

text \<open>The last loop of \<open>requireHomeScreen\<close>, with what follows it.\<close>

function home_loop :: "'w tv_machine \<Rightarrow> int \<Rightarrow> 'w tv_state \<Rightarrow> tv_error option \<times> 'w tv_state" where
  "home_loop m deadline s =
     (if tv_clock s < deadline then
        (case readRoute m (tv_sleep m Second s) of
           (r, s1) \<Rightarrow>
             if r = Inr homeRoute then closeMenus m s1 else home_loop m deadline s1)
      else (case readRoute m s of (r, s1) \<Rightarrow> (Some (NotHome (value_or [] r) homeRoute), s1)))"
  by pat_completeness auto
termination
proof (relation "measure (\<lambda>(m, deadline, s). nat (deadline - tv_clock s))")
  fix m :: "'w tv_machine" and deadline :: int and s s1 :: "'w tv_state" and r
  assume before: "tv_clock s < deadline" and "(r, s1) = readRoute m (tv_sleep m Second s)"
  then have "grows (tv_sleep m Second s) s1"
    using readRoute_grows [of "tv_sleep m Second s" m] by (metis snd_conv)
  with before show "((m, deadline, s1), m, deadline, s)
      \<in> measure (\<lambda>(m, deadline, s). nat (deadline - tv_clock s))"
    using adds_clock tv_sleep_clock [of s Second m] by fastforce
qed simp

declare home_loop.simps [simp del]

definition requireHomeScreen :: "'w tv_machine \<Rightarrow> 'w tv_state \<Rightarrow> tv_error option \<times> 'w tv_state" where
  "requireHomeScreen m s =
     (case readRoute m s of
        (Inl err, s) \<Rightarrow> (Some err, s)
      | (Inr route, s) \<Rightarrow>
          if route = homeRoute then closeMenus m s
          else
            (case closeMenus m s of
               (Some err, s) \<Rightarrow> (Some err, s)
             | (None, s) \<Rightarrow>
                 (case ydo m shift_tab s of
                    (Some err, s) \<Rightarrow> (Some err, s)
                  | (None, s) \<Rightarrow>
                      (case waitMainMenu m True (6 * Second) s of
                         ((_, False), s) \<Rightarrow> (Some (NoMainMenu route), s)
                       | ((_, True), s) \<Rightarrow>
                           (case stepToLabel m ''Home'' keyUp 12 s of
                              (Some err, s) \<Rightarrow> (Some (NoWayHome err), s)
                            | (None, s) \<Rightarrow>
                                (case activateRow m ''Home'' s of
                                   (Some err, s) \<Rightarrow> (Some err, s)
                                 | (None, s) \<Rightarrow> home_loop m (tv_clock s + 10 * Second) s))))))"

end
