(* ===== verification/Tv_Keys.thy ===== *)
theory Tv_Keys
  imports Tv_Menu
begin

text \<open>
  The keys the TV driver presses. The first part says what a reading of \<open>tests/tv/menu.go\<close>
  tells about the event it leaves in the log; the second states the discipline every key
  keeps, and carries it from the single steps to \<open>openPowerMenu\<close> and \<open>requireHomeScreen\<close>.
\<close>

section \<open>What a reading saw\<close>

text \<open>
  The answers to the focus script say that \<open>label\<close> has focus in the target \<open>tgt\<close>; the empty
  label stands for no focus in any target.
\<close>

definition shows_focus :: "(string \<times> string) list \<Rightarrow> string \<Rightarrow> string \<Rightarrow> bool" where
  "shows_focus res label tgt \<longleftrightarrow>
     (if label = [] then tgt = [] \<and> (\<forall>(t, v) \<in> set res. v = []) else (tgt, label) \<in> set res)"

text \<open>An event of the log is a reading of the focus that answered with a label.\<close>

definition focus_was :: "string \<Rightarrow> tv_event \<Rightarrow> bool" where
  "focus_was label e =
     (case e of
        Did host (CdpSweep js) p \<Rightarrow>
          host = guevenne \<and> js = focusJS \<and> run_error p = None \<and>
          (if label = [] then list_all (\<lambda>(t, v). v = []) (swept p)
           else label \<in> snd ` set (swept p))
      | _ \<Rightarrow> False)"

lemma first_focus_shows:
  assumes "set pairs = set res"
  shows "shows_focus res (fst (first_focus pairs)) (snd (first_focus pairs))"
proof -
  have "first_focus pairs = ([], []) \<and> (\<forall>(t, v) \<in> set pairs. v = []) \<or>
      fst (first_focus pairs) \<noteq> [] \<and> (snd (first_focus pairs), fst (first_focus pairs)) \<in> set pairs"
    by (induction pairs) (auto split: if_splits)
  with assms show ?thesis by (auto simp: shows_focus_def)
qed

lemma focusAnywhere_reads:
  "\<exists>p. tv_log (snd (focusAnywhere m s)) = tv_log s @ [Did guevenne (CdpSweep focusJS) p] \<and>
       (\<forall>label tgt. fst (focusAnywhere m s) = Inr (label, tgt) \<longrightarrow>
          run_error p = None \<and> shows_focus (swept p) label tgt)"
proof -
  obtain p where log: "tv_log (snd (cdpEvalAll m focusJS s)) = tv_log s @ [Did guevenne (CdpSweep focusJS) p]"
    and res: "\<And>res. fst (cdpEvalAll m focusJS s) = Inr res \<Longrightarrow> run_error p = None \<and> res = swept p"
    using cdpEvalAll_result [of m focusJS s] by blast
  obtain r s1 where c: "cdpEvalAll m focusJS s = (r, s1)" by force
  show ?thesis
  proof (cases r)
    case (Inl err)
    then show ?thesis using log c by (auto simp: focusAnywhere_def)
  next
    case (Inr ans)
    with res c have "run_error p = None" "ans = swept p" by auto
    then show ?thesis
      using log c Inr first_focus_shows [of "fst (range_map m ans s1)" ans]
      by (intro exI [of _ p]) (auto simp: focusAnywhere_def split_beta)
  qed
qed

lemma shows_focus_was:
  "run_error p = None \<Longrightarrow> shows_focus (swept p) label tgt \<Longrightarrow>
   focus_was label (Did guevenne (CdpSweep focusJS) p)"
  by (force simp: focus_was_def shows_focus_def list_all_iff)

lemma focusLabel_reads:
  "\<exists>p. tv_log (snd (focusLabel m s)) = tv_log s @ [Did guevenne (CdpSweep focusJS) p] \<and>
       (\<forall>label. fst (focusLabel m s) = Inr label \<longrightarrow>
          focus_was label (Did guevenne (CdpSweep focusJS) p))"
proof -
  obtain p where log: "tv_log (snd (focusAnywhere m s)) = tv_log s @ [Did guevenne (CdpSweep focusJS) p]"
    and res: "\<And>label tgt. fst (focusAnywhere m s) = Inr (label, tgt) \<Longrightarrow>
      run_error p = None \<and> shows_focus (swept p) label tgt"
    using focusAnywhere_reads [of m s] by blast
  obtain r s1 where c: "focusAnywhere m s = (r, s1)" by force
  have eq: "focusLabel m s = (map_sum id fst r, s1)"
    by (cases r) (auto simp: focusLabel_def c)
  show ?thesis
  proof (intro exI [of _ p] conjI allI impI)
    show "tv_log (snd (focusLabel m s)) = tv_log s @ [Did guevenne (CdpSweep focusJS) p]"
      using log by (simp add: eq c)
  next
    fix label assume "fst (focusLabel m s) = Inr label"
    then obtain tgt where "r = Inr (label, tgt)" by (cases r) (auto simp: eq)
    then show "focus_was label (Did guevenne (CdpSweep focusJS) p)"
      using res [of label tgt] by (auto simp: c intro: shows_focus_was)
  qed
qed

lemma mainMenuOpen_reads:
  "\<exists>p. tv_log (snd (mainMenuOpen m s)) = tv_log s @ [Did guevenne (CdpSweep focusJS) p] \<and>
       (\<forall>main focus. fst (mainMenuOpen m s) = Inr (main, focus) \<longrightarrow> run_error p = None \<and>
          (\<exists>tgt. shows_focus (swept p) focus tgt \<and> main = (tgt = mainMenuTarget \<and> focus \<noteq> [])))"
proof -
  obtain p where log: "tv_log (snd (focusAnywhere m s)) = tv_log s @ [Did guevenne (CdpSweep focusJS) p]"
    and res: "\<And>label tgt. fst (focusAnywhere m s) = Inr (label, tgt) \<Longrightarrow>
      run_error p = None \<and> shows_focus (swept p) label tgt"
    using focusAnywhere_reads [of m s] by blast
  obtain r s1 where c: "focusAnywhere m s = (r, s1)" by force
  show ?thesis
    using log res c by (cases r) (auto simp: mainMenuOpen_def split_beta intro!: exI [of _ p])
qed

text \<open>A reading of the menu: an open menu is one that some target reported.\<close>

lemma first_open_None:
  "first_open pairs = None \<longleftrightarrow> (\<forall>(t, v) \<in> set pairs. \<forall>cur. decode_menu v = Some cur \<longrightarrow> \<not> Open cur)"
  by (induction pairs) (auto split: option.splits if_splits)

lemma first_open_Some:
  "first_open pairs = Some cur \<Longrightarrow> Open cur \<and> (\<exists>(t, v) \<in> set pairs. decode_menu v = Some cur)"
  by (induction pairs) (auto split: option.splits if_splits)

definition menu_was :: "menu_state \<Rightarrow> tv_event \<Rightarrow> bool" where
  "menu_was cur e \<longleftrightarrow>
     (\<exists>p. e = Did guevenne (CdpSweep menuStateJS) p \<and> run_error p = None \<and> swept p \<noteq> [] \<and>
        (if Open cur then \<exists>(t, v) \<in> set (swept p). decode_menu v = Some cur
         else cur = zero_menu \<and> (\<forall>(t, v) \<in> set (swept p). \<forall>c. decode_menu v = Some c \<longrightarrow> \<not> Open c)))"

lemma readMenu_reads:
  "\<exists>p. tv_log (snd (readMenu m s)) = tv_log s @ [Did guevenne (CdpSweep menuStateJS) p] \<and>
       (\<forall>cur. fst (readMenu m s) = Inr cur \<longrightarrow> menu_was cur (Did guevenne (CdpSweep menuStateJS) p))"
proof -
  obtain p where log: "tv_log (snd (cdpEvalAll m menuStateJS s)) =
      tv_log s @ [Did guevenne (CdpSweep menuStateJS) p]"
    and res: "\<And>res. fst (cdpEvalAll m menuStateJS s) = Inr res \<Longrightarrow> run_error p = None \<and> res = swept p"
    using cdpEvalAll_result [of m menuStateJS s] by blast
  obtain r s1 where c: "cdpEvalAll m menuStateJS s = (r, s1)" by force
  show ?thesis
  proof (cases r)
    case (Inl err)
    then show ?thesis using log c by (auto simp: readMenu_def)
  next
    case (Inr ans)
    with res c have p: "run_error p = None" "ans = swept p" by auto
    define pairs where "pairs = fst (range_map m ans s1)"
    have "set pairs = set (swept p)" by (simp add: pairs_def p)
    moreover have "readMenu m s =
        (if ans = [] then (Inl NoTargetAnswered, s1)
         else (Inr (case first_open pairs of Some cur \<Rightarrow> cur | None \<Rightarrow> zero_menu), snd (range_map m ans s1)))"
      by (auto simp: readMenu_def c Inr pairs_def split_beta split: option.split)
    ultimately show ?thesis
      using log c p first_open_None [of pairs] first_open_Some [of pairs]
      by (intro exI [of _ p]) (auto simp: menu_was_def zero_menu_def split: option.splits)
  qed
qed

section \<open>Which keys are pressed, and when\<close>

text \<open>
  The key discipline of a walk to \<open>want\<close> with the key \<open>nav\<close>: Escape and the chord that opens
  the main menu at any time; \<open>nav\<close> only when the command before it in the log read the
  focus, and it was not on \<open>want\<close>; Enter only when the command before it read the focus, and
  it was on \<open>want\<close>. Any other key breaks it.
\<close>

definition saw :: "tv_event option \<Rightarrow> string \<Rightarrow> bool" where
  "saw prev label = (case prev of None \<Rightarrow> False | Some e \<Rightarrow> focus_was label e)"

definition key_ok :: "string \<Rightarrow> string \<Rightarrow> tv_event option \<Rightarrow> tv_event \<Rightarrow> bool" where
  "key_ok want nav prev e =
     (case e of
        Did host (Ydo script) p \<Rightarrow>
          script = key_script [keyEsc] \<or> script = shift_tab
          \<or> script = key_script [nav] \<and> (\<exists>l. l \<noteq> want \<and> saw prev l)
          \<or> script = key_script [keyEnter] \<and> saw prev want
      | _ \<Rightarrow> True)"

fun checked :: "string \<Rightarrow> string \<Rightarrow> tv_event option \<Rightarrow> tv_event list \<Rightarrow> bool" where
  "checked want nav prev [] = True"
| "checked want nav prev (e # es) \<longleftrightarrow> key_ok want nav prev e \<and> checked want nav (Some e) es"

definition is_enter :: "tv_event \<Rightarrow> bool" where
  "is_enter e = (case e of Did host (Ydo script) p \<Rightarrow> script = key_script [keyEnter] | _ \<Rightarrow> False)"

definition enters :: "tv_event list \<Rightarrow> nat" where
  "enters es = length (filter is_enter es)"

definition careful :: "string \<Rightarrow> string \<Rightarrow> nat \<Rightarrow> tv_event list \<Rightarrow> bool" where
  "careful want nav k es \<longleftrightarrow> checked want nav None es \<and> enters es \<le> k"

lemma key_ok_weaken: "key_ok want nav None e \<Longrightarrow> key_ok want nav prev e"
  by (auto simp: key_ok_def saw_def split: tv_event.splits tv_cmd.splits)

lemma checked_weaken: "checked want nav None es \<Longrightarrow> checked want nav prev es"
  by (cases es) (auto intro: key_ok_weaken)

lemma checked_append:
  "checked want nav prev (xs @ ys) \<longleftrightarrow>
   checked want nav prev xs \<and> checked want nav (if xs = [] then prev else Some (last xs)) ys"
  by (induction xs arbitrary: prev) auto

lemma enters_append [simp]: "enters (xs @ ys) = enters xs + enters ys"
  by (simp add: enters_def)

lemma enters_Nil [simp]: "enters [] = 0"
  by (simp add: enters_def)

lemma careful_append: "careful want nav a xs \<Longrightarrow> careful want nav b ys \<Longrightarrow> careful want nav (a + b) (xs @ ys)"
  by (auto simp: careful_def checked_append intro: checked_weaken)

interpretation idle: log_class "careful want nav 0" for want nav
  by unfold_locales (auto simp: careful_def checked_append intro: checked_weaken)

lemma careful_trans:
  "adds (careful want nav a) s t \<Longrightarrow> adds (careful want nav b) t u \<Longrightarrow> a + b \<le> k \<Longrightarrow>
   adds (careful want nav k) s u"
  unfolding adds_def using careful_append [of want nav a _ b]
  by (fastforce simp: careful_def intro: order_trans)

lemma careful_mono: "adds (careful want nav a) s t \<Longrightarrow> a \<le> b \<Longrightarrow> adds (careful want nav b) s t"
  by (erule adds_mono) (simp add: careful_def)

text \<open>The pieces of the operations.\<close>

lemma no_key:
  assumes "\<exists>p. tv_log s' = tv_log s @ [Did host cmd p]" and "grows s s'" and "\<And>script. cmd \<noteq> Ydo script"
  shows "adds (careful want nav 0) s s'"
  using assms by (auto simp: adds_def careful_def key_ok_def enters_def is_enter_def split: tv_cmd.splits)

lemma sleep_careful: "adds (careful want nav 0) s (tv_sleep m d s)"
  using tv_sleep_clock [of s d m]
  by (auto simp: adds_def careful_def key_ok_def enters_def is_enter_def tv_sleep_def split_beta)

lemma focusLabel_careful: "adds (careful want nav 0) s (snd (focusLabel m s))"
  using focusLabel_reads [of m s] by (intro no_key focusLabel_grows) auto

lemma focusAnywhere_careful: "adds (careful want nav 0) s (snd (focusAnywhere m s))"
  using focusAnywhere_reads [of m s] by (intro no_key focusAnywhere_grows) auto

lemma mainMenuOpen_careful: "adds (careful want nav 0) s (snd (mainMenuOpen m s))"
  using mainMenuOpen_reads [of m s] by (intro no_key mainMenuOpen_grows) auto

lemma readMenu_careful: "adds (careful want nav 0) s (snd (readMenu m s))"
  using readMenu_reads [of m s] by (intro no_key readMenu_grows) auto

lemma waitMenu_careful: "adds (careful want nav 0) s (snd (waitMenu m cond timeout s))"
  unfolding waitMenu_def
  by (rule menu.loop_adds)
    (auto intro: idle.log_class_axioms readMenu_careful sleep_careful)

lemma waitMainMenu_careful: "adds (careful want nav 0) s (snd (waitMainMenu m b timeout s))"
  unfolding waitMainMenu_def
  by (rule main.loop_adds)
    (auto intro: idle.log_class_axioms mainMenuOpen_careful sleep_careful)

lemma ydo_log: "\<exists>p. tv_log (snd (ydo m script s)) = tv_log s @ [Did guevenne (Ydo script) p]"
  unfolding ydo_def by (rule command_log)

lemma key_scripts_differ:
  "key_script [keyEsc] \<noteq> key_script [keyEnter]" "key_script [keyDown] \<noteq> key_script [keyEnter]"
  "key_script [keyUp] \<noteq> key_script [keyEnter]" "shift_tab \<noteq> key_script [keyEnter]"
  by code_simp+

lemma ydo_careful:
  assumes "script = key_script [keyEsc] \<or> script = shift_tab"
  shows "adds (careful want nav 0) s (snd (ydo m script s))"
proof -
  obtain p where "tv_log (snd (ydo m script s)) = tv_log s @ [Did guevenne (Ydo script) p]"
    using ydo_log by blast
  moreover have "grows s (snd (ydo m script s))" unfolding ydo_def by (rule command_grows)
  ultimately show ?thesis
    using assms key_scripts_differ
    by (auto simp: adds_def careful_def key_ok_def enters_def is_enter_def)
qed

text \<open>
  One step of the walk: a key, a pause, and a reading of the focus. The lemma names the
  three events and what the reading says of the label the walk goes on with.
\<close>

lemma one_step:
  assumes "press m [key] s = (None, s1)" and "focusLabel m (tv_sleep m d s1) = (r, s2)"
  shows "\<exists>p q. tv_log s2 = tv_log s @ [Did guevenne (Ydo (key_script [key])) p, Napped d,
      Did guevenne (CdpSweep focusJS) q] \<and> tv_clock s \<le> tv_clock s2 \<and>
    (\<forall>label. r = Inr label \<longrightarrow> focus_was label (Did guevenne (CdpSweep focusJS) q))"
proof -
  let ?s' = "tv_sleep m d s1"
  obtain p where p: "tv_log s1 = tv_log s @ [Did guevenne (Ydo (key_script [key])) p]"
    using ydo_log [of m "key_script [key]" s] assms(1) by (auto simp: press_def)
  have c: "tv_clock s \<le> tv_clock s1"
    using adds_clock [OF command_grows, of s m guevenne "Ydo (key_script [key])"] assms(1)
    by (simp add: press_def ydo_def)
  obtain q where q: "tv_log s2 = tv_log ?s' @ [Did guevenne (CdpSweep focusJS) q]"
    and r: "\<And>label. r = Inr label \<Longrightarrow> focus_was label (Did guevenne (CdpSweep focusJS) q)"
    using focusLabel_reads [of m ?s'] assms(2) by auto
  have "tv_clock ?s' \<le> tv_clock s2"
    using adds_clock [OF focusLabel_grows, of ?s' m] assms(2) by simp
  moreover have "tv_log ?s' = tv_log s1 @ [Napped d]" by (simp add: tv_sleep_def split_beta)
  ultimately show ?thesis
    using p q r c tv_sleep_clock [of s1 d m] by (intro exI [of _ p] exI [of _ q]) auto
qed

text \<open>
  The events of a walk past the labels of a list, the first of which has focus already: for
  each further label the key, the pause, and a reading that answered with it.
\<close>

definition is_key :: "string \<Rightarrow> tv_event \<Rightarrow> bool" where
  "is_key key e \<longleftrightarrow> (\<exists>p. e = Did guevenne (Ydo (key_script [key])) p)"

fun walked :: "string \<Rightarrow> string list \<Rightarrow> tv_event list \<Rightarrow> bool" where
  "walked key [l] es \<longleftrightarrow> es = []"
| "walked key (l # l' # ls) (k # d # e # es) \<longleftrightarrow>
     is_key key k \<and> d = Napped (700 * 1000000) \<and> focus_was l' e \<and> walked key (l' # ls) es"
| "walked key _ _ \<longleftrightarrow> False"

text \<open>
  How a walk of at most \<open>n\<close> steps that read the labels \<open>ls\<close> ends, after \<open>sw\<close> was seen
  before: \<open>tail\<close> is the step that a failed command cut short.
\<close>

definition walk_ended :: "string \<Rightarrow> string \<Rightarrow> int \<Rightarrow> nat \<Rightarrow> string list \<Rightarrow> string list
    \<Rightarrow> tv_error option \<Rightarrow> tv_event list \<Rightarrow> bool" where
  "walk_ended want key maxSteps n sw ls r tail \<longleftrightarrow>
     (case r of
        None \<Rightarrow> tail = [] \<and> last ls = want \<and> want \<notin> set (butlast ls) \<and> length ls \<le> n \<and> distinct_adj ls
      | Some (FocusStuck c w seen) \<Rightarrow>
          tail = [] \<and> w = want \<and> seen = sw @ butlast ls \<and> want \<notin> set ls \<and> length ls \<le> Suc n \<and>
          distinct_adj (butlast ls) \<and> butlast ls \<noteq> [] \<and> last (butlast ls) = c \<and> last ls = c
      | Some (NotReached w k seen) \<Rightarrow>
          tail = [] \<and> w = want \<and> k = maxSteps \<and> seen = sw @ butlast ls \<and>
          want \<notin> set (butlast ls) \<and> length ls = Suc n \<and> distinct_adj ls
      | Some err \<Rightarrow>
          want \<notin> set ls \<and> length ls \<le> n \<and> distinct_adj ls \<and>
          (\<exists>k rest. tail = k # rest \<and> is_key key k \<and> list_all (\<lambda>e. \<not> is_key key e) rest \<and>
             list_all (\<lambda>e. key_ok want key None e \<and> \<not> is_enter e) rest))"

lemma walk_ended_Cons:
  assumes "walk_ended want key maxSteps n (sw @ [cur]) ls r tail" and "cur \<noteq> want"
    and "ls \<noteq> []" and "hd ls \<noteq> cur"
  shows "walk_ended want key maxSteps (Suc n) sw (cur # ls) r tail"
proof -
  obtain l rest where ls: "ls = l # rest" using assms(3) by (cases ls) auto
  show ?thesis
    using assms unfolding walk_ended_def ls
    by (cases r; cases rest) (auto split: tv_error.splits)
qed

lemma command_error:
  "fst (press m keys s) = Some err \<Longrightarrow> \<exists>h c e x. err = CommandFailed h c e x"
  by (auto simp: press_def ydo_def command_def tv_run_def Let_def split_beta split: option.splits)

lemma focusLabel_error:
  "fst (focusLabel m s) = Inl err \<Longrightarrow> \<exists>h c e x. err = CommandFailed h c e x"
  by (auto simp: focusLabel_def focusAnywhere_def cdpEvalAll_def tv_run_def Let_def split_beta
      split: option.splits sum.splits)

lemma step_loop_walk:
  "\<exists>ls core tail. tv_log (snd (step_loop m want key maxSteps n sw cur s)) = tv_log s @ core @ tail \<and>
     tv_clock s \<le> tv_clock (snd (step_loop m want key maxSteps n sw cur s)) \<and>
     walked key (cur # ls) core \<and>
     walk_ended want key maxSteps n sw (cur # ls) (fst (step_loop m want key maxSteps n sw cur s)) tail"
  (is "\<exists>ls core tail. ?P n sw cur s ls core tail")
proof (induction n arbitrary: sw cur s)
  case 0
  show ?case
    by (rule exI [of _ "[]"], rule exI [of _ "[]"], rule exI [of _ "[]"]) (simp add: walk_ended_def)
next
  case (Suc n)
  let ?d = "700 * 1000000"
  obtain r1 s1 where P: "press m [key] s = (r1, s1)" by force
  obtain r2 s2 where F: "focusLabel m (tv_sleep m ?d s1) = (r2, s2)" by force
  show ?case
  proof (cases "cur = want")
    case True
    then have "?P (Suc n) sw cur s [] [] []" by (simp add: walk_ended_def)
    then show ?thesis by blast
  next
    case False
    show ?thesis
    proof (cases r1)
      case (Some err)
      then have "\<exists>h c e x. err = CommandFailed h c e x" using command_error [of m "[key]" s] P by simp
      moreover obtain p where "tv_log s1 = tv_log s @ [Did guevenne (Ydo (key_script [key])) p]"
        using ydo_log [of m "key_script [key]" s] P by (auto simp: press_def)
      moreover have "tv_clock s \<le> tv_clock s1"
        using adds_clock [OF command_grows, of s m guevenne "Ydo (key_script [key])"] P
        by (simp add: press_def ydo_def)
      ultimately have "?P (Suc n) sw cur s [] [] [Did guevenne (Ydo (key_script [key])) p]"
        using False P Some by (auto simp: walk_ended_def is_key_def Let_def)
      then show ?thesis by blast
    next
      case None
      obtain p q where log: "tv_log s2 = tv_log s @ [Did guevenne (Ydo (key_script [key])) p, Napped ?d,
          Did guevenne (CdpSweep focusJS) q]" and c2: "tv_clock s \<le> tv_clock s2"
        and r2: "\<And>l. r2 = Inr l \<Longrightarrow> focus_was l (Did guevenne (CdpSweep focusJS) q)"
        using one_step [of m key s s1 ?d r2 s2] P F None by blast
      let ?three = "[Did guevenne (Ydo (key_script [key])) p, Napped ?d, Did guevenne (CdpSweep focusJS) q]"
      show ?thesis
      proof (cases r2)
        case (Inl err)
        then have "\<exists>h c e x. err = CommandFailed h c e x"
          using focusLabel_error [of m "tv_sleep m ?d s1"] F by simp
        then have "?P (Suc n) sw cur s [] [] ?three"
          using False P F None Inl log c2
          by (auto simp: walk_ended_def is_key_def is_enter_def key_ok_def Let_def)
        then show ?thesis by blast
      next
        case (Inr l)
        show ?thesis
        proof (cases "l = cur")
          case True
          then have "?P (Suc n) sw cur s [l] ?three []"
            using False P F None Inr log c2 r2 [OF Inr]
            by (auto simp: walk_ended_def is_key_def Let_def)
          then show ?thesis by blast
        next
          case moved: False
          have step: "step_loop m want key maxSteps (Suc n) sw cur s =
              step_loop m want key maxSteps n (sw @ [cur]) l s2"
            using False moved P F None Inr by (simp add: Let_def)
          from Suc.IH [of "sw @ [cur]" l s2] obtain ls core tail
            where ih: "?P n (sw @ [cur]) l s2 ls core tail" by blast
          have "?P (Suc n) sw cur s (l # ls) (?three @ core) tail"
            unfolding step
            using ih log c2 r2 [OF Inr] moved False
            by (auto simp: is_key_def intro: walk_ended_Cons)
          then show ?thesis by blast
        qed
      qed
    qed
  qed
qed

text \<open>Such a walk keeps the discipline and presses no Enter.\<close>

lemma walked_checked:
  assumes "walked nav ls es" and "focus_was (hd ls) e" and "want \<notin> set (butlast ls)"
    and "key_script [nav] \<noteq> key_script [keyEnter]"
  shows "checked want nav (Some e) es \<and> enters es = 0 \<and> focus_was (last ls) (last (e # es))"
  using assms
proof (induction nav ls es arbitrary: e rule: walked.induct)
  case (2 key l l' ls k d e' es)
  from "2.prems"(1) have key: "is_key key k" and d: "d = Napped (700 * 1000000)"
    and l': "focus_was l' e'" and rest: "walked key (l' # ls) es" by auto
  have "l \<noteq> want" using "2.prems"(3) by auto
  then have k: "key_ok want key (Some e) k" "\<not> is_enter k"
    using key "2.prems"(2,4) by (auto simp: is_key_def key_ok_def saw_def is_enter_def)
  have e': "key_ok want key x e'" "\<not> is_enter e'" for x
    using l' by (auto simp: focus_was_def key_ok_def is_enter_def split: tv_event.splits tv_cmd.splits)
  have "want \<notin> set (butlast (l' # ls))" using "2.prems"(3) by auto
  from "2.IH" [OF rest _ this "2.prems"(4), of e'] l' k e' d show ?case
    by (auto simp: key_ok_def enters_def is_enter_def)
qed auto

lemma step_loop_checked:
  assumes "focus_was cur e" and "key_script [nav] \<noteq> key_script [keyEnter]"
  shows "adds (\<lambda>ys. checked want nav (Some e) ys \<and> enters ys = 0) s
    (snd (step_loop m want nav maxSteps n sw cur s))"
proof -
  obtain ls core tail where
    log: "tv_log (snd (step_loop m want nav maxSteps n sw cur s)) = tv_log s @ core @ tail"
    and c: "tv_clock s \<le> tv_clock (snd (step_loop m want nav maxSteps n sw cur s))"
    and w: "walked nav (cur # ls) core"
    and fin: "walk_ended want nav maxSteps n sw (cur # ls)
      (fst (step_loop m want nav maxSteps n sw cur s)) tail"
    using step_loop_walk [of m want nav maxSteps n sw cur s] by blast
  have nope: "want \<notin> set (butlast (cur # ls))"
    using fin in_set_butlastD [of want "cur # ls"]
    by (fastforce simp: walk_ended_def split: option.splits tv_error.splits)
  from walked_checked [OF w _ nope assms(2), of e] assms(1)
  have core: "checked want nav (Some e) core" "enters core = 0" "focus_was (last (cur # ls)) (last (e # core))"
    by auto
  have "checked want nav (Some (last (e # core))) tail \<and> enters tail = 0"
  proof (cases tail)
    case (Cons k rest)
    then have "is_key nav k" and "want \<notin> set (cur # ls)"
      and rest: "list_all (\<lambda>e. key_ok want nav None e \<and> \<not> is_enter e) rest"
      using fin by (auto simp: walk_ended_def split: option.splits tv_error.splits)
    moreover have "last (cur # ls) \<noteq> want" using \<open>want \<notin> set (cur # ls)\<close> by (metis last_in_set list.distinct(1))
    moreover have "checked want nav x rest \<and> enters rest = 0" for x
      using rest
    proof (induction rest arbitrary: x)
      case (Cons a rest)
      then show ?case by (auto simp: enters_def intro: key_ok_weaken)
    qed simp
    ultimately show ?thesis
      using Cons core(3) assms(2) by (auto simp: is_key_def key_ok_def saw_def enters_def is_enter_def)
  qed simp
  then show ?thesis
    using log c core by (intro addsI [where ys = "core @ tail"]) (auto simp: checked_append split: if_splits)
qed

lemma stepToLabel_careful:
  assumes "key_script [nav] \<noteq> key_script [keyEnter]"
  shows "adds (careful want nav 0) s (snd (stepToLabel m want nav maxSteps s))"
proof -
  obtain r s1 where F: "focusLabel m s = (r, s1)" by force
  obtain q where q: "tv_log s1 = tv_log s @ [Did guevenne (CdpSweep focusJS) q]"
    and r: "\<And>l. r = Inr l \<Longrightarrow> focus_was l (Did guevenne (CdpSweep focusJS) q)"
    using focusLabel_reads [of m s] F by auto
  have c: "tv_clock s \<le> tv_clock s1" using adds_clock [OF focusLabel_grows, of s m] F by simp
  show ?thesis
  proof (cases r)
    case (Inl err)
    then show ?thesis
      using F q c by (auto simp: stepToLabel_def adds_def careful_def key_ok_def enters_def is_enter_def)
  next
    case (Inr cur)
    from step_loop_checked [OF r [OF Inr] assms, of want s1 m maxSteps "nat maxSteps" "[]"] F q c Inr
    show ?thesis
      by (auto simp: stepToLabel_def adds_def careful_def key_ok_def enters_def is_enter_def)
  qed
qed

lemma activateRow_careful:
  "adds (careful want nav 1) s (snd (activateRow m want s))"
proof -
  obtain r s1 where F: "focusLabel m s = (r, s1)" by force
  obtain q where q: "tv_log s1 = tv_log s @ [Did guevenne (CdpSweep focusJS) q]"
    and r: "\<And>l. r = Inr l \<Longrightarrow> focus_was l (Did guevenne (CdpSweep focusJS) q)"
    using focusLabel_reads [of m s] F by auto
  have c: "tv_clock s \<le> tv_clock s1" using adds_clock [OF focusLabel_grows, of s m] F by simp
  show ?thesis
  proof (cases "r = Inr want")
    case True
    obtain p where "tv_log (snd (press m [keyEnter] s1)) =
        tv_log s1 @ [Did guevenne (Ydo (key_script [keyEnter])) p]"
      using ydo_log [of m "key_script [keyEnter]" s1] by (auto simp: press_def)
    moreover have "tv_clock s1 \<le> tv_clock (snd (press m [keyEnter] s1))"
      unfolding press_def ydo_def by (rule adds_clock [OF command_grows])
    ultimately show ?thesis
      using F q c r [OF True] True
      by (auto simp: activateRow_def adds_def careful_def key_ok_def saw_def enters_def is_enter_def)
  next
    case False
    then show ?thesis
      using F q c by (cases r)
        (auto simp: activateRow_def adds_def careful_def key_ok_def enters_def is_enter_def)
  qed
qed

lemma press_esc_careful: "adds (careful want nav 0) s (snd (press m [keyEsc] s))"
  unfolding press_def by (rule ydo_careful) simp

lemma close_loop_careful: "adds (careful want nav 0) s (snd (close_loop m n s))"
proof (induction n arbitrary: s)
  case 0
  show ?case
    using idle.adds_trans [OF readMenu_careful mainMenuOpen_careful]
    by (auto simp: split_beta)
next
  case (Suc n)
  obtain ctx s1 where R: "readMenu m s = (ctx, s1)" by force
  obtain r s2 where M: "mainMenuOpen m s1 = (r, s2)" by force
  obtain e s3 where P: "press m [keyEsc] s2 = (e, s3)" by force
  have two: "adds (careful want nav 0) s s2"
    using idle.adds_trans [OF readMenu_careful mainMenuOpen_careful, of want nav s m m] R M by simp
  moreover have three: "adds (careful want nav 0) s s3"
    using idle.adds_trans [OF two press_esc_careful, of m] P by simp
  moreover have "adds (careful want nav 0) s (snd (close_loop m n (tv_sleep m (1500 * 1000000) s3)))"
    by (rule idle.adds_trans [OF idle.adds_trans [OF three sleep_careful] Suc.IH])
  ultimately show ?case using R M P by (auto split: option.split)
qed

lemma closeMenus_careful: "adds (careful want nav 0) s (snd (closeMenus m s))"
  unfolding closeMenus_def by (rule close_loop_careful)

text \<open>Carrying a piece of at most \<open>a\<close> Enters over one more operation.\<close>

lemma then_idle:
  "adds (careful want nav a) s t \<Longrightarrow> (\<And>t. adds (careful want nav 0) t (snd (f t))) \<Longrightarrow> f t = (x, u) \<Longrightarrow>
   adds (careful want nav a) s u"
  using careful_trans [of want nav a s t 0 u a] by (metis add_0_right le_refl snd_conv)

lemma power_attempt_careful: "adds (careful ''Power'' keyDown 1) s (snd (power_attempt m s))"
proof -
  let ?C = "\<lambda>k. adds (careful ''Power'' keyDown k) s"
  obtain r0 s0 where Y: "ydo m shift_tab s = (r0, s0)" by force
  obtain f ok s1 where W: "waitMainMenu m True (6 * Second) s0 = ((f, ok), s1)" by (metis prod.exhaust)
  obtain r2 s2 where F: "focusAnywhere m s1 = (r2, s2)" by force
  obtain r3 s3 where S: "stepToLabel m ''Power'' keyDown 12 s1 = (r3, s3)" by force
  obtain r4 s4 where A: "activateRow m ''Power'' s3 = (r4, s4)" by force
  obtain cur up s5 where M: "waitMenu m (\<lambda>cur. Open cur \<and> has cur ''Suspend System'') (8 * Second) s4
      = ((cur, up), s5)" using surj_pair [of "waitMenu m _ _ _"] by fastforce
  have c0: "?C 0 s0" using ydo_careful [of shift_tab _ _ s m] Y by (metis snd_conv)
  have c1: "?C 0 s1" by (rule then_idle [OF c0 waitMainMenu_careful W])
  have c2: "?C 0 s2" by (rule then_idle [OF c1 focusAnywhere_careful F])
  have c3: "?C 0 s3" by (rule then_idle [OF c1 stepToLabel_careful S]) (rule key_scripts_differ)
  have c4: "?C 1 s4" using careful_trans [OF c3 activateRow_careful, of 1 m] A by simp
  have c5: "?C 1 s5" by (rule then_idle [OF c4 waitMenu_careful M])
  have close: "?C 1 (snd (closeMenus m t))" if "?C 1 t" for t
    by (rule then_idle [OF that closeMenus_careful prod.collapse [symmetric]])
  show ?thesis
    using c0 [THEN careful_mono] c2 [THEN careful_mono] close [OF c3 [THEN careful_mono]]
      close [OF c4] c5 close [OF c5]
    by (auto simp: power_attempt_def Y W [simplified] F S A M [simplified]
        split: bool.split option.split prod.split)
qed

lemma power_loop_careful:
  "adds (careful ''Power'' keyDown n) s (snd (power_loop m attempt n errs s))"
proof (induction n arbitrary: attempt errs s)
  case 0
  show ?case by (simp add: idle.adds_refl)
next
  case (Suc n)
  obtain r s1 where A: "power_attempt m s = (r, s1)" by force
  have c1: "adds (careful ''Power'' keyDown 1) s s1" using power_attempt_careful [of s m] A by simp
  then have "adds (careful ''Power'' keyDown (Suc n)) s (snd (power_loop m a n es s1))" for a es
    by (rule careful_trans [OF _ Suc.IH]) simp
  moreover have "adds (careful ''Power'' keyDown (Suc n)) s s1" by (rule careful_mono [OF c1]) simp
  ultimately show ?case using A by (auto split: sum.split)
qed

lemma openPowerMenu_careful: "adds (careful ''Power'' keyDown 3) s (snd (openPowerMenu m s))"
proof -
  obtain r s1 where C: "closeMenus m s = (r, s1)" by force
  have c1: "adds (careful ''Power'' keyDown 0) s s1" using closeMenus_careful [of _ _ s m] C by (metis snd_conv)
  have "adds (careful ''Power'' keyDown 3) s (snd (power_loop m 1 3 [] s1))"
    by (rule careful_trans [OF c1 power_loop_careful]) simp
  then show ?thesis using c1 [THEN careful_mono] C by (cases r) (auto simp: openPowerMenu_def)
qed

lemma readRoute_careful: "adds (careful want nav 0) s (snd (readRoute m s))"
proof -
  obtain r s1 where c: "cdpEvalAll m routeJS s = (r, s1)" by force
  then have "snd (readRoute m s) = s1"
    by (auto simp: readRoute_def split: sum.split option.split)
  then show ?thesis
    using cdpEvalAll_result [of m routeJS s] cdpEvalAll_grows [of s m routeJS] c
    by (intro no_key) auto
qed

lemma home_loop_careful: "adds (careful want nav 0) s (snd (home_loop m deadline s))"
proof (induction m deadline s rule: home_loop.induct)
  case (1 m deadline s)
  obtain r s1 where R: "readRoute m (tv_sleep m Second s) = (r, s1)" by force
  obtain r' s' where R': "readRoute m s = (r', s')" by force
  have c1: "adds (careful want nav 0) s s1" by (rule then_idle [OF sleep_careful readRoute_careful R])
  have c': "adds (careful want nav 0) s s'" by (rule then_idle [OF idle.adds_refl readRoute_careful R'])
  have close: "adds (careful want nav 0) s (snd (closeMenus m s1))"
    by (rule idle.adds_trans [OF c1 closeMenus_careful])
  have "adds (careful want nav 0) s (snd (home_loop m deadline s1))"
    if "tv_clock s < deadline" "r \<noteq> Inr homeRoute"
    using idle.adds_trans [OF c1] "1.IH" [OF that(1)] R that(2) by metis
  with close c' show ?case
    by (auto simp: home_loop.simps [of m deadline s] R R')
qed

lemma requireHomeScreen_careful: "adds (careful ''Home'' keyUp 1) s (snd (requireHomeScreen m s))"
proof -
  let ?C = "\<lambda>k. adds (careful ''Home'' keyUp k) s"
  obtain r s0 where R: "readRoute m s = (r, s0)" by force
  obtain rc s1 where C: "closeMenus m s0 = (rc, s1)" by force
  obtain ry s2 where Y: "ydo m shift_tab s1 = (ry, s2)" by force
  obtain f ok s3 where W: "waitMainMenu m True (6 * Second) s2 = ((f, ok), s3)" by (metis prod.exhaust)
  obtain rs s4 where S: "stepToLabel m ''Home'' keyUp 12 s3 = (rs, s4)" by force
  obtain ra s5 where A: "activateRow m ''Home'' s4 = (ra, s5)" by force
  have c0: "?C 0 s0" by (rule then_idle [OF idle.adds_refl readRoute_careful R])
  have c1: "?C 0 s1" by (rule then_idle [OF c0 closeMenus_careful C])
  have c2: "?C 0 s2" by (rule then_idle [OF c1 ydo_careful Y]) simp
  have c3: "?C 0 s3" by (rule then_idle [OF c2 waitMainMenu_careful W])
  have c4: "?C 0 s4" by (rule then_idle [OF c3 stepToLabel_careful S]) (rule key_scripts_differ)
  have c5: "?C 1 s5" using careful_trans [OF c4 activateRow_careful, of 1 m] A by simp
  have c6: "?C 1 (snd (home_loop m (tv_clock s5 + 10 * Second) s5))"
    by (rule then_idle [OF c5 home_loop_careful prod.collapse [symmetric]])
  note up = c0 [THEN careful_mono] c1 [THEN careful_mono] c2 [THEN careful_mono]
    c3 [THEN careful_mono] c4 [THEN careful_mono]
  show ?thesis
    using up c5 c6 by (auto simp: requireHomeScreen_def R C Y W [simplified] S A split: sum.split option.split bool.split)
qed

end
