(* ===== verification/Tv_Shell.thy ===== *)
theory Tv_Shell
  imports Tv
begin

text \<open>
  How the scripts of the TV driver get through the shells on the way: \<open>shellQuote\<close> and
  \<open>base64\<close> of \<open>tests/tv/helpers.go\<close> against a reader for shell words and a base64 decoder.
\<close>

section \<open>Scripts survive the shells\<close>

text \<open>
  The word a POSIX shell reads: between single quotes every byte stands for itself, outside
  of them a backslash takes the next byte as it is. No other byte can occur outside the
  quotes of a word that \<open>shellQuote\<close> made, so the reader refuses them.
\<close>

fun sh_word :: "bool \<Rightarrow> string \<Rightarrow> string option" where
  "sh_word inside [] = (if inside then None else Some [])"
| "sh_word True (c # cs) =
     (if c = quote_char then sh_word False cs else map_option ((#) c) (sh_word True cs))"
| "sh_word False (c # cs) =
     (if c = quote_char then sh_word True cs
      else if c = CHR 0x5C then
        (case cs of [] \<Rightarrow> None | d # ds \<Rightarrow> map_option ((#) d) (sh_word False ds))
      else None)"

lemma sh_word_escaped:
  "sh_word True (concat (map (\<lambda>c. if c = quote_char
      then [quote_char, CHR 0x5C, quote_char, quote_char] else [c]) s) @ [quote_char]) = Some s"
  by (induction s) (simp_all add: quote_char_def)

lemma sh_word_shellQuote: "sh_word False (shellQuote s) = Some s"
  using sh_word_escaped [of s] by (simp add: shellQuote_def quoted_def)

lemma sh_word_quoted: "quote_char \<notin> set s \<Longrightarrow> sh_word False (quoted s) = Some s"
proof -
  assume "quote_char \<notin> set s"
  then have "concat (map (\<lambda>c. if c = quote_char
      then [quote_char, CHR 0x5C, quote_char, quote_char] else [c]) s) = s"
    by (induction s) auto
  then have "quoted s = shellQuote s" by (simp add: shellQuote_def)
  then show ?thesis by (simp add: sh_word_shellQuote)
qed

text \<open>\<open>base64 -d\<close> on whole groups of four.\<close>

definition sextet_value :: "char \<Rightarrow> nat option" where
  "sextet_value c = index_of c base64_alphabet"

fun unbase64 :: "string \<Rightarrow> string option" where
  "unbase64 [] = Some []"
| "unbase64 (p # q # r # t # rest) =
     (case (sextet_value p, sextet_value q) of
        (Some a, Some b) \<Rightarrow>
          (if r = CHR ''='' then
             (if t = CHR ''='' \<and> rest = [] then Some [byte (a * 4 + b div 16)] else None)
           else case sextet_value r of
             None \<Rightarrow> None
           | Some c \<Rightarrow>
               if t = CHR ''='' then
                 (if rest = [] then Some [byte (a * 4 + b div 16), byte (b mod 16 * 16 + c div 4)]
                  else None)
               else (case sextet_value t of
                  None \<Rightarrow> None
                | Some d \<Rightarrow>
                    map_option ((@) [byte (a * 4 + b div 16), byte (b mod 16 * 16 + c div 4),
                      byte (c mod 4 * 64 + d)]) (unbase64 rest)))
      | _ \<Rightarrow> None)"
| "unbase64 _ = None"

lemma base64_alphabet_facts:
  "distinct base64_alphabet" "length base64_alphabet = 64"
  "CHR ''='' \<notin> set base64_alphabet" "quote_char \<notin> set base64_alphabet"
  by code_simp+

lemma sextet_value_sextet: "n < 64 \<Longrightarrow> sextet_value (sextet n) = Some n"
  by (simp add: sextet_value_def sextet_def index_of_nth base64_alphabet_facts)

lemma sextet_in: "n < 64 \<Longrightarrow> sextet n \<in> set base64_alphabet"
  by (simp add: sextet_def base64_alphabet_facts)

lemma sextet_no_pad: "n < 64 \<Longrightarrow> sextet n \<noteq> CHR ''=''"
  using sextet_in base64_alphabet_facts(3) by metis

lemma byte_of_char [simp]: "byte (of_char c) = c"
  by (simp add: byte_def)

lemma of_char_less: "(of_char c :: nat) < 256"
  by (metis nat_of_char_less_256)


text \<open>Three bytes are spread over four groups of six bits.\<close>

lemma sextets_in_range:
  fixes x y z :: nat
  assumes "x < 256" and "y < 256" and "z < 256"
  shows "x div 4 < 64 \<and> x mod 4 * 16 + y div 16 < 64 \<and> y mod 16 * 4 + z div 64 < 64 \<and> z mod 64 < 64"
proof -
  have "x mod 4 < 4" "y div 16 < 16" "y mod 16 < 16" "z div 64 < 4" "x div 4 < 64" "z mod 64 < 64"
    using assms by auto
  then show ?thesis by linarith
qed

lemma unbase64_base64: "unbase64 (base64 s) = Some s"
proof (induction s rule: base64.induct)
  case 1
  then show ?case by simp
next
  case (2 a)
  then show ?case
    using sextets_in_range [of "of_char a" 0 0] of_char_less [of a]
    by (simp add: Let_def sextet_value_sextet)
next
  case (3 a b)
  have "of_char b div 16 < (16 :: nat)" by (rule less_mult_imp_div_less) simp
  then show ?case
    using sextets_in_range [of "of_char a" "of_char b" 0] of_char_less [of a] of_char_less [of b]
    by (simp add: Let_def sextet_value_sextet sextet_no_pad)
next
  case (4 a b c rest)
  have "of_char b div 16 < (16 :: nat)" and "of_char c div 64 < (4 :: nat)"
    by (rule less_mult_imp_div_less; simp)+
  with 4 show ?case
    using sextets_in_range [of "of_char a" "of_char b" "of_char c"]
      of_char_less [of a] of_char_less [of b] of_char_less [of c]
    by (simp add: Let_def sextet_value_sextet sextet_no_pad)
qed

lemma base64_chars: "set (base64 s) \<subseteq> insert (CHR ''='') (set base64_alphabet)"
proof (induction s rule: base64.induct)
  case (4 a b c rest)
  then show ?case
    using sextets_in_range [of "of_char a" "of_char b" "of_char c"]
      of_char_less [of a] of_char_less [of b] of_char_less [of c]
    by (auto simp: Let_def sextet_in)
next
  case (2 a)
  then show ?case
    using sextets_in_range [of "of_char a" 0 0] of_char_less [of a] by (auto simp: Let_def sextet_in)
next
  case (3 a b)
  then show ?case
    using sextets_in_range [of "of_char a" "of_char b" 0] of_char_less [of a] of_char_less [of b]
    by (auto simp: Let_def sextet_in)
qed simp

lemma base64_no_quote: "quote_char \<notin> set (base64 s)"
  using base64_chars [of s] base64_alphabet_facts(4) by (auto simp: quote_char_def)

text \<open>Different JavaScript makes different commands.\<close>

lemma CdpSweep_inject: "cmd_text (CdpSweep a) = cmd_text (CdpSweep b) \<Longrightarrow> a = b"
proof -
  assume "cmd_text (CdpSweep a) = cmd_text (CdpSweep b)"
  then have "shellQuote (sweep_script a) = shellQuote (sweep_script b)" by simp
  then have "sweep_script a = sweep_script b" by (metis option.inject sh_word_shellQuote)
  then have "base64 a = base64 b" by (simp add: sweep_script_def quoted_def)
  then show "a = b" by (metis option.inject unbase64_base64)
qed

text \<open>
  C32: The quoting of a sweep is exact, whatever the JavaScript contains: the command ends in
  one shell word, which is the script for \<open>bash -c\<close>; the script begins by decoding a word
  that stands between single quotes; and decoding that word gives the JavaScript back.
\<close>

theorem sweep_survives_the_shells:
  "cmd_text (CdpSweep expr) =
     ''nix shell nixpkgs#jq nixpkgs#websocat nixpkgs#curl -c bash -c '' @ shellQuote (sweep_script expr)
   \<and> sh_word False (shellQuote (sweep_script expr)) = Some (sweep_script expr)
   \<and> prefix (newline # ''E=$(printf %s '' @ quoted (base64 expr) @ '' | base64 -d)'' @ [newline])
       (sweep_script expr)
   \<and> sh_word False (quoted (base64 expr)) = Some (base64 expr)
   \<and> unbase64 (base64 expr) = Some expr"
proof (intro conjI)
  show "prefix (newline # ''E=$(printf %s '' @ quoted (base64 expr) @ '' | base64 -d)'' @ [newline])
      (sweep_script expr)"
    by (simp add: sweep_script_def)
qed (simp_all add: sh_word_shellQuote sh_word_quoted base64_no_quote unbase64_base64)

end
