(* ===== verification/Tv_Props.thy ===== *)
theory Tv_Props
  imports Tv_Keys Tv_Shell
begin

text \<open>
  What the driver of the TV box guarantees: how a walk through a menu ends, what a closed
  menu and the home screen are verified by, what an opened power menu shows, and how many
  commands a wait or a whole operation can cost.
\<close>

section \<open>What a nil error of closeMenus means\<close>

fun scripts :: "tv_event list \<Rightarrow> string list" where
  "scripts [] = []"
| "scripts (e # es) =
     (case e of Did host (Ydo script) p \<Rightarrow> script # scripts es | _ \<Rightarrow> scripts es)"

lemma scripts_append [simp]: "scripts (xs @ ys) = scripts xs @ scripts ys"
  by (induction xs) (simp_all split: tv_event.split tv_cmd.split)

text \<open>
  The last two commands read the menu and the focus: some target answered, none of the
  answers says that a menu is open, and the focus is not in the main menu.
\<close>

definition baseline :: "tv_event list \<Rightarrow> bool" where
  "baseline es \<longleftrightarrow>
     (\<exists>xs p q label tgt. es = xs @ [Did guevenne (CdpSweep menuStateJS) p, Did guevenne (CdpSweep focusJS) q] \<and>
        menu_was zero_menu (Did guevenne (CdpSweep menuStateJS) p) \<and>
        run_error q = None \<and> shows_focus (swept q) label tgt \<and> (label = [] \<or> tgt \<noteq> mainMenuTarget))"

lemma baseline_append: "baseline es \<Longrightarrow> baseline (xs @ es)"
  unfolding baseline_def by (metis append.assoc)

definition close_ended :: "nat \<Rightarrow> tv_error option \<Rightarrow> nat \<Rightarrow> tv_event list \<Rightarrow> bool" where
  "close_ended n r k es \<longleftrightarrow>
     scripts es = replicate k (key_script [keyEsc]) \<and>
     (case r of
        None \<Rightarrow> k < n \<and> baseline es
      | Some (StillOpen ctx focus) \<Rightarrow> k = n
      | Some err \<Rightarrow> 0 < k \<and> k \<le> n)"

lemma close_ended_later:
  assumes "close_ended n r k es" and "scripts xs = [key_script [keyEsc]]"
  shows "close_ended (Suc n) r (Suc k) (xs @ es)"
  using assms by (auto simp: close_ended_def baseline_append split: option.splits tv_error.splits)

lemma close_loop_ends:
  "\<exists>ys k. tv_log (snd (close_loop m n s)) = tv_log s @ ys \<and>
     tv_clock s \<le> tv_clock (snd (close_loop m n s)) \<and> close_ended n (fst (close_loop m n s)) k ys"
proof (induction n arbitrary: s)
  case 0
  obtain ctx s1 where R: "readMenu m s = (ctx, s1)" by force
  obtain r s2 where M: "mainMenuOpen m s1 = (r, s2)" by force
  obtain p where "tv_log s1 = tv_log s @ [Did guevenne (CdpSweep menuStateJS) p]"
    using readMenu_reads [of m s] R by auto
  moreover obtain q where "tv_log s2 = tv_log s1 @ [Did guevenne (CdpSweep focusJS) q]"
    using mainMenuOpen_reads [of m s1] M by auto
  moreover have "tv_clock s \<le> tv_clock s2"
    using adds_clock [OF readMenu_grows, of s m] adds_clock [OF mainMenuOpen_grows, of s1 m] R M by simp
  ultimately show ?case using R M by (intro exI [of _ "[_, _]"] exI [of _ 0]) (auto simp: close_ended_def)
next
  case (Suc n)
  obtain ctx s1 where R: "readMenu m s = (ctx, s1)" by force
  obtain r s2 where M: "mainMenuOpen m s1 = (r, s2)" by force
  obtain e s3 where P: "press m [keyEsc] s2 = (e, s3)" by force
  let ?s4 = "tv_sleep m (1500 * 1000000) s3"
  obtain p where p: "tv_log s1 = tv_log s @ [Did guevenne (CdpSweep menuStateJS) p]"
    and ctx: "\<And>cur. ctx = Inr cur \<Longrightarrow> menu_was cur (Did guevenne (CdpSweep menuStateJS) p)"
    using readMenu_reads [of m s] R by auto
  obtain q where q: "tv_log s2 = tv_log s1 @ [Did guevenne (CdpSweep focusJS) q]"
    and r: "\<And>main focus. r = Inr (main, focus) \<Longrightarrow> run_error q = None \<and>
      (\<exists>tgt. shows_focus (swept q) focus tgt \<and> main = (tgt = mainMenuTarget \<and> focus \<noteq> []))"
    using mainMenuOpen_reads [of m s1] M by auto
  obtain x where x: "tv_log s3 = tv_log s2 @ [Did guevenne (Ydo (key_script [keyEsc])) x]"
    using ydo_log [of m "key_script [keyEsc]" s2] P by (auto simp: press_def)
  have c2: "tv_clock s \<le> tv_clock s2"
    using adds_clock [OF readMenu_grows, of s m] adds_clock [OF mainMenuOpen_grows, of s1 m] R M by simp
  have c3: "tv_clock s2 \<le> tv_clock s3"
    using adds_clock [OF command_grows, of s2 m guevenne "Ydo (key_script [keyEsc])"] P
    by (simp add: press_def ydo_def)
  let ?two = "[Did guevenne (CdpSweep menuStateJS) p, Did guevenne (CdpSweep focusJS) q]"
  let ?esc = "Did guevenne (Ydo (key_script [keyEsc])) x"
  consider (shut) cur main focus where "ctx = Inr cur" "r = Inr (main, focus)" "\<not> Open cur" "\<not> main"
    | (failed) err where "\<not> (case (ctx, r) of (Inr cur, Inr (main, focus)) \<Rightarrow> \<not> Open cur \<and> \<not> main | _ \<Rightarrow> False)"
        "e = Some err"
    | (again) "\<not> (case (ctx, r) of (Inr cur, Inr (main, focus)) \<Rightarrow> \<not> Open cur \<and> \<not> main | _ \<Rightarrow> False)"
        "e = None"
    by (cases ctx; cases r; cases e) auto
  then show ?case
  proof cases
    case shut
    from ctx [OF shut(1)] shut(3) have "menu_was zero_menu (Did guevenne (CdpSweep menuStateJS) p)"
      by (auto simp: menu_was_def)
    moreover from r [OF shut(2)] shut(4) obtain tgt where
      "run_error q = None" "shows_focus (swept q) focus tgt" "focus = [] \<or> tgt \<noteq> mainMenuTarget" by auto
    ultimately have "baseline ?two" unfolding baseline_def by blast
    then show ?thesis
      using shut R M p q c2 by (intro exI [of _ ?two] exI [of _ 0]) (auto simp: close_ended_def)
  next
    case failed
    then have "\<exists>h c e x. err = CommandFailed h c e x" using command_error [of m "[keyEsc]" s2] P by simp
    with failed show ?thesis
      using R M P p q x c2 c3
      by (intro exI [of _ "?two @ [?esc]"] exI [of _ 1]) (auto simp: close_ended_def)
  next
    case again
    obtain ys k where ys: "tv_log (snd (close_loop m n ?s4)) = tv_log ?s4 @ ys"
      and c: "tv_clock ?s4 \<le> tv_clock (snd (close_loop m n ?s4))"
      and fin: "close_ended n (fst (close_loop m n ?s4)) k ys"
      using Suc.IH [of ?s4] by blast
    have "close_ended (Suc n) (fst (close_loop m n ?s4)) (Suc k) ((?two @ [?esc, Napped (1500 * 1000000)]) @ ys)"
      by (rule close_ended_later [OF fin]) simp
    moreover have "tv_log ?s4 = tv_log s3 @ [Napped (1500 * 1000000)]"
      by (simp add: tv_sleep_def split_beta)
    moreover have "close_loop m (Suc n) s = close_loop m n ?s4" using again R M P by simp
    ultimately show ?thesis
      using ys c p q x c2 c3 tv_sleep_clock [of s3 "1500 * 1000000" m]
      by (intro exI [of _ "(?two @ [?esc, Napped (1500 * 1000000)]) @ ys"] exI [of _ "Suc k"]) auto
  qed
qed

section \<open>What the longer operations end with\<close>

text \<open>A wait for a menu that succeeds ends with the reading that shows it.\<close>

lemma waitMenu_shows:
  assumes "waitMenu m cond timeout s = ((cur, True), s')"
  shows "cond cur \<and> (\<exists>e ys. tv_log s' = tv_log s @ ys @ [e] \<and> menu_was cur e)"
proof -
  from assms have "wait_menu_loop m cond (tv_clock s + timeout) zero_menu s = ((cur, True), s')"
    by (simp add: waitMenu_def)
  from menu.loop_outcome [OF this] obtain a0 s0 where "grows s s0" and a: "menu_attempt m cond a0 s0 = (Inr (cur, True), s')"
    by auto
  then obtain "readMenu m s0 = (Inr cur, s')" and "cond cur"
    by (auto simp: menu_attempt_def split: prod.splits sum.splits if_splits)
  then show ?thesis using readMenu_reads [of m s0] \<open>grows s s0\<close> by (auto simp: adds_def)
qed

lemma activateRow_None:
  assumes "activateRow m want s = (None, s')"
  shows "\<exists>ys. tv_log s' = tv_log s @ ys \<and> enters ys = 1"
proof -
  obtain r s1 where F: "focusLabel m s = (r, s1)" by force
  with assms have P: "press m [keyEnter] s1 = (None, s')"
    by (auto simp: activateRow_def split: sum.splits if_splits)
  obtain q where "tv_log s1 = tv_log s @ [Did guevenne (CdpSweep focusJS) q]"
    using focusLabel_reads [of m s] F by auto
  moreover obtain p where "tv_log s' = tv_log s1 @ [Did guevenne (Ydo (key_script [keyEnter])) p]"
    using ydo_log [of m "key_script [keyEnter]" s1] P by (auto simp: press_def)
  ultimately show ?thesis by (auto simp: enters_def is_enter_def)
qed

lemma power_attempt_opens:
  assumes "power_attempt m s = (Inr (Inr cur), s')"
  shows "Open cur \<and> has cur ''Suspend System'' \<and>
    (\<exists>ys e. tv_log s' = tv_log s @ ys @ [e] \<and> menu_was cur e \<and> 0 < enters ys)"
proof -
  let ?c = "\<lambda>cur. Open cur \<and> has cur ''Suspend System''"
  from assms obtain s0 f s1 s3 s4 where
    Y: "ydo m shift_tab s = (None, s0)" and W: "waitMainMenu m True (6 * Second) s0 = ((f, True), s1)"
    and S: "stepToLabel m ''Power'' keyDown 12 s1 = (None, s3)"
    and A: "activateRow m ''Power'' s3 = (None, s4)"
    and M: "waitMenu m ?c (8 * Second) s4 = ((cur, True), s')"
    by (auto simp: power_attempt_def split: prod.splits option.splits bool.splits)
  have "grows s s3"
    using any.adds_trans [OF any.adds_trans, of s s0 s1 s3] Y W S
      ydo_careful [of shift_tab "''Power''" keyDown s m]
      waitMainMenu_careful [of "''Power''" keyDown s0 m True "6 * Second"]
      stepToLabel_careful [OF key_scripts_differ(2), of "''Power''" s1 m 12]
    by (auto intro: adds_mono)
  then obtain xs where xs: "tv_log s3 = tv_log s @ xs" by (auto simp: adds_def)
  obtain ys where ys: "tv_log s4 = tv_log s3 @ ys" "enters ys = 1" using activateRow_None [OF A] by blast
  obtain e zs where "tv_log s' = tv_log s4 @ zs @ [e]" "menu_was cur e" "?c cur"
    using waitMenu_shows [OF M] by blast
  with xs ys show ?thesis by (intro conjI exI [of _ "xs @ ys @ zs"] exI [of _ e]) auto
qed

text \<open>How an opened power menu shows in the log: the menu is read after an Enter.\<close>

definition menu_opened :: "menu_state \<Rightarrow> tv_event list \<Rightarrow> bool" where
  "menu_opened cur es \<longleftrightarrow>
     Open cur \<and> has cur ''Suspend System'' \<and> (\<exists>ys e. es = ys @ [e] \<and> menu_was cur e \<and> 0 < enters ys)"

lemma menu_opened_append: "menu_opened cur es \<Longrightarrow> menu_opened cur (xs @ es)"
  unfolding menu_opened_def by (metis append.assoc enters_append add_gr_0)

lemma power_loop_opens:
  assumes "power_loop m a n errs s = (Inr cur, s')" and "tv_log s' = tv_log s @ ys"
  shows "menu_opened cur ys"
  using assms
proof (induction n arbitrary: a errs s ys)
  case (Suc n)
  obtain r s1 where A: "power_attempt m s = (r, s1)" by force
  obtain xs where xs: "tv_log s1 = tv_log s @ xs"
    using power_attempt_careful [of s m] A by (auto simp: adds_def)
  consider "r = Inr (Inr cur)" "s1 = s'"
    | why where "r = Inr (Inl why)" "power_loop m (Suc a) n (errs @ [(a, why)]) s1 = (Inr cur, s')"
    using Suc.prems(1) A by (cases r) (auto split: sum.splits)
  then show ?case
  proof cases
    case 1
    then show ?thesis using power_attempt_opens [of m s cur s'] A Suc.prems(2) by (auto simp: menu_opened_def)
  next
    case (2 why)
    obtain zs where "tv_log s' = tv_log s1 @ zs"
      using power_loop_careful [of n s1 m "Suc a" "errs @ [(a, why)]"] 2(2) by (auto simp: adds_def)
    with Suc.IH [OF 2(2) this] xs Suc.prems(2) show ?thesis by (auto intro: menu_opened_append)
  qed
qed simp

lemma openPowerMenu_opens:
  assumes "openPowerMenu m s = (Inr cur, s')" and "tv_log s' = tv_log s @ ys"
  shows "menu_opened cur ys"
proof -
  obtain s1 where C: "closeMenus m s = (None, s1)" and L: "power_loop m 1 3 [] s1 = (Inr cur, s')"
    using assms(1) by (auto simp: openPowerMenu_def split: prod.splits option.splits)
  obtain xs zs where "tv_log s1 = tv_log s @ xs" and "tv_log s' = tv_log s1 @ zs"
    using closeMenus_careful [of _ _ s m] power_loop_careful [of 3 s1 m 1 "[]"] C L
    by (fastforce simp: adds_def)
  with power_loop_opens [OF L this(2)] assms(2) show ?thesis by (auto intro: menu_opened_append)
qed

text \<open>A nil error of \<open>requireHomeScreen\<close>: the route was read, then the baseline verified.\<close>

definition route_was :: "string \<Rightarrow> tv_event \<Rightarrow> bool" where
  "route_was route e \<longleftrightarrow>
     (\<exists>p. e = Did guevenne (CdpSweep routeJS) p \<and> run_error p = None \<and>
        map_of (swept p) sharedJSTarget = Some route)"

definition at_home :: "tv_event list \<Rightarrow> bool" where
  "at_home es \<longleftrightarrow>
     (\<exists>xs e ys k. es = xs @ e # ys \<and> route_was homeRoute e \<and> k < 5 \<and>
        scripts ys = replicate k (key_script [keyEsc]) \<and> baseline ys)"

lemma at_home_append: "at_home es \<Longrightarrow> at_home (xs @ es)"
  unfolding at_home_def by (metis append.assoc)

lemma readRoute_reads:
  assumes "readRoute m s = (Inr route, s')"
  shows "\<exists>e. tv_log s' = tv_log s @ [e] \<and> route_was route e"
proof -
  obtain r s1 where c: "cdpEvalAll m routeJS s = (r, s1)" by force
  then obtain res where "r = Inr res" "map_of res sharedJSTarget = Some route" "s1 = s'"
    using assms by (auto simp: readRoute_def split: sum.splits option.splits if_splits)
  with cdpEvalAll_result [of m routeJS s] c show ?thesis by (auto simp: route_was_def)
qed

lemma home_then_close:
  assumes "readRoute m s = (Inr homeRoute, s1)" and "closeMenus m s1 = (None, s')"
  shows "\<exists>ys. tv_log s' = tv_log s @ ys \<and> at_home ys"
proof -
  obtain e where e: "tv_log s1 = tv_log s @ [e]" "route_was homeRoute e"
    using readRoute_reads [OF assms(1)] by blast
  obtain ys k where "tv_log s' = tv_log s1 @ ys" and "close_ended 5 None k ys"
    using close_loop_ends [of m 5 s1] assms(2) by (auto simp: closeMenus_def)
  then have "at_home ([] @ e # ys)"
    unfolding at_home_def close_ended_def using e(2)
    by (intro exI [of _ "[]"] exI [of _ e] exI [of _ ys] exI [of _ k]) auto
  with e \<open>tv_log s' = tv_log s1 @ ys\<close> show ?thesis by auto
qed

lemma home_loop_ends:
  assumes "home_loop m deadline s = (None, s')"
  shows "\<exists>ys. tv_log s' = tv_log s @ ys \<and> at_home ys"
  using assms
proof (induction m deadline s rule: home_loop.induct)
  case (1 m deadline s)
  obtain r s1 where R: "readRoute m (tv_sleep m Second s) = (r, s1)" by force
  obtain r' s2 where R': "readRoute m s = (r', s2)" by force
  have nap: "tv_log (tv_sleep m Second s) = tv_log s @ [Napped Second]"
    by (simp add: tv_sleep_def split_beta)
  have less: "tv_clock s < deadline"
    using "1.prems" R' by (cases "tv_clock s < deadline") (auto simp: home_loop.simps [of m deadline s])
  show ?case
  proof (cases "r = Inr homeRoute")
    case True
    then have "closeMenus m s1 = (None, s')"
      using "1.prems" less R by (auto simp: home_loop.simps [of m deadline s])
    from home_then_close [OF _ this, of "tv_sleep m Second s"] R True nap show ?thesis
      by (auto intro: at_home_append [of _ "[Napped Second]", simplified])
  next
    case False
    then have L: "home_loop m deadline s1 = (None, s')"
      using "1.prems" less R by (auto simp: home_loop.simps [of m deadline s])
    obtain xs where "tv_log s1 = tv_log (tv_sleep m Second s) @ xs"
      using readRoute_grows [of "tv_sleep m Second s" m] R by (auto simp: adds_def)
    with "1.IH" [OF less R [symmetric] False L] nap show ?thesis
      by (auto intro: at_home_append [of _ "Napped Second # xs", simplified])
  qed
qed

lemma requireHomeScreen_ends:
  assumes "requireHomeScreen m s = (None, s')"
  shows "\<exists>ys. tv_log s' = tv_log s @ ys \<and> at_home ys"
proof -
  obtain r s0 where R: "readRoute m s = (r, s0)" by force
  show ?thesis
  proof (cases "r = Inr homeRoute")
    case True
    with assms R show ?thesis
      by (intro home_then_close [of m s s0]) (auto simp: requireHomeScreen_def)
  next
    case False
    with assms R obtain s1 s2 f s3 s4 s5 where
      C: "closeMenus m s0 = (None, s1)" and Y: "ydo m shift_tab s1 = (None, s2)"
      and W: "waitMainMenu m True (6 * Second) s2 = ((f, True), s3)"
      and S: "stepToLabel m ''Home'' keyUp 12 s3 = (None, s4)"
      and A: "activateRow m ''Home'' s4 = (None, s5)"
      and H: "home_loop m (tv_clock s5 + 10 * Second) s5 = (None, s')"
      by (auto simp: requireHomeScreen_def split: prod.splits sum.splits option.splits bool.splits if_splits)
    have "adds (careful ''Home'' keyUp 1) s s5"
    proof -
      have c0: "adds (careful ''Home'' keyUp 0) s s0"
        by (rule then_idle [OF idle.adds_refl readRoute_careful R])
      note c1 = then_idle [OF c0 closeMenus_careful C]
      have c2: "adds (careful ''Home'' keyUp 0) s s2" by (rule then_idle [OF c1 ydo_careful Y]) simp
      note c3 = then_idle [OF c2 waitMainMenu_careful W]
      have c4: "adds (careful ''Home'' keyUp 0) s s4"
        by (rule then_idle [OF c3 stepToLabel_careful S]) (rule key_scripts_differ)
      show ?thesis using careful_trans [OF c4 activateRow_careful, of 1 m] A by simp
    qed
    then obtain xs where "tv_log s5 = tv_log s @ xs" by (auto simp: adds_def)
    with home_loop_ends [OF H] show ?thesis by (auto intro: at_home_append)
  qed
qed

section \<open>What the operations cost\<close>

lemma commands_ydo [simp]: "commands (snd (ydo m script s)) = Suc (commands s)"
  by (simp add: ydo_def)

lemma commands_press [simp]: "commands (snd (press m keys s)) = Suc (commands s)"
  by (simp add: press_def)

lemma commands_readRoute [simp]: "commands (snd (readRoute m s)) = Suc (commands s)"
  using commands_cdpEvalAll [of m routeJS s]
  by (auto simp: readRoute_def split: prod.splits sum.splits option.splits simp del: commands_cdpEvalAll)

lemma waitMainMenu_cost:
  "commands (snd (waitMainMenu m want timeout s)) \<le> commands s + Suc (rounds timeout Second)"
  unfolding waitMainMenu_def using main.loop_cost [of m want "tv_clock s + timeout" s] by simp

lemma waitMenu_cost:
  "commands (snd (waitMenu m cond timeout s)) \<le> commands s + Suc (rounds timeout Second)"
  unfolding waitMenu_def using menu.loop_cost [of m cond "tv_clock s + timeout" zero_menu s] by simp

lemma step_loop_cost: "commands (snd (step_loop m want key k n sw cur s)) \<le> commands s + 2 * n"
proof (induction n arbitrary: sw cur s)
  case (Suc n)
  obtain r1 s1 where P: "press m [key] s = (r1, s1)" by force
  obtain r2 s2 where F: "focusLabel m (tv_sleep m (700 * 1000000) s1) = (r2, s2)" by force
  have "commands s1 = Suc (commands s)" using commands_press [of m "[key]" s] P by simp
  moreover have "commands s2 = Suc (commands s1)"
    using F by (metis commands_focusLabel commands_sleep snd_conv)
  moreover have "commands (snd (step_loop m want key k n (sw @ [cur]) l s2)) \<le> commands s2 + 2 * n" for l
    by (rule Suc.IH)
  ultimately show ?case using P F by (auto simp: Let_def le_SucI split: option.split sum.split)
qed simp

lemma stepToLabel_cost:
  "commands (snd (stepToLabel m want key k s)) \<le> commands s + 1 + 2 * nat k"
proof -
  obtain r s1 where F: "focusLabel m s = (r, s1)" by force
  then have "commands s1 = Suc (commands s)" using commands_focusLabel [of m s] by simp
  then show ?thesis
    using F step_loop_cost [of m want key k "nat k" "[]" _ s1]
    by (cases r) (auto simp: stepToLabel_def intro: order_trans)
qed

lemma activateRow_cost: "commands (snd (activateRow m want s)) \<le> commands s + 2"
proof -
  obtain r s1 where F: "focusLabel m s = (r, s1)" by force
  then have "commands s1 = Suc (commands s)" using commands_focusLabel [of m s] by simp
  then show ?thesis using F by (cases r) (auto simp: activateRow_def)
qed

lemma close_loop_cost: "commands (snd (close_loop m n s)) \<le> commands s + 3 * n + 2"
proof (induction n arbitrary: s)
  case 0
  show ?case by (simp add: split_beta)
next
  case (Suc n)
  obtain ctx s1 where R: "readMenu m s = (ctx, s1)" by force
  obtain r s2 where M: "mainMenuOpen m s1 = (r, s2)" by force
  obtain e s3 where P: "press m [keyEsc] s2 = (e, s3)" by force
  have "commands s3 = commands s + 3" and "commands s2 = commands s + 2"
    using commands_readMenu [of m s] commands_mainMenuOpen [of m s1] commands_press [of m "[keyEsc]" s2] R M P
    by simp_all
  moreover have "commands (snd (close_loop m n (tv_sleep m (1500 * 1000000) s3))) \<le> commands s3 + 3 * n + 2"
    using Suc.IH [of "tv_sleep m (1500 * 1000000) s3"] by simp
  ultimately show ?case using R M P by (auto split: option.split)
qed

lemma closeMenus_cost: "commands (snd (closeMenus m s)) \<le> commands s + 17"
  unfolding closeMenus_def using close_loop_cost [of m 5 s] by simp

lemma power_attempt_cost: "commands (snd (power_attempt m s)) \<le> commands s + 63"
proof -
  let ?c = "\<lambda>cur. Open cur \<and> has cur ''Suspend System''"
  obtain r0 s0 where Y: "ydo m shift_tab s = (r0, s0)" by force
  obtain f ok s1 where W: "waitMainMenu m True (6 * Second) s0 = ((f, ok), s1)" by (metis prod.exhaust)
  obtain r2 s2 where F: "focusAnywhere m s1 = (r2, s2)" by force
  obtain r3 s3 where S: "stepToLabel m ''Power'' keyDown 12 s1 = (r3, s3)" by force
  obtain r4 s4 where A: "activateRow m ''Power'' s3 = (r4, s4)" by force
  obtain cur up s5 where M: "waitMenu m ?c (8 * Second) s4 = ((cur, up), s5)"
    using surj_pair [of "waitMenu m _ _ _"] by fastforce
  have c0: "commands s0 \<le> commands s + 1" using commands_ydo [of m shift_tab s] Y by simp
  have c1: "commands s1 \<le> commands s + 9"
    using waitMainMenu_cost [of m True "6 * Second" s0] W c0 by (simp add: rounds_def)
  have c2: "commands s2 \<le> commands s + 10" using commands_focusAnywhere [of m s1] F c1 by simp
  have c3: "commands s3 \<le> commands s + 34" using stepToLabel_cost [of m "''Power''" keyDown 12 s1] S c1 by simp
  have c4: "commands s4 \<le> commands s + 36" using activateRow_cost [of m "''Power''" s3] A c3 by simp
  have c5: "commands s5 \<le> commands s + 46"
    using waitMenu_cost [of m ?c "8 * Second" s4] M c4 by (simp add: rounds_def)
  have close: "commands (snd (closeMenus m t)) \<le> commands s + 63" if "commands t \<le> commands s + 46" for t
    using closeMenus_cost [of m t] that by linarith
  show ?thesis
    using c0 c2 c5 close [of s3] close [of s4] close [of s5] c3 c4
    by (auto simp: power_attempt_def Y W [simplified] F S A M [simplified]
        split: bool.split option.split prod.split)
qed

lemma power_loop_cost: "commands (snd (power_loop m a n errs s)) \<le> commands s + 63 * n"
proof (induction n arbitrary: a errs s)
  case (Suc n)
  obtain r s1 where A: "power_attempt m s = (r, s1)" by force
  have c: "commands s1 \<le> commands s + 63" using power_attempt_cost [of m s] A by simp
  have "commands (snd (power_loop m b n es s1)) \<le> commands s + 63 * Suc n" for b es
    by (rule order_trans [OF Suc.IH]) (use c in simp)
  with c show ?case using A by (auto simp: le_SucI split: sum.split)
qed simp

lemma openPowerMenu_cost: "commands (snd (openPowerMenu m s)) \<le> commands s + 206"
proof -
  obtain r s1 where C: "closeMenus m s = (r, s1)" by force
  then have "commands s1 \<le> commands s + 17" using closeMenus_cost [of m s] by simp
  moreover have "commands (snd (power_loop m 1 3 [] s1)) \<le> commands s1 + 189"
    using power_loop_cost [of m 1 3 "[]" s1] by simp
  ultimately show ?thesis using C by (cases r) (auto simp: openPowerMenu_def)
qed

lemma home_loop_cost:
  "commands (snd (home_loop m deadline s)) \<le> commands s + rounds (deadline - tv_clock s - 1) Second + 17"
proof (induction m deadline s rule: home_loop.induct)
  case (1 m deadline s)
  obtain r s1 where R: "readRoute m (tv_sleep m Second s) = (r, s1)" by force
  obtain r' s2 where R': "readRoute m s = (r', s2)" by force
  have c: "commands s1 = Suc (commands s)" "commands s2 = Suc (commands s)"
    using commands_readRoute [of m "tv_sleep m Second s"] commands_readRoute [of m s] R R' by simp_all
  show ?case
  proof (cases "tv_clock s < deadline")
    case True
    have clock: "tv_clock s + Second \<le> tv_clock s1"
      using adds_clock [OF readRoute_grows, of "tv_sleep m Second s" m] R tv_sleep_clock [of s Second m] by simp
    then have "Suc (rounds (deadline - tv_clock s1 - 1) Second) \<le> rounds (deadline - tv_clock s - 1) Second"
      using rounds_step [of Second "tv_clock s1 - tv_clock s" "deadline - tv_clock s - 1"] True
      by (simp add: algebra_simps)
    moreover have "commands (snd (closeMenus m s1)) \<le> commands s1 + 17" by (rule closeMenus_cost)
    ultimately show ?thesis
      using True R c "1.IH" [OF True R [symmetric]]
      by (cases "r = Inr homeRoute") (auto simp: home_loop.simps [of m deadline s])
  next
    case False
    then show ?thesis using R' c by (simp add: home_loop.simps [of m deadline s])
  qed
qed

lemma requireHomeScreen_cost: "commands (snd (requireHomeScreen m s)) \<le> commands s + 81"
proof -
  obtain r s0 where R: "readRoute m s = (r, s0)" by force
  obtain rc s1 where C: "closeMenus m s0 = (rc, s1)" by force
  obtain ry s2 where Y: "ydo m shift_tab s1 = (ry, s2)" by force
  obtain f ok s3 where W: "waitMainMenu m True (6 * Second) s2 = ((f, ok), s3)" by (metis prod.exhaust)
  obtain rs s4 where S: "stepToLabel m ''Home'' keyUp 12 s3 = (rs, s4)" by force
  obtain ra s5 where A: "activateRow m ''Home'' s4 = (ra, s5)" by force
  have c0: "commands s0 \<le> commands s + 1" using commands_readRoute [of m s] R by simp
  have c1: "commands s1 \<le> commands s + 18" using closeMenus_cost [of m s0] C c0 by simp
  have c2: "commands s2 \<le> commands s + 19" using commands_ydo [of m shift_tab s1] Y c1 by simp
  have c3: "commands s3 \<le> commands s + 27"
    using waitMainMenu_cost [of m True "6 * Second" s2] W c2 by (simp add: rounds_def)
  have c4: "commands s4 \<le> commands s + 52" using stepToLabel_cost [of m "''Home''" keyUp 12 s3] S c3 by simp
  have c5: "commands s5 \<le> commands s + 54" using activateRow_cost [of m "''Home''" s4] A c4 by simp
  have c6: "commands (snd (home_loop m (tv_clock s5 + 10 * Second) s5)) \<le> commands s + 81"
    using home_loop_cost [of m "tv_clock s5 + 10 * Second" s5] c5 by (simp add: rounds_def)
  show ?thesis
    using c0 c1 c2 c3 c4 c5 c6
    by (auto simp: requireHomeScreen_def R C Y W [simplified] S A split: sum.split option.split bool.split)
qed

section \<open>The waits\<close>

definition status_was :: "string \<Rightarrow> tv_event \<Rightarrow> bool" where
  "status_was st e =
     (case e of
        Did host TvStatus p \<Rightarrow>
          host = guevenne \<and>
          st = (case run_error p of
                  None \<Rightarrow> lastLine (TrimSpace (proc_out p)) | Some err \<Rightarrow> ''unreachable'')
      | _ \<Rightarrow> False)"

lemma settle_attempt_iff:
  "settle_attempt m a s = (Inr st, s') \<longleftrightarrow> tvStatus m s = (st, s') \<and> st \<noteq> ''unknown''"
  "settle_attempt m a s = (Inl st, s') \<longleftrightarrow> tvStatus m s = (st, s') \<and> st = ''unknown''"
  by (cases "tvStatus m s"; auto simp: settle_attempt_def)+

lemma wait_tv_attempt_iff:
  "wait_tv_attempt m state u s = (Inr b, s') \<longleftrightarrow> tvStatus m s = (state, s') \<and> b"
  by (cases "tvStatus m s") (auto simp: wait_tv_attempt_def)

lemma routing_attempt_iff:
  "routing_attempt m path u s = (Inr pa, s') \<longleftrightarrow> cecLastRouting m path s = (pa, s') \<and> pa \<noteq> []"
  by (cases "cecLastRouting m path s") (auto simp: routing_attempt_def)

lemma main_attempt_iff:
  "main_attempt m want prev s = (Inr fb, s') \<longleftrightarrow>
   mainMenuOpen m s = (Inr (want, fst fb), s') \<and> snd fb"
proof -
  obtain r s1 where "mainMenuOpen m s = (r, s1)" by force
  then show ?thesis by (cases r; cases fb) (auto simp: main_attempt_def split: if_splits)
qed

lemma tvStatus_reads: "\<exists>e. tv_log (snd (tvStatus m s)) = tv_log s @ [e] \<and> status_was (fst (tvStatus m s)) e"
  by (auto simp: tvStatus_def tv_run_def status_was_def Let_def split_beta split: option.splits)

lemma tvStatus_reads_of: "tvStatus m s = (st, s') \<Longrightarrow> \<exists>xs e. tv_log s' = xs @ [e] \<and> status_was st e"
  using tvStatus_reads [of m s] by auto

lemma waitTV_ends:
  "if fst (waitTV m state timeout s)
   then \<exists>xs e. tv_log (snd (waitTV m state timeout s)) = xs @ [e] \<and> status_was state e
   else tv_clock s + timeout \<le> tv_clock (snd (waitTV m state timeout s))"
proof -
  obtain b s' where W: "wait_tv_loop m state (tv_clock s + timeout) s = (b, s')" by force
  then have "(\<exists>s0. tvStatus m s0 = (state, s') \<and> b) \<or> tv_clock s + timeout \<le> tv_clock s' \<and> \<not> b"
    using wait_tv.loop_outcome [OF W] by (simp only: wait_tv_attempt_iff simp_thms) blast
  moreover have "waitTV m state timeout s = (b, s')" by (simp add: waitTV_def W)
  ultimately show ?thesis using tvStatus_reads_of [of m _ state s'] by (elim disjE exE conjE) simp_all
qed

lemma tvSettled_ends:
  "if fst (tvSettled m timeout s) = ''unknown''
   then tv_clock s + timeout \<le> tv_clock (snd (tvSettled m timeout s))
   else \<exists>xs e. tv_log (snd (tvSettled m timeout s)) = xs @ [e] \<and> status_was (fst (tvSettled m timeout s)) e"
proof -
  obtain st s' where W: "settle_loop m (tv_clock s + timeout) ''unknown'' s = (st, s')" by force
  then have "(\<exists>s0. tvStatus m s0 = (st, s') \<and> st \<noteq> ''unknown'') \<or>
      tv_clock s + timeout \<le> tv_clock s' \<and> st = ''unknown''"
    using settle.loop_outcome [OF W] by (simp only: settle_attempt_iff) blast
  moreover have "tvSettled m timeout s = (st, s')" by (simp add: tvSettled_def W)
  ultimately show ?thesis using tvStatus_reads_of [of m _ st s'] by (elim disjE exE conjE) simp_all
qed

text \<open>A routing that is reported was read; silence is reported only after the whole time.\<close>

lemma waitLastRouting_ends:
  "if fst (waitLastRouting m path timeout s) = []
   then tv_clock s + timeout < tv_clock (snd (waitLastRouting m path timeout s))
   else \<exists>s0. cecLastRouting m path s0 = waitLastRouting m path timeout s"
proof -
  obtain pa s' where W: "routing_loop m path (tv_clock s + timeout) s = (pa, s')" by force
  then have "(\<exists>s0. cecLastRouting m path s0 = (pa, s') \<and> pa \<noteq> []) \<or>
      pa = [] \<and> tv_clock s + timeout < tv_clock s'"
    using routing.loop_outcome [OF W] by (simp only: routing_attempt_iff) blast
  moreover have "waitLastRouting m path timeout s = (pa, s')" by (simp add: waitLastRouting_def W)
  ultimately show ?thesis by (elim disjE exE conjE) auto
qed

lemma waitMainMenu_ends:
  "if snd (fst (waitMainMenu m want timeout s))
   then \<exists>s0. mainMenuOpen m s0 =
     (Inr (want, fst (fst (waitMainMenu m want timeout s))), snd (waitMainMenu m want timeout s))
   else tv_clock s + timeout < tv_clock (snd (waitMainMenu m want timeout s))"
proof -
  obtain f b s' where W: "wait_main_loop m want (tv_clock s + timeout) s = ((f, b), s')"
    by (metis prod.exhaust)
  then have "(\<exists>s0. mainMenuOpen m s0 = (Inr (want, f), s') \<and> b) \<or>
      \<not> b \<and> tv_clock s + timeout < tv_clock s'"
    using main.loop_outcome [OF W] by (simp only: main_attempt_iff fst_conv snd_conv prod.inject) blast
  moreover have "waitMainMenu m want timeout s = ((f, b), s')" by (simp add: waitMainMenu_def W)
  ultimately show ?thesis by (elim disjE exE conjE) auto
qed

lemma openPowerMenu_shows_the_menu:
  "\<exists>ys. tv_log (snd (openPowerMenu m s)) = tv_log s @ ys \<and>
     (case fst (openPowerMenu m s) of Inr cur \<Rightarrow> menu_opened cur ys | Inl err \<Rightarrow> True)"
proof -
  obtain r s' where O: "openPowerMenu m s = (r, s')" by force
  obtain ys where ys: "tv_log s' = tv_log s @ ys"
    using openPowerMenu_careful [of s m] O by (auto simp: adds_def)
  then have "case r of Inr cur \<Rightarrow> menu_opened cur ys | Inl err \<Rightarrow> True"
    using O by (cases r) (auto intro: openPowerMenu_opens)
  with O ys show ?thesis by auto
qed

lemma requireHomeScreen_is_home:
  "\<exists>ys. tv_log (snd (requireHomeScreen m s)) = tv_log s @ ys \<and>
     (case fst (requireHomeScreen m s) of None \<Rightarrow> at_home ys | Some err \<Rightarrow> True)"
proof (cases "fst (requireHomeScreen m s)")
  case None
  then show ?thesis using requireHomeScreen_ends [of m s "snd (requireHomeScreen m s)"]
    by (metis option.simps(4) prod.collapse)
next
  case (Some err)
  then show ?thesis using requireHomeScreen_careful [of s m] by (auto simp: adds_def)
qed

section \<open>The properties\<close>

text \<open>
  C17: Whatever Steam shows, \<open>openPowerMenu\<close> and \<open>requireHomeScreen\<close> never press Enter blind:
  each Enter follows directly on a reading in which the row \<open>Power\<close>, or \<open>Home\<close>, had the
  focus, at most three times, or once; each navigation key follows directly on a reading in
  which another row had it; and the only other keys are Escape and the chord for the menu.
\<close>

theorem keys_follow_readings:
  "(\<exists>ys. tv_log (snd (openPowerMenu m s)) = tv_log s @ ys \<and>
      checked ''Power'' keyDown None ys \<and> enters ys \<le> 3) \<and>
   (\<exists>ys. tv_log (snd (requireHomeScreen m s)) = tv_log s @ ys \<and>
      checked ''Home'' keyUp None ys \<and> enters ys \<le> 1)"
  using openPowerMenu_careful [of s m] requireHomeScreen_careful [of s m]
  by (simp add: adds_def careful_def)

text \<open>
  C29: Success is verified on the screen. A menu that \<open>openPowerMenu\<close> returns was read from
  some target after an Enter, by the last command of the run, and it is open and offers the
  row \<open>Suspend System\<close>. A nil error of \<open>requireHomeScreen\<close> means that Steam reported the
  home route, and that after this report the closed-menu baseline was verified with no key
  but Escape in between.
\<close>

theorem success_is_verified:
  "(\<exists>ys. tv_log (snd (openPowerMenu m s)) = tv_log s @ ys \<and>
      (case fst (openPowerMenu m s) of Inr cur \<Rightarrow> menu_opened cur ys | Inl err \<Rightarrow> True)) \<and>
   (\<exists>ys. tv_log (snd (requireHomeScreen m s)) = tv_log s @ ys \<and>
      (case fst (requireHomeScreen m s) of None \<Rightarrow> at_home ys | Some err \<Rightarrow> True))"
  using openPowerMenu_shows_the_menu requireHomeScreen_is_home by blast

text \<open>
  \<open>stepToLabel\<close> reads the focus, and walks: between two readings it presses the key once.
  It returns nil exactly when a reading finds the wanted label before the steps are used up;
  it reports the focus as stuck when two readings in a row agree; it reports the label as
  not reached after the given number of presses, whatever the reading after the last press
  says. The labels it reports are the ones it read.
\<close>

theorem stepToLabel_walks:
  "\<exists>e es. tv_log (snd (stepToLabel m want key maxSteps s)) = tv_log s @ e # es \<and>
     ((\<exists>h c x d. fst (stepToLabel m want key maxSteps s) = Some (CommandFailed h c x d)) \<and> es = []
      \<or> (\<exists>cur ls core tail. focus_was cur e \<and> es = core @ tail \<and> walked key (cur # ls) core \<and>
           walk_ended want key maxSteps (nat maxSteps) [] (cur # ls)
             (fst (stepToLabel m want key maxSteps s)) tail))"
proof -
  obtain r s1 where F: "focusLabel m s = (r, s1)" by force
  obtain q where q: "tv_log s1 = tv_log s @ [Did guevenne (CdpSweep focusJS) q]"
    and r: "\<And>l. r = Inr l \<Longrightarrow> focus_was l (Did guevenne (CdpSweep focusJS) q)"
    using focusLabel_reads [of m s] F by auto
  show ?thesis
  proof (cases r)
    case (Inl err)
    then obtain h c x d where "err = CommandFailed h c x d" using focusLabel_error [of m s] F by auto
    with Inl F q show ?thesis by (auto simp: stepToLabel_def)
  next
    case (Inr cur)
    then have step: "stepToLabel m want key maxSteps s =
        step_loop m want key maxSteps (nat maxSteps) [] cur s1"
      by (simp add: stepToLabel_def F)
    show ?thesis
      using step_loop_walk [of m want key maxSteps "nat maxSteps" "[]" cur s1] q r [OF Inr]
      unfolding step
      by (elim exE conjE) (intro exI [of _ "Did guevenne (CdpSweep focusJS) q"] exI conjI disjI2; simp)
  qed
qed

text \<open>
  A nil error of \<open>closeMenus\<close> is verified: its last two commands read the menu and the
  focus, no target reported an open menu, and the focus was not in the main menu. It
  presses nothing but Escape, at most five times, and only reports menus that are still
  open after all five.
\<close>

theorem closeMenus_verifies:
  "\<exists>ys k. tv_log (snd (closeMenus m s)) = tv_log s @ ys \<and>
     scripts ys = replicate k (key_script [keyEsc]) \<and>
     (case fst (closeMenus m s) of
        None \<Rightarrow> k < 5 \<and> baseline ys
      | Some (StillOpen ctx focus) \<Rightarrow> k = 5
      | Some err \<Rightarrow> 0 < k \<and> k \<le> 5)"
  using close_loop_ends [of m 5 s] by (auto simp: closeMenus_def close_ended_def)

text \<open>
  The waits end for one of two reasons. \<open>waitTV\<close> and \<open>tvSettled\<close> report a state that the
  last command read, and otherwise have let the whole timeout pass; \<open>waitLastRouting\<close> and
  \<open>waitMainMenu\<close> report what the last attempt read, and otherwise more than the timeout passed.
\<close>

theorem waits_do_not_give_up_early:
  "(if fst (waitTV m state timeout s)
    then \<exists>xs e. tv_log (snd (waitTV m state timeout s)) = xs @ [e] \<and> status_was state e
    else tv_clock s + timeout \<le> tv_clock (snd (waitTV m state timeout s))) \<and>
   (if fst (tvSettled m timeout s) = ''unknown''
    then tv_clock s + timeout \<le> tv_clock (snd (tvSettled m timeout s))
    else \<exists>xs e. tv_log (snd (tvSettled m timeout s)) = xs @ [e] \<and> status_was (fst (tvSettled m timeout s)) e) \<and>
   (if fst (waitLastRouting m path timeout s) = []
    then tv_clock s + timeout < tv_clock (snd (waitLastRouting m path timeout s))
    else \<exists>s0. cecLastRouting m path s0 = waitLastRouting m path timeout s) \<and>
   (if snd (fst (waitMainMenu m want timeout s))
    then \<exists>s0. mainMenuOpen m s0 =
      (Inr (want, fst (fst (waitMainMenu m want timeout s))), snd (waitMainMenu m want timeout s))
    else tv_clock s + timeout < tv_clock (snd (waitMainMenu m want timeout s)))"
  by (intro conjI waitTV_ends tvSettled_ends waitLastRouting_ends waitMainMenu_ends)

text \<open>
  Every wait and every walk runs a bounded number of commands, whatever they answer: one
  per pause that fits into the timeout (and one or two more), 206 for \<open>openPowerMenu\<close> with its
  three attempts, 81 for \<open>requireHomeScreen\<close>.
\<close>

theorem driver_is_bounded:
  "commands (snd (waitTV m state timeout s)) \<le> commands s + rounds (timeout - 1) (4 * Second) \<and>
   commands (snd (tvSettled m timeout s)) \<le> commands s + rounds (timeout - 1) (4 * Second) \<and>
   commands (snd (waitLastRouting m path timeout s)) \<le> commands s + Suc (rounds timeout (2 * Second)) \<and>
   commands (snd (waitMainMenu m want timeout s)) \<le> commands s + Suc (rounds timeout Second) \<and>
   commands (snd (waitMenu m cond timeout s)) \<le> commands s + Suc (rounds timeout Second) \<and>
   commands (snd (closeMenus m s)) \<le> commands s + 17 \<and>
   commands (snd (openPowerMenu m s)) \<le> commands s + 206 \<and>
   commands (snd (requireHomeScreen m s)) \<le> commands s + 81"
proof (intro conjI)
  show "commands (snd (waitTV m state timeout s)) \<le> commands s + rounds (timeout - 1) (4 * Second)"
    using wait_tv.loop_cost [of m state "tv_clock s + timeout" s] by (simp add: waitTV_def)
  show "commands (snd (tvSettled m timeout s)) \<le> commands s + rounds (timeout - 1) (4 * Second)"
    using settle.loop_cost [of m "tv_clock s + timeout" "''unknown''" s] by (simp add: tvSettled_def)
  show "commands (snd (waitLastRouting m path timeout s)) \<le> commands s + Suc (rounds timeout (2 * Second))"
    using routing.loop_cost [of m path "tv_clock s + timeout" s] by (simp add: waitLastRouting_def)
qed (rule waitMainMenu_cost waitMenu_cost closeMenus_cost openPowerMenu_cost requireHomeScreen_cost)+

end
