(* ===== verification/Tv_Live.thy ===== *)
theory Tv_Live
  imports Tv_Props
begin

text \<open>
  The TV driver against a user interface that works: what Steam shows is one of three
  screens, the readings report it, and the keys move between them. Against such an
  interface \<open>openPowerMenu\<close> succeeds, and with exactly the keys that are needed.
\<close>

section \<open>A user interface that works\<close>

datatype screen = Shut | MainMenu nat | PowerMenu

text \<open>What a key script does to the screen, for a main menu with the given rows.\<close>

definition react :: "string list \<Rightarrow> string \<Rightarrow> screen \<Rightarrow> screen" where
  "react rows script scr =
     (if script = shift_tab then (case scr of Shut \<Rightarrow> MainMenu 0 | _ \<Rightarrow> scr)
      else if script = key_script [keyDown] then
        (case scr of MainMenu i \<Rightarrow> MainMenu (if Suc i < length rows then Suc i else i) | _ \<Rightarrow> scr)
      else if script = key_script [keyEnter] then
        (case scr of MainMenu i \<Rightarrow> if rows ! i = ''Power'' then PowerMenu else scr | _ \<Rightarrow> scr)
      else if script = key_script [keyEsc] then Shut
      else scr)"

text \<open>
  What the targets answer to the two scripts on each screen: only the main menu's own
  target reports focus while it is up, and no target reports an open context menu before
  the power menu is there.
\<close>

definition focus_answer :: "string list \<Rightarrow> screen \<Rightarrow> (string \<times> string) list \<Rightarrow> bool" where
  "focus_answer rows scr res =
     (case scr of
        Shut \<Rightarrow> list_all (\<lambda>(t, v). t \<noteq> mainMenuTarget \<or> v = []) res
      | MainMenu i \<Rightarrow> (mainMenuTarget, rows ! i) \<in> set res \<and>
          list_all (\<lambda>(t, v). v = [] \<or> t = mainMenuTarget \<and> v = rows ! i) res
      | PowerMenu \<Rightarrow> True)"

definition menu_answer :: "screen \<Rightarrow> (string \<times> string) list \<Rightarrow> bool" where
  "menu_answer scr res =
     (res \<noteq> [] \<and>
      (let opens = [cur. Some cur \<leftarrow> map (\<lambda>(t, v). decode_menu v) res, Open cur] in
       if scr = PowerMenu then opens \<noteq> [] \<and> list_all (\<lambda>cur. has cur ''Suspend System'') opens
       else opens = []))"

definition works :: "'w tv_machine \<Rightarrow> ('w \<Rightarrow> screen) \<Rightarrow> string list \<Rightarrow> bool" where
  "works m ui rows \<longleftrightarrow>
     (\<forall>w d. ui (snd (oversleep m d w)) = ui w) \<and> (\<forall>w. ui (snd (map_seed m w)) = ui w) \<and>
     (\<forall>w p w'. ssh_exec m (ssh_argv guevenne (cmd_text (CdpSweep focusJS))) w = (p, w') \<longrightarrow>
        run_error p = None \<and> ui w' = ui w \<and> focus_answer rows (ui w) (swept p)) \<and>
     (\<forall>w p w'. ssh_exec m (ssh_argv guevenne (cmd_text (CdpSweep menuStateJS))) w = (p, w') \<longrightarrow>
        run_error p = None \<and> ui w' = ui w \<and> menu_answer (ui w) (swept p)) \<and>
     (\<forall>script w p w'. ssh_exec m (ssh_argv guevenne (cmd_text (Ydo script))) w = (p, w') \<longrightarrow>
        run_error p = None \<and> ui w' = react rows script (ui w))"

text \<open>The state moves on with the given keys, to a screen.\<close>

definition reaches :: "('w \<Rightarrow> screen) \<Rightarrow> 'w tv_state \<Rightarrow> string list \<Rightarrow> screen \<Rightarrow> 'w tv_state \<Rightarrow> bool" where
  "reaches ui s keys scr s' \<longleftrightarrow>
     (\<exists>xs. tv_log s' = tv_log s @ xs \<and> scripts xs = keys) \<and> ui (tv_world s') = scr"

lemma reaches_refl: "reaches ui s [] (ui (tv_world s)) s"
  by (auto simp: reaches_def)

lemma reaches_trans: "reaches ui s ks a t \<Longrightarrow> reaches ui t ls b u \<Longrightarrow> reaches ui s (ks @ ls) b u"
  by (force simp: reaches_def)

lemma reaches_screen: "reaches ui s ks a t \<Longrightarrow> ui (tv_world t) = a"
  by (simp add: reaches_def)

lemma reaches_quiet: "reaches ui s ks a t \<Longrightarrow> reaches ui t [] b u \<Longrightarrow> reaches ui s ks b u"
  using reaches_trans [of ui s ks a t "[]" b u] by simp

lemma works_sleep: "works m ui rows \<Longrightarrow> reaches ui s [] (ui (tv_world s)) (tv_sleep m d s)"
  by (auto simp: works_def reaches_def tv_sleep_def split_beta)

lemma works_ydo:
  assumes "works m ui rows"
  shows "\<exists>s'. ydo m script s = (None, s') \<and> reaches ui s [script] (react rows script (ui (tv_world s))) s'"
proof -
  obtain p w' where e: "ssh_exec m (ssh_argv guevenne (cmd_text (Ydo script))) (tv_world s) = (p, w')"
    by force
  with assms have "run_error p = None" "ui w' = react rows script (ui (tv_world s))"
    unfolding works_def by blast+
  then show ?thesis
    using e by (simp add: ydo_def command_def tv_run_def reaches_def Let_def split_beta del: cmd_text.simps)
qed

lemma works_sweep:
  assumes "ssh_exec m (ssh_argv guevenne (cmd_text (CdpSweep js))) (tv_world s) = (p, w')"
    and "run_error p = None" and "ui w' = ui (tv_world s)"
  shows "\<exists>s'. cdpEvalAll m js s = (Inr (swept p), s') \<and> reaches ui s [] (ui (tv_world s)) s'"
  using assms
  by (simp add: cdpEvalAll_def tv_run_def swept_def reaches_def Let_def split_beta del: cmd_text.simps)

lemma works_range:
  "works m ui rows \<Longrightarrow> reaches ui s [] (ui (tv_world s)) (snd (range_map m xs s))"
  by (auto simp: works_def reaches_def range_map_def split_beta)

lemma first_focus_main:
  assumes "list_all (\<lambda>(t, v). v = [] \<or> t = tgt \<and> v = l) pairs" and "(tgt, l) \<in> set pairs" and "l \<noteq> []"
  shows "first_focus pairs = (l, tgt)"
  using assms by (induction pairs) auto

lemma first_focus_other:
  assumes "list_all (\<lambda>(t, v). t \<noteq> tgt \<or> v = []) pairs"
  shows "fst (first_focus pairs) = [] \<or> snd (first_focus pairs) \<noteq> tgt"
  using assms by (induction pairs) (auto split: if_splits)

lemma works_focus:
  assumes "works m ui rows"
  shows "\<exists>res s'. focusAnywhere m s = (Inr (first_focus res), s') \<and> reaches ui s [] (ui (tv_world s)) s' \<and>
    focus_answer rows (ui (tv_world s)) res"
proof -
  obtain p w' where e: "ssh_exec m (ssh_argv guevenne (cmd_text (CdpSweep focusJS))) (tv_world s) = (p, w')"
    by force
  with assms have ans: "run_error p = None" "ui w' = ui (tv_world s)"
    "focus_answer rows (ui (tv_world s)) (swept p)"
    unfolding works_def by blast+
  from works_sweep [OF e ans(1,2)] obtain s1 where
    s1: "cdpEvalAll m focusJS s = (Inr (swept p), s1)" "reaches ui s [] (ui (tv_world s)) s1" by blast
  let ?r = "range_map m (swept p) s1"
  have "focusAnywhere m s = (Inr (first_focus (fst ?r)), snd ?r)"
    by (simp add: focusAnywhere_def s1 split_beta)
  moreover have "reaches ui s [] (ui (tv_world s)) (snd ?r)"
    using works_range [OF assms, of s1] reaches_quiet [OF s1(2)] reaches_screen [OF s1(2)] by metis
  moreover have "focus_answer rows (ui (tv_world s)) (fst ?r)"
    using ans(3) by (auto simp: focus_answer_def list_all_iff split: screen.splits)
  ultimately show ?thesis by blast
qed

lemma works_readMenu:
  assumes "works m ui rows"
  shows "\<exists>cur s'. readMenu m s = (Inr cur, s') \<and> reaches ui s [] (ui (tv_world s)) s' \<and>
    (if ui (tv_world s) = PowerMenu then Open cur \<and> has cur ''Suspend System'' else \<not> Open cur)"
proof -
  obtain p w' where e: "ssh_exec m (ssh_argv guevenne (cmd_text (CdpSweep menuStateJS))) (tv_world s) = (p, w')"
    by force
  with assms have ans: "run_error p = None" "ui w' = ui (tv_world s)" "menu_answer (ui (tv_world s)) (swept p)"
    unfolding works_def by blast+
  from works_sweep [OF e ans(1,2)] obtain s1 where
    s1: "cdpEvalAll m menuStateJS s = (Inr (swept p), s1)" "reaches ui s [] (ui (tv_world s)) s1" by blast
  let ?r = "range_map m (swept p) s1"
  let ?cur = "case first_open (fst ?r) of Some cur \<Rightarrow> cur | None \<Rightarrow> zero_menu"
  have "readMenu m s = (Inr ?cur, snd ?r)"
    using ans(3) by (auto simp: readMenu_def s1 split_beta menu_answer_def split: option.split)
  moreover have "reaches ui s [] (ui (tv_world s)) (snd ?r)"
    using works_range [OF assms, of s1] reaches_quiet [OF s1(2)] reaches_screen [OF s1(2)] by metis
  moreover have "if ui (tv_world s) = PowerMenu then Open ?cur \<and> has ?cur ''Suspend System'' else \<not> Open ?cur"
    using ans(3) first_open_None [of "fst ?r"] first_open_Some [of "fst ?r"]
    by (fastforce simp: menu_answer_def zero_menu_def Let_def list_all_iff
        split: option.splits if_splits)
  ultimately show ?thesis by blast
qed

section \<open>The operations against it\<close>

lemma works_main_shut:
  assumes "works m ui rows" and "ui (tv_world s) = Shut"
  shows "\<exists>f s'. mainMenuOpen m s = (Inr (False, f), s') \<and> reaches ui s [] Shut s'"
proof -
  from works_focus [OF assms(1), of s] assms(2) obtain res s' where
    F: "focusAnywhere m s = (Inr (first_focus res), s')" "reaches ui s [] Shut s'"
    "focus_answer rows Shut res" by auto
  then have "fst (first_focus res) = [] \<or> snd (first_focus res) \<noteq> mainMenuTarget"
    using first_focus_other [of mainMenuTarget res] by (simp add: focus_answer_def)
  with F show ?thesis by (auto simp: mainMenuOpen_def split_beta)
qed

lemma works_label:
  assumes "works m ui rows" and "ui (tv_world s) = MainMenu i" and "i < length rows" and "[] \<notin> set rows"
  shows "\<exists>s'. focusAnywhere m s = (Inr (rows ! i, mainMenuTarget), s') \<and> reaches ui s [] (MainMenu i) s'"
proof -
  from works_focus [OF assms(1), of s] assms(2) obtain res s' where
    F: "focusAnywhere m s = (Inr (first_focus res), s')" "reaches ui s [] (MainMenu i) s'"
    "focus_answer rows (MainMenu i) res" by auto
  moreover have "rows ! i \<noteq> []" using assms(3,4) nth_mem by metis
  ultimately have "first_focus res = (rows ! i, mainMenuTarget)"
    by (intro first_focus_main) (simp_all add: focus_answer_def)
  with F show ?thesis by auto
qed

lemma works_closeMenus:
  assumes "works m ui rows" and "ui (tv_world s) = Shut"
  shows "\<exists>s'. closeMenus m s = (None, s') \<and> reaches ui s [] Shut s'"
proof -
  from works_readMenu [OF assms(1), of s] assms(2) obtain cur s1 where
    R: "readMenu m s = (Inr cur, s1)" "reaches ui s [] Shut s1" "\<not> Open cur" by auto
  from works_main_shut [OF assms(1) reaches_screen [OF R(2)]] obtain f s2 where
    M: "mainMenuOpen m s1 = (Inr (False, f), s2)" "reaches ui s1 [] Shut s2" by blast
  have "closeMenus m s = (None, s2)"
    unfolding closeMenus_def by (simp add: numeral_eq_Suc R M)
  with reaches_quiet [OF R(2) M(2)] show ?thesis by blast
qed

lemma works_waitMainMenu:
  assumes "works m ui rows" and "ui (tv_world s) = MainMenu i" and "i < length rows" and "[] \<notin> set rows"
  shows "\<exists>s'. waitMainMenu m True timeout s = ((rows ! i, True), s') \<and> reaches ui s [] (MainMenu i) s'"
proof -
  from works_label [OF assms] obtain s' where
    F: "focusAnywhere m s = (Inr (rows ! i, mainMenuTarget), s')" "reaches ui s [] (MainMenu i) s'" by blast
  have "rows ! i \<noteq> []" using assms(3,4) nth_mem by metis
  then have "mainMenuOpen m s = (Inr (True, rows ! i), s')" by (simp add: mainMenuOpen_def F)
  with F(2) show ?thesis by (simp add: waitMainMenu_def wait_main_loop.simps [of m True _ s])
qed

lemma down_not_tab: "key_script [keyDown] \<noteq> shift_tab"
  by code_simp

text \<open>One step of the walk down the main menu.\<close>

lemma works_one_step:
  assumes "works m ui rows" and "Suc i < length rows" and "[] \<notin> set rows"
    and "rows ! i \<noteq> want" and "rows ! Suc i \<noteq> rows ! i" and "ui (tv_world s) = MainMenu i"
  shows "\<exists>s1. reaches ui s [key_script [keyDown]] (MainMenu (Suc i)) s1 \<and>
    step_loop m want keyDown mx (Suc n) sw (rows ! i) s =
      step_loop m want keyDown mx n (sw @ [rows ! i]) (rows ! Suc i) s1"
proof -
  obtain s1 where P: "press m [keyDown] s = (None, s1)"
    and s1: "reaches ui s [key_script [keyDown]] (MainMenu (Suc i)) s1"
    using works_ydo [OF assms(1), of "key_script [keyDown]" s] assms(2,6) key_scripts_differ(2)
    by (auto simp: press_def react_def down_not_tab)
  let ?s2 = "tv_sleep m (700 * 1000000) s1"
  have s2: "reaches ui s [key_script [keyDown]] (MainMenu (Suc i)) ?s2"
    using reaches_quiet [OF s1 works_sleep [OF assms(1)]] reaches_screen [OF s1] by metis
  obtain s3 where F: "focusLabel m ?s2 = (Inr (rows ! Suc i), s3)"
    and s3: "reaches ui ?s2 [] (MainMenu (Suc i)) s3"
    using works_label [OF assms(1) reaches_screen [OF s2] assms(2,3)] by (auto simp: focusLabel_def)
  have "step_loop m want keyDown mx (Suc n) sw (rows ! i) s =
      step_loop m want keyDown mx n (sw @ [rows ! i]) (rows ! Suc i) s3"
    using assms(4,5) P F [simplified] by (simp add: Let_def)
  with reaches_quiet [OF s2 s3] show ?thesis by blast
qed

lemma works_step_loop:
  assumes "works m ui rows" and "k < length rows" and "rows ! k = want" and "[] \<notin> set rows"
    and "\<And>i. i < k \<Longrightarrow> rows ! i \<noteq> want \<and> rows ! Suc i \<noteq> rows ! i"
    and "i \<le> k" and "k - i \<le> n" and "ui (tv_world s) = MainMenu i"
  shows "\<exists>s'. step_loop m want keyDown mx n sw (rows ! i) s =
      (if k - i < n then None else Some (NotReached want mx (sw @ drop i (take k rows))), s') \<and>
    reaches ui s (replicate (k - i) (key_script [keyDown])) (MainMenu k) s'"
  using assms(6-8)
proof (induction n arbitrary: i sw s)
  case 0
  then show ?case using reaches_refl [of ui s] by simp
next
  case (Suc n)
  show ?case
  proof (cases "i = k")
    case True
    then show ?thesis using assms(3) Suc.prems(3) reaches_refl [of ui s] by simp
  next
    case False
    with Suc.prems(1) have i: "i < k" by simp
    have len: "Suc i < length rows" using i assms(2) by linarith
    note at = assms(5) [OF i]
    from works_one_step [OF assms(1) len assms(4) conjunct1 [OF at] conjunct2 [OF at] Suc.prems(3)]
    obtain s1 where s1: "reaches ui s [key_script [keyDown]] (MainMenu (Suc i)) s1"
      and step: "step_loop m want keyDown mx (Suc n) sw (rows ! i) s =
        step_loop m want keyDown mx n (sw @ [rows ! i]) (rows ! Suc i) s1" by blast
    have "k - Suc i \<le> n" using i Suc.prems(2) by linarith
    from Suc.IH [OF _ this reaches_screen [OF s1], of "sw @ [rows ! i]"] i
    obtain s' where L: "step_loop m want keyDown mx n (sw @ [rows ! i]) (rows ! Suc i) s1 =
        (if k - Suc i < n then None
         else Some (NotReached want mx ((sw @ [rows ! i]) @ drop (Suc i) (take k rows))), s')"
      and s': "reaches ui s1 (replicate (k - Suc i) (key_script [keyDown])) (MainMenu k) s'" by auto
    have "reaches ui s (replicate (k - i) (key_script [keyDown])) (MainMenu k) s'"
      using reaches_trans [OF s1 s'] i by (simp add: Suc_diff_Suc flip: replicate_Suc)
    moreover have "drop i (take k rows) = rows ! i # drop (Suc i) (take k rows)"
      using i assms(2) Cons_nth_drop_Suc [of i "take k rows"] by simp
    moreover have "k - Suc i < n \<longleftrightarrow> k - i < Suc n" using i by linarith
    ultimately show ?thesis unfolding step L by (intro exI [of _ s']) simp
  qed
qed

lemma works_stepToLabel:
  assumes "works m ui rows" and "k < length rows" and "rows ! k = want" and "[] \<notin> set rows"
    and "\<And>i. i < k \<Longrightarrow> rows ! i \<noteq> want \<and> rows ! Suc i \<noteq> rows ! i"
    and "k \<le> nat mx" and "ui (tv_world s) = MainMenu 0"
  shows "\<exists>s'. stepToLabel m want keyDown mx s =
      (if k < nat mx then None else Some (NotReached want mx (take k rows)), s') \<and>
    reaches ui s (replicate k (key_script [keyDown])) (MainMenu k) s'"
proof -
  have "0 < length rows" using assms(2) by linarith
  then obtain s1 where F: "focusLabel m s = (Inr (rows ! 0), s1)" and s1: "reaches ui s [] (MainMenu 0) s1"
    using works_label [OF assms(1) assms(7) _ assms(4)] by (auto simp: focusLabel_def)
  from works_step_loop [OF assms(1-5) le0 _ reaches_screen [OF s1], of "nat mx" mx "[]"] assms(6)
  obtain s' where L: "step_loop m want keyDown mx (nat mx) [] (rows ! 0) s1 =
      (if k < nat mx then None else Some (NotReached want mx (take k rows)), s')"
    and s': "reaches ui s1 (replicate k (key_script [keyDown])) (MainMenu k) s'" by auto
  from reaches_trans [OF s1 s'] show ?thesis by (simp add: stepToLabel_def F L)
qed

lemma works_activateRow:
  assumes "works m ui rows" and "ui (tv_world s) = MainMenu k" and "k < length rows" and "[] \<notin> set rows"
    and "rows ! k = ''Power''"
  shows "\<exists>s'. activateRow m ''Power'' s = (None, s') \<and> reaches ui s [key_script [keyEnter]] PowerMenu s'"
proof -
  obtain s1 where F: "focusLabel m s = (Inr ''Power'', s1)" and s1: "reaches ui s [] (MainMenu k) s1"
    using works_label [OF assms(1-4)] assms(5) by (auto simp: focusLabel_def)
  have "react rows (key_script [keyEnter]) (MainMenu k) = PowerMenu"
    using key_scripts_differ assms(5) by (auto simp: react_def)
  then obtain s2 where "press m [keyEnter] s1 = (None, s2)" "reaches ui s1 [key_script [keyEnter]] PowerMenu s2"
    using works_ydo [OF assms(1), of "key_script [keyEnter]" s1] reaches_screen [OF s1]
    by (auto simp: press_def)
  with reaches_trans [OF s1] show ?thesis by (auto simp: activateRow_def F)
qed

lemma works_waitMenu:
  assumes "works m ui rows" and "ui (tv_world s) = PowerMenu"
  shows "\<exists>cur s'. waitMenu m (\<lambda>cur. Open cur \<and> has cur ''Suspend System'') timeout s = ((cur, True), s') \<and>
    Open cur \<and> has cur ''Suspend System'' \<and> reaches ui s [] PowerMenu s'"
proof -
  from works_readMenu [OF assms(1), of s] assms(2) obtain cur s' where
    "readMenu m s = (Inr cur, s')" "reaches ui s [] PowerMenu s'" "Open cur" "has cur ''Suspend System''"
    by auto
  then show ?thesis
    by (auto simp: waitMenu_def value_or_def Let_def
        wait_menu_loop.simps [of m "\<lambda>cur. Open cur \<and> has cur ''Suspend System''" _ zero_menu s])
qed

lemma works_power_attempt:
  assumes "works m ui rows" and "ui (tv_world s) = Shut" and "[] \<notin> set rows"
    and "k < length rows" and "k < 12" and "rows ! k = ''Power''"
    and "\<And>i. i < k \<Longrightarrow> rows ! i \<noteq> ''Power'' \<and> rows ! Suc i \<noteq> rows ! i"
  shows "\<exists>cur s'. power_attempt m s = (Inr (Inr cur), s') \<and> Open cur \<and> has cur ''Suspend System'' \<and>
    reaches ui s (shift_tab # replicate k (key_script [keyDown]) @ [key_script [keyEnter]]) PowerMenu s'"
proof -
  obtain s0 where Y: "ydo m shift_tab s = (None, s0)" and s0: "reaches ui s [shift_tab] (MainMenu 0) s0"
    using works_ydo [OF assms(1), of shift_tab s] assms(2) by (auto simp: react_def)
  have "0 < length rows" using assms(4) by linarith
  from works_waitMainMenu [OF assms(1) reaches_screen [OF s0] this assms(3), of "6 * Second"]
  obtain s1 where W: "waitMainMenu m True (6 * Second) s0 = ((rows ! 0, True), s1)"
    and s1: "reaches ui s0 [] (MainMenu 0) s1" by blast
  from works_stepToLabel [OF assms(1,4,6,3,7) _ reaches_screen [OF s1], of 12] assms(5)
  obtain s3 where S: "stepToLabel m ''Power'' keyDown 12 s1 = (None, s3)"
    and s3: "reaches ui s1 (replicate k (key_script [keyDown])) (MainMenu k) s3" by auto
  from works_activateRow [OF assms(1) reaches_screen [OF s3] assms(4,3,6)]
  obtain s4 where A: "activateRow m ''Power'' s3 = (None, s4)"
    and s4: "reaches ui s3 [key_script [keyEnter]] PowerMenu s4" by blast
  from works_waitMenu [OF assms(1) reaches_screen [OF s4], of "8 * Second"] obtain cur s5 where
    M: "waitMenu m (\<lambda>cur. Open cur \<and> has cur ''Suspend System'') (8 * Second) s4 = ((cur, True), s5)"
    and cur: "Open cur" "has cur ''Suspend System''" and s5: "reaches ui s4 [] PowerMenu s5" by blast
  have "power_attempt m s = (Inr (Inr cur), s5)"
    by (simp add: power_attempt_def Y W [simplified] S A M [simplified])
  moreover have "reaches ui s (shift_tab # replicate k (key_script [keyDown]) @ [key_script [keyEnter]]) PowerMenu s5"
    using reaches_quiet [OF reaches_trans [OF reaches_trans [OF reaches_quiet [OF s0 s1] s3] s4] s5] by simp
  ultimately show ?thesis using cur by blast
qed

lemma openPowerMenu_works:
  assumes "works m ui rows" and "ui (tv_world s) = Shut" and "[] \<notin> set rows"
    and "k < length rows" and "k < 12" and "rows ! k = ''Power''"
    and "\<And>i. i < k \<Longrightarrow> rows ! i \<noteq> ''Power'' \<and> rows ! Suc i \<noteq> rows ! i"
  shows "\<exists>cur s'. openPowerMenu m s = (Inr cur, s') \<and> Open cur \<and> has cur ''Suspend System'' \<and>
    reaches ui s (shift_tab # replicate k (key_script [keyDown]) @ [key_script [keyEnter]]) PowerMenu s'"
proof -
  obtain s1 where C: "closeMenus m s = (None, s1)" and s1: "reaches ui s [] Shut s1"
    using works_closeMenus [OF assms(1,2)] by blast
  from works_power_attempt [OF assms(1) reaches_screen [OF s1] assms(3-7)] obtain cur s' where
    A: "power_attempt m s1 = (Inr (Inr cur), s')" "Open cur" "has cur ''Suspend System''"
    and s': "reaches ui s1 (shift_tab # replicate k (key_script [keyDown]) @ [key_script [keyEnter]]) PowerMenu s'"
    by blast
  have "openPowerMenu m s = (Inr cur, s')"
    by (simp add: openPowerMenu_def C numeral_eq_Suc A)
  with A reaches_trans [OF s1 s'] show ?thesis by auto
qed

section \<open>A machine that has such an interface\<close>

text \<open>
  The world is the screen, as a number; a sweep answers with one line from one target, and
  a key script is read off the command it comes in.
\<close>

definition screen_of :: "nat \<Rightarrow> screen" where
  "screen_of n = (if n = 0 then Shut else if n = 1 then MainMenu 0 else if n = 2 then MainMenu 1 else PowerMenu)"

definition number_of :: "screen \<Rightarrow> nat" where
  "number_of scr = (case scr of Shut \<Rightarrow> 0 | MainMenu i \<Rightarrow> if i = 0 then 1 else 2 | PowerMenu \<Rightarrow> 3)"

definition reply :: "string \<Rightarrow> string \<Rightarrow> process" where
  \<open>reply tgt v =
     \<lparr>proc_out = tgt @ [CHR 0x09] @ ''{"result":{"result":{"value":"'' @ v @ ''"}}}'' @ [newline],
      proc_err = [], run_error = None, deadline_passed = False, elapsed = 1\<rparr>\<close>

definition power_json :: string where
  "power_json =
     (let q = [CHR 0x5C, CHR 0x22] in
      ''{'' @ q @ ''open'' @ q @ '':true,'' @ q @ ''rows'' @ q @ '':['' @ q @ ''Suspend System'' @ q @ '']}'')"

definition script_in :: "string list \<Rightarrow> string" where
  "script_in argv =
     butlast (drop (length ''export YDOTOOL_SOCKET=/tmp/ydotool.sock DISPLAY=:0; nix shell nixpkgs#ydotool -c sh -c '' + 1)
       (last argv))"

definition screen_tv :: "nat tv_machine" where
  "screen_tv =
     \<lparr>ssh_exec = (\<lambda>argv n.
        if argv = ssh_argv guevenne (cmd_text (CdpSweep focusJS)) then
          (if n = 1 then reply mainMenuTarget ''Home'' else if n = 2 then reply mainMenuTarget ''Power''
           else reply ''Big Picture'' ''Play'', n)
        else if argv = ssh_argv guevenne (cmd_text (CdpSweep menuStateJS)) then
          (if n > 2 then reply ''Big Picture'' power_json else reply ''Big Picture'' [], n)
        else (reply [] [], number_of (react [''Home'', ''Power''] (script_in argv) (screen_of n)))),
      oversleep = (\<lambda>d n. (0, n)), map_seed = (\<lambda>n. ([], n))\<rparr>"

lemma reply_fine [simp]: "run_error (reply tgt v) = None"
  by (simp add: reply_def)

lemma replies:
  "swept (reply mainMenuTarget ''Home'') = [(mainMenuTarget, ''Home'')]"
  "swept (reply mainMenuTarget ''Power'') = [(mainMenuTarget, ''Power'')]"
  "swept (reply ''Big Picture'' ''Play'') = [(''Big Picture'', ''Play'')]"
  "swept (reply ''Big Picture'' []) = [(''Big Picture'', [])]"
  "map (\<lambda>(t, v). decode_menu v) (swept (reply ''Big Picture'' power_json)) =
     [Some \<lparr>Open = True, Title = [], Rows = [''Suspend System''], Focused = []\<rparr>]"
  "decode_menu [] = None"
  "''Big Picture'' \<noteq> mainMenuTarget"
  by code_simp+

lemma ydo_is_no_sweep: "cmd_text (Ydo script) \<noteq> cmd_text (CdpSweep js)"
  by simp

lemma script_in_ydo: "script_in (ssh_argv host (cmd_text (Ydo script))) = script"
  by (simp add: script_in_def ssh_argv_def quoted_def)

lemma sweeps_differ: "ssh_argv h (cmd_text (CdpSweep menuStateJS)) \<noteq> ssh_argv h (cmd_text (CdpSweep focusJS))"
proof -
  have "length menuStateJS \<noteq> length focusJS" by code_simp
  then show ?thesis using CdpSweep_inject [of menuStateJS focusJS] by (auto simp: ssh_argv_def simp del: cmd_text.simps)
qed

lemma react_screens:
  "screen_of (number_of (react [''Home'', ''Power''] script (screen_of n))) =
   react [''Home'', ''Power''] script (screen_of n)"
  by (auto simp: react_def screen_of_def number_of_def)

lemma screen_tv_works: "works screen_tv screen_of [''Home'', ''Power'']"
  unfolding works_def
proof (intro conjI allI impI)
  fix w p w' assume e: "ssh_exec screen_tv (ssh_argv guevenne (cmd_text (CdpSweep focusJS))) w = (p, w')"
  then have "w' = w" and p: "p = (if w = 1 then reply mainMenuTarget ''Home''
      else if w = 2 then reply mainMenuTarget ''Power'' else reply ''Big Picture'' ''Play'')"
    by (auto simp: screen_tv_def simp del: cmd_text.simps)
  then show "run_error p = None" "screen_of w' = screen_of w"
    "focus_answer [''Home'', ''Power''] (screen_of w) (swept p)"
    by (auto simp: focus_answer_def screen_of_def replies)
next
  fix w p w' assume e: "ssh_exec screen_tv (ssh_argv guevenne (cmd_text (CdpSweep menuStateJS))) w = (p, w')"
  then have "w' = w" and p: "p = (if w > 2 then reply ''Big Picture'' power_json else reply ''Big Picture'' [])"
    using sweeps_differ by (auto simp: screen_tv_def simp del: cmd_text.simps)
  moreover have "swept (reply ''Big Picture'' power_json) \<noteq> []"
    using replies(5) by auto
  ultimately show "run_error p = None" "screen_of w' = screen_of w" "menu_answer (screen_of w) (swept p)"
    using replies(4-6) by (auto simp: menu_answer_def screen_of_def has_iff)
next
  fix script w p w' assume e: "ssh_exec screen_tv (ssh_argv guevenne (cmd_text (Ydo script))) w = (p, w')"
  then have "p = reply [] []" "w' = number_of (react [''Home'', ''Power''] script (screen_of w))"
    using ydo_is_no_sweep script_in_ydo [of guevenne script]
    by (auto simp: screen_tv_def ssh_argv_def simp del: cmd_text.simps)
  then show "run_error p = None" "screen_of w' = react [''Home'', ''Power''] script (screen_of w)"
    by (simp_all add: react_screens)
qed (simp_all add: screen_tv_def)

section \<open>The property\<close>



text \<open>
  C30: A walk may not use its last step: against the same interface, when the wanted row is
  exactly \<open>maxSteps\<close> rows below the focus, \<open>stepToLabel\<close> presses the key \<open>maxSteps\<close> times,
  brings the focus to the row, and reports that it did not reach it.
\<close>

theorem stepToLabel_misses_the_last_step:
  assumes "works m ui rows" and "ui (tv_world s) = MainMenu 0" and "[] \<notin> set rows"
    and "k < length rows" and "rows ! k = want"
    and "\<forall>i < k. rows ! i \<noteq> want \<and> rows ! Suc i \<noteq> rows ! i"
  shows "fst (stepToLabel m want keyDown (int k) s) = Some (NotReached want (int k) (take k rows)) \<and>
    ui (tv_world (snd (stepToLabel m want keyDown (int k) s))) = MainMenu k"
  using works_stepToLabel [OF assms(1,4,5,3) _ _ assms(2), of "int k"] assms(6)
  by (auto simp: reaches_def)

theorem stepToLabel_misses_the_last_step_witness:
  "fst (stepToLabel screen_tv ''Power'' keyDown (int 1) \<lparr>tv_world = 1, tv_clock = 0, tv_log = []\<rparr>) =
      Some (NotReached ''Power'' (int 1) (take 1 [''Home'', ''Power''])) \<and>
    screen_of (tv_world (snd (stepToLabel screen_tv ''Power'' keyDown (int 1)
      \<lparr>tv_world = 1, tv_clock = 0, tv_log = []\<rparr>))) = MainMenu 1"
  by (rule stepToLabel_misses_the_last_step [OF screen_tv_works]) (simp_all add: screen_of_def)

end
