(* ===== verification/Json_Print.thy ===== *)
theory Json_Print
  imports Json
begin

text \<open>
  A printer for JSON and the proof that the reader of \<open>Json\<close> gives back what it printed. The
  printer is what the producers at the other end do (\<open>nix eval --json\<close>, \<open>JSON.stringify\<close> and
  the debugging protocol of the browser): no white space, quotes, backslashes and control
  characters escaped, every other byte as it is, numbers as plain numerals.
\<close>

section \<open>The printer\<close>

definition hex_digit :: "nat \<Rightarrow> char" where
  "hex_digit n = ''0123456789abcdef'' ! n"

definition escape :: "char \<Rightarrow> string" where
  "escape c =
     (if c = CHR 0x22 then [CHR 0x5C, CHR 0x22]
      else if c = CHR 0x5C then [CHR 0x5C, CHR 0x5C]
      else if c = CHR 0x08 then [CHR 0x5C, CHR ''b'']
      else if c = CHR 0x0C then [CHR 0x5C, CHR ''f'']
      else if c = CHR 0x0A then [CHR 0x5C, CHR ''n'']
      else if c = CHR 0x0D then [CHR 0x5C, CHR ''r'']
      else if c = CHR 0x09 then [CHR 0x5C, CHR ''t'']
      else if (of_char c :: nat) < 0x20 then
        [CHR 0x5C, CHR ''u'', CHR ''0'', CHR ''0'',
         hex_digit (of_char c div 16), hex_digit (of_char c mod 16)]
      else [c])"

definition print_string :: "string \<Rightarrow> string" where
  "print_string s = CHR 0x22 # concat (map escape s) @ [CHR 0x22]"

fun print_json :: "json \<Rightarrow> string"
  and print_elems :: "json list \<Rightarrow> string"
  and print_members :: "(string \<times> json) list \<Rightarrow> string" where
  "print_json JNull = ''null''"
| "print_json (JBool b) = (if b then ''true'' else ''false'')"
| "print_json (JNum lit) = lit"
| "print_json (JStr s) = print_string s"
| "print_json (JArr vs) = CHR ''['' # print_elems vs"
| "print_json (JObj ms) = CHR ''{'' # print_members ms"
| "print_elems [] = '']''"
| "print_elems (v # vs) = print_json v @ (if vs = [] then '']'' else CHR '','' # print_elems vs)"
| "print_members [] = ''}''"
| "print_members ((k, v) # ms) =
     print_string k @ CHR '':'' # print_json v @ (if ms = [] then ''}'' else CHR '','' # print_members ms)"

text \<open>Values whose numbers are numerals.\<close>

definition numeral_ok :: "string \<Rightarrow> bool" where
  "numeral_ok lit \<longleftrightarrow> lit \<noteq> [] \<and> list_all is_digit lit \<and> (hd lit = CHR ''0'' \<longrightarrow> tl lit = [])"

fun printable :: "json \<Rightarrow> bool" where
  "printable (JNum lit) = numeral_ok lit"
| "printable (JArr vs) = list_all printable vs"
| "printable (JObj ms) = list_all (\<lambda>(k, v). printable v) ms"
| "printable _ = True"

section \<open>Strings\<close>

lemma hex_val_digit:
  assumes "n < 16"
  shows "hex_val (hex_digit n) = Some n"
proof -
  have "index_of (hex_digit n) ''0123456789abcdef'' = Some n"
    unfolding hex_digit_def by (rule index_of_nth) (use assms in simp_all)
  then show ?thesis by (simp only: hex_val_def option.case)
qed

lemma string_body_escape:
  "string_body (escape c @ t) = map_option (apfst ((#) c)) (string_body t)"
proof -
  let ?n = "of_char c :: nat"
  have "string_body (CHR 0x5C # CHR ''u'' # CHR ''0'' # CHR ''0'' # hex_digit (?n div 16) # hex_digit (?n mod 16) # t)
      = map_option (apfst ((#) c)) (string_body t)" if "?n < 0x20"
  proof -
    have "hex_val (CHR ''0'') = Some 0" by (simp add: hex_val_def)
    moreover have "hex_val (hex_digit (?n div 16)) = Some (?n div 16)"
      "hex_val (hex_digit (?n mod 16)) = Some (?n mod 16)"
      using that by (simp_all add: hex_val_digit)
    ultimately have "hex4 (CHR ''0'' # CHR ''0'' # hex_digit (?n div 16) # hex_digit (?n mod 16) # t) = Some ?n"
      by simp
    moreover have "utf8 ?n = [c]" using that by (simp add: utf8_def byte_def)
    ultimately show ?thesis
      using that by (subst string_body.simps) (simp add: escape_char_def apfst_def map_prod_def split_beta')
  qed
  then show ?thesis
    by (auto simp: escape_def string_body.simps [of "CHR 0x5C # _"] string_body.simps [of "c # _"] escape_char_def)
qed

lemma string_body_print:
  "string_body (concat (map escape s) @ CHR 0x22 # rest) = Some (s, rest)"
proof (induction s)
  case Nil
  show ?case by (simp add: string_body.simps [of "CHR 0x22 # _"])
next
  case (Cons c s)
  then show ?case by (simp add: string_body_escape)
qed

section \<open>Numbers\<close>

text \<open>What may follow a numeral: anything that does not continue it.\<close>

definition stops :: "string \<Rightarrow> bool" where
  "stops rest = (case rest of [] \<Rightarrow> True | c # _ \<Rightarrow> \<not> is_digit c \<and> c \<notin> {CHR ''.'', CHR ''e'', CHR ''E''})"

lemma stops_simps [simp]:
  "stops []" "stops (CHR '','' # t)" "stops (CHR '']'' # t)" "stops (CHR ''}'' # t)"
  by (simp_all add: stops_def is_digit_def)

lemma digits_stops: "list_all is_digit ds \<Longrightarrow> stops rest \<Longrightarrow> digits (ds @ rest) = (ds, rest)"
  by (auto simp: digits_def stops_def list_all_iff split: list.splits)

lemma number_print:
  assumes "numeral_ok lit" and "stops rest"
  shows "number (lit @ rest) = Some (lit, rest)"
proof -
  obtain c ds where lit: "lit = c # ds" using assms(1) by (cases lit) (auto simp: numeral_ok_def)
  have c: "is_digit c" "c \<noteq> CHR ''-''" using assms(1) lit by (auto simp: numeral_ok_def is_digit_def)
  have "int_part (lit @ rest) = Some (lit, rest)"
    using assms lit c digits_stops [of lit rest] by (auto simp: int_part_def numeral_ok_def)
  moreover have "frac_part rest = Some ([], rest)" "exp_part rest = Some ([], rest)"
    using assms(2) by (auto simp: frac_part_def exp_part_def stops_def split: list.split)
  ultimately show ?thesis using lit c by (simp add: number_def)
qed

section \<open>Values\<close>

text \<open>The fuel a value needs is at most the length of its text.\<close>

fun need :: "json \<Rightarrow> nat"
  and needs :: "json list \<Rightarrow> nat"
  and needs_members :: "(string \<times> json) list \<Rightarrow> nat" where
  "need (JArr vs) = 1 + needs vs"
| "need (JObj ms) = 1 + needs_members ms"
| "need JNull = 1"
| "need (JBool b) = 1"
| "need (JNum lit) = 1"
| "need (JStr s) = 1"
| "needs [] = 0"
| "needs (v # vs) = 1 + max (need v) (needs vs)"
| "needs_members [] = 0"
| "needs_members ((k, v) # ms) = 1 + max (need v) (needs_members ms)"

lemma need_length:
  "printable v \<Longrightarrow> need v \<le> length (print_json v)"
  "list_all printable vs \<Longrightarrow> needs vs \<le> length (print_elems vs)"
  "list_all (\<lambda>(k, v). printable v) ms \<Longrightarrow> needs_members ms \<le> length (print_members ms)"
proof (induction v and vs and ms rule: print_json_print_elems_print_members.induct)
  case (3 lit)
  then show ?case by (cases lit) (auto simp: numeral_ok_def)
qed (auto simp: print_string_def)

text \<open>The first byte of a text.\<close>

lemma print_json_first:
  assumes "printable v"
  obtains c t where "print_json v = c # t" "\<not> json_space c" "c \<noteq> CHR '']''"
proof (cases v)
  case (JNum lit)
  then show ?thesis using assms that
    by (cases lit) (auto simp: numeral_ok_def is_digit_def json_space_def)
next
  case (JBool b)
  then show ?thesis using that by (cases b) (auto simp: json_space_def)
qed (use that in \<open>auto simp: print_string_def json_space_def\<close>)

lemma skip_ws_first: "\<not> json_space c \<Longrightarrow> skip_ws (c # t) = c # t"
  by (simp add: skip_ws_def)

lemma skip_ws_punctuation [simp]:
  "skip_ws (CHR 0x22 # t) = CHR 0x22 # t" "skip_ws (CHR ''{'' # t) = CHR ''{'' # t"
  "skip_ws (CHR ''['' # t) = CHR ''['' # t" "skip_ws (CHR ''}'' # t) = CHR ''}'' # t"
  "skip_ws (CHR '']'' # t) = CHR '']'' # t" "skip_ws (CHR '','' # t) = CHR '','' # t"
  "skip_ws (CHR '':'' # t) = CHR '':'' # t" "skip_ws (CHR ''n'' # t) = CHR ''n'' # t"
  "skip_ws (CHR ''t'' # t) = CHR ''t'' # t" "skip_ws (CHR ''f'' # t) = CHR ''f'' # t" "skip_ws [] = []"
  by (simp_all add: skip_ws_def json_space_def)

lemma skip_ws_print: "printable v \<Longrightarrow> skip_ws (print_json v @ t) = print_json v @ t"
  by (erule print_json_first) (simp add: skip_ws_first)

lemma parse_string_print:
  "parse_value (Suc n) (print_string s @ rest) = Some (JStr s, rest)"
  using string_body_print [of s rest] by (simp add: print_string_def)

lemma parse_number_print:
  assumes "numeral_ok lit" and "stops rest"
  shows "parse_value (Suc n) (lit @ rest) = Some (JNum lit, rest)"
proof -
  obtain c ds where lit: "lit = c # ds" using assms(1) by (cases lit) (auto simp: numeral_ok_def)
  have "is_digit c" using assms(1) lit by (simp add: numeral_ok_def)
  then have "\<not> json_space c" "c \<notin> {CHR 0x22, CHR ''{'', CHR ''['', CHR ''t'', CHR ''f'', CHR ''n''}"
    by (auto simp: is_digit_def json_space_def)
  then show ?thesis using number_print [OF assms] lit by (simp add: skip_ws_first)
qed

lemma parse_print:
  "need v \<le> n \<Longrightarrow> printable v \<Longrightarrow> stops rest \<Longrightarrow> parse_value n (print_json v @ rest) = Some (v, rest)"
  "vs \<noteq> [] \<Longrightarrow> needs vs \<le> n \<Longrightarrow> list_all printable vs \<Longrightarrow>
   parse_elems n (print_elems vs @ rest) = Some (vs, rest)"
  "ms \<noteq> [] \<Longrightarrow> needs_members ms \<le> n \<Longrightarrow> list_all (\<lambda>(k, v). printable v) ms \<Longrightarrow>
   parse_members n (print_members ms @ rest) = Some (ms, rest)"
proof (induction v and vs and ms arbitrary: n rest and n rest and n rest
    rule: print_json_print_elems_print_members.induct)
  case (1 n)
  then show ?case by (cases n) (simp_all add: literal_def)
next
  case (2 b n)
  then show ?case by (cases n; cases b) (simp_all add: literal_def)
next
  case (3 lit n)
  then show ?case by (cases n) (simp_all add: parse_number_print del: parse_value.simps)
next
  case (4 s n)
  then show ?case by (cases n) (simp_all add: parse_string_print del: parse_value.simps)
next
  case (5 vs n)
  then obtain k where n: "n = Suc k" by (cases n) auto
  show ?case
  proof (cases vs)
    case Nil
    then show ?thesis by (simp add: n)
  next
    case (Cons v ws)
    then obtain c t where first: "print_json v = c # t" "\<not> json_space c" "c \<noteq> CHR '']''"
      using 5(3) print_json_first [of v] by auto
    have "parse_elems k (print_elems vs @ rest) = Some (vs, rest)"
      using 5 Cons n by simp
    then show ?thesis using first by (simp add: n Cons skip_ws_first)
  qed
next
  case (6 ms n)
  then obtain k where n: "n = Suc k" by (cases n) auto
  show ?case
  proof (cases ms)
    case Nil
    then show ?thesis by (simp add: n)
  next
    case (Cons m ns)
    have "parse_members k (print_members ms @ rest) = Some (ms, rest)"
      using 6 Cons n by simp
    then show ?thesis by (cases m) (simp add: n Cons print_string_def)
  qed
next
  case (7 n)
  then show ?case by simp
next
  case (8 v vs n)
  then obtain k where n: "n = Suc k" "need v \<le> k" "needs vs \<le> k" by (cases n) auto
  have "parse_value k (print_json v @ t) = Some (v, t)" if "stops t" for t
    using 8 n that by simp
  then show ?case using 8 n by (cases "vs = []") simp_all
next
  case (9 n)
  then show ?case by simp
next
  case (10 key v ms n)
  then obtain k where n: "n = Suc k" "need v \<le> k" "needs_members ms \<le> k" by (cases n) auto
  have "parse_value k (print_json v @ t) = Some (v, t)" if "stops t" for t
    using 10 n that by simp
  then show ?case using 10 n string_body_print [of key]
    by (cases "ms = []") (simp_all add: print_string_def)
qed

text \<open>Reading gives back what was printed.\<close>

lemma parse_json_print: "printable v \<Longrightarrow> parse_json (print_json v) = Some v"
  using parse_print(1) [of v "2 * length (print_json v) + 2" "[]"] need_length(1) [of v]
  by (simp add: parse_json_def del: parse_value.simps)

lemma Unmarshal_print: "printable v \<Longrightarrow> Unmarshal dec a (print_json v) = dec a v"
  by (simp add: Unmarshal_def parse_json_print)

text \<open>A printed text is one line without tabs.\<close>

lemma escape_no_control: "c \<in> set (escape d) \<Longrightarrow> (0x20 :: nat) \<le> of_char c"
proof -
  have "(0x20 :: nat) \<le> of_char (hex_digit n)" if "n < 16" for n
  proof -
    have "hex_digit n \<in> set ''0123456789abcdef''" unfolding hex_digit_def by (rule nth_mem) (use that in simp)
    then show ?thesis by auto
  qed
  then show "c \<in> set (escape d) \<Longrightarrow> (0x20 :: nat) \<le> of_char c"
    by (auto simp: escape_def split: if_splits)
qed

lemma print_no_control:
  "printable v \<Longrightarrow> list_all (\<lambda>c. (0x20 :: nat) \<le> of_char c) (print_json v)"
  "list_all printable vs \<Longrightarrow> list_all (\<lambda>c. (0x20 :: nat) \<le> of_char c) (print_elems vs)"
  "list_all (\<lambda>(k, v). printable v) ms \<Longrightarrow> list_all (\<lambda>c. (0x20 :: nat) \<le> of_char c) (print_members ms)"
proof (induction v and vs and ms rule: print_json_print_elems_print_members.induct)
  case (3 lit)
  have "is_digit c \<Longrightarrow> (0x20 :: nat) \<le> of_char c" for c by (auto simp: is_digit_def)
  then show ?case using 3 by (auto simp: numeral_ok_def list_all_iff)
next
  case (4 s)
  show ?case by (auto simp: print_string_def list_all_iff intro: escape_no_control)
next
  case (10 k v ms)
  have "list_all (\<lambda>c. (0x20 :: nat) \<le> of_char c) (print_string k)"
    by (auto simp: print_string_def list_all_iff intro: escape_no_control)
  with 10 show ?case by auto
qed auto

end
