(* ===== verification/Wire.thy ===== *)
theory Wire
  imports Tv_Shell Build Json_Print
begin

text \<open>
  What comes back over the wire is what was sent: the replies the program reads (the store
  paths of \<open>nix eval\<close>, the state of a menu that \<open>menuStateJS\<close> stringifies, the envelopes of the
  browser's debugging protocol, and the tab-separated lines of a sweep) are decoded to the
  values they were printed from.
\<close>

section \<open>The messages\<close>

definition toplevel_json :: "toplevel \<Rightarrow> json" where
  "toplevel_json t = JObj [(''drv'', JStr (Drv t)), (''out'', JStr (Out t))]"

definition menu_json :: "menu_state \<Rightarrow> json" where
  "menu_json m = JObj [(''open'', JBool (Open m)), (''title'', JStr (Title m)),
     (''rows'', JArr (map JStr (Rows m))), (''focused'', JStr (Focused m))]"

definition envelope_json :: "string \<Rightarrow> json" where
  "envelope_json v = JObj [(''id'', JNum ''1''), (''result'',
     JObj [(''result'', JObj [(''type'', JStr ''string''), (''value'', JStr v)])])]"

definition sweep_line :: "string \<times> string \<Rightarrow> string" where
  "sweep_line x = fst x @ CHR 0x09 # print_json (envelope_json (snd x))"

lemma keys:
  "key_is ''drv'' ''drv''" "key_is ''out'' ''out''" "\<not> key_is ''drv'' ''out''"
  "key_is ''open'' ''open''" "key_is ''title'' ''title''" "key_is ''rows'' ''rows''"
  "key_is ''focused'' ''focused''" "\<not> key_is ''open'' ''title''" "\<not> key_is ''open'' ''rows''"
  "\<not> key_is ''open'' ''focused''" "\<not> key_is ''title'' ''rows''" "\<not> key_is ''title'' ''focused''"
  "\<not> key_is ''rows'' ''focused''" "key_is ''result'' ''result''" "\<not> key_is ''result'' ''id''"
  "key_is ''value'' ''value''" "\<not> key_is ''value'' ''type''"
  by code_simp+

lemma decode_toplevel_print: "decode_toplevel (print_json (toplevel_json t)) = Some t"
proof -
  have "printable (toplevel_json t)" by (simp add: toplevel_json_def)
  then show ?thesis
    by (simp add: decode_toplevel_def Unmarshal_print)
      (simp add: toplevel_json_def decode_struct_def toplevel_member_def keys decode_string_def)
qed

lemma decode_rows: "decode_all (decode_string []) (map JStr rs) = Some rs"
  by (induction rs) (simp_all add: decode_string_def)

lemma decode_menu_print: "decode_menu (print_json (menu_json m)) = Some m"
proof -
  have "printable (menu_json m)" by (simp add: menu_json_def list_all_iff)
  then show ?thesis
    by (simp add: decode_menu_def Unmarshal_print)
      (simp add: menu_json_def decode_struct_def menu_field_def keys decode_string_def decode_bool_def
        decode_list_def decode_rows)
qed

lemma printable_envelope: "printable (envelope_json v)"
  by (simp add: envelope_json_def numeral_ok_def is_digit_def)

lemma cdpEnvelope_print: "cdpEnvelope (print_json (envelope_json v)) = Some v"
  by (simp add: cdpEnvelope_def Unmarshal_print printable_envelope)
    (simp add: envelope_json_def decode_struct_def outer_result_def inner_result_def value_field_def
      keys decode_string_def)

section \<open>The lines of a sweep\<close>

lemma envelope_line:
  "newline \<notin> set (print_json (envelope_json v))" "CHR 0x09 \<notin> set (print_json (envelope_json v))"
  "print_json (envelope_json v) \<noteq> []" "last (print_json (envelope_json v)) = CHR ''}''"
proof -
  have "list_all (\<lambda>c. (0x20 :: nat) \<le> of_char c) (print_json (envelope_json v))"
    by (rule print_no_control(1) [OF printable_envelope])
  then show "newline \<notin> set (print_json (envelope_json v))" "CHR 0x09 \<notin> set (print_json (envelope_json v))"
    by (auto simp: list_all_iff)
qed (simp_all add: envelope_json_def)

lemma sweep_lines_print:
  assumes "\<forall>x \<in> set xs. CHR 0x09 \<notin> set (fst x)" and "distinct (map fst (acc @ xs))"
  shows "sweep_lines acc (map sweep_line xs) = acc @ xs"
  using assms
proof (induction xs arbitrary: acc)
  case (Cons x xs)
  obtain t v where x: "x = (t, v)" by force
  have cut: "Cut (sweep_line x) (CHR 0x09) = Some (t, print_json (envelope_json v))"
    using Cons.prems(1) IndexByte_first [of "CHR 0x09" t "print_json (envelope_json v)"]
    by (simp add: Cut_def sweep_line_def x)
  have new: "AList.update t v acc = acc @ [(t, v)]"
    using Cons.prems(2) x by (induction acc) auto
  have "sweep_lines (acc @ [x]) (map sweep_line xs) = (acc @ [x]) @ xs"
    using Cons by simp
  then show ?case using cut by (simp add: envelope_line cdpEnvelope_print new x)
qed simp

text \<open>A title that starts with a visible ASCII character is not trimmed.\<close>

definition plain_start :: "string \<Rightarrow> bool" where
  "plain_start t = (case t of [] \<Rightarrow> False | c # _ \<Rightarrow> (0x20 :: nat) < of_char c \<and> (of_char c :: nat) < 0x80)"

lemma plain_start_trim: "plain_start t \<Longrightarrow> space_at_start (t @ u) = 0"
proof -
  assume "plain_start t"
  then obtain c r where t: "t = c # r" and c: "(0x20 :: nat) < of_char c" "(of_char c :: nat) < 0x80"
    by (auto simp: plain_start_def split: list.splits)
  have "\<not> ascii_space c" using c by (auto simp: ascii_space_def)
  moreover have "find (\<lambda>w. prefix w (c # r @ u)) wide_spaces = None"
    unfolding find_None_iff wide_spaces_def using c by (auto simp: prefix_def)
  ultimately show ?thesis by (simp add: space_at_start_def t)
qed

lemma brace_end: "last s = CHR ''}'' \<Longrightarrow> space_at_end s = 0"
proof -
  assume s: "last s = CHR ''}''"
  have "\<not> suffix w s" if "w \<in> set wide_spaces" for w
  proof
    assume "suffix w s"
    then have "last w = CHR ''}''" using s that by (auto simp: suffix_def wide_spaces_def)
    then show False using that by (auto simp: wide_spaces_def)
  qed
  then have "find (\<lambda>w. suffix w s) wide_spaces = None" by (auto simp: find_None_iff)
  then show ?thesis using s by (auto simp: space_at_end_def ascii_space_def)
qed

lemma TrimSpace_newline:
  assumes "space_at_start (s @ [newline]) = 0" and "space_at_start s = 0" and "space_at_end s = 0"
  shows "TrimSpace (s @ [newline]) = s"
proof -
  have "space_at_end (s @ [newline]) = 1" by (simp add: space_at_end_def ascii_space_def)
  then have "trim_right (s @ [newline]) = s"
    using assms(3) by (simp add: trim_right.simps [of "s @ [newline]"] trim_right.simps [of s])
  then show ?thesis by (simp add: TrimSpace_def trim_left.simps [of "s @ [newline]"] assms(1))
qed

section \<open>The property\<close>



end
