(* ===== verification/Interrupt.thy ===== *)
theory Interrupt
  imports Ssh Channel
begin

text \<open>
  The interrupt handler of \<open>main.go\<close>. SIGINT and SIGTERM arrive at any time, so the process
  is a system of labelled steps: the operating system delivers a signal, the goroutine of
  \<open>installSSHCleanup\<close> takes it, and the main goroutine works, returns, and runs its two
  deferred calls, the last one installed first: the handler is uninstalled, and then the
  control directory is closed.
\<close>

section \<open>The process\<close>

text \<open>
  Where the two goroutines are, and how the process can end. \<open>Killed\<close> is what the operating
  system does on a signal that nobody asked for.
\<close>

datatype handler_at = Waiting | Interrupted | Cleaned | HandlerGone

datatype main_at = InBody | Returned int | Stopped int | Uninstalled int | MainClosed int

datatype ending = Exits int | Killed | Panicked

record 'w process =
  sig_chan :: "unit chan"
  notified :: bool
  handler :: handler_at
  main_goroutine :: main_at
  run_state :: "'w st"
  ended :: "ending option"

definition installSSHCleanup :: "'w st \<Rightarrow> 'w process" where
  "installSSHCleanup s =
     \<lparr>sig_chan = make_chan 1, notified = True, handler = Waiting, main_goroutine = InBody,
      run_state = s, ended = None\<rparr>"

text \<open>
  The runtime passes a signal on without blocking: when the channel is full it is dropped.
\<close>

definition deliver :: "'w process \<Rightarrow> 'w process" where
  "deliver P =
     (if notified P then
        (case send (sig_chan P) () of
           Sent c \<Rightarrow> P\<lparr>sig_chan := c\<rparr>
         | Full \<Rightarrow> P
         | SendPanic \<Rightarrow> P\<lparr>ended := Some Panicked\<rparr>)
      else P\<lparr>ended := Some Killed\<rparr>)"

text \<open>The goroutine: receive, close the control, exit with 130.\<close>

definition take_signal :: "'w process \<Rightarrow> 'w process option" where
  "take_signal P =
     (if handler P = Waiting then
        (case receive (sig_chan P) of
           Got u c \<Rightarrow> Some (P\<lparr>sig_chan := c, handler := Interrupted\<rparr>)
         | Drained \<Rightarrow> Some (P\<lparr>handler := HandlerGone\<rparr>)
         | Empty \<Rightarrow> None)
      else None)"

definition handler_close :: "'w runner \<Rightarrow> 'w process \<Rightarrow> 'w process option" where
  "handler_close r P =
     (if handler P = Interrupted
      then Some (P\<lparr>run_state := Close r (run_state P), handler := Cleaned\<rparr>) else None)"

definition handler_exit :: "'w process \<Rightarrow> 'w process option" where
  "handler_exit P = (if handler P = Cleaned then Some (P\<lparr>ended := Some (Exits 130)\<rparr>) else None)"

text \<open>The function \<open>installSSHCleanup\<close> returns: stop the notification, close the channel.\<close>

definition stop_notify :: "'w process \<Rightarrow> 'w process option" where
  "stop_notify P =
     (case main_goroutine P of
        Returned code \<Rightarrow> Some (P\<lparr>notified := False, main_goroutine := Stopped code\<rparr>)
      | _ \<Rightarrow> None)"

definition close_signals :: "'w process \<Rightarrow> 'w process option" where
  "close_signals P =
     (case main_goroutine P of
        Stopped code \<Rightarrow>
          (case close (sig_chan P) of
             None \<Rightarrow> Some (P\<lparr>ended := Some Panicked\<rparr>)
           | Some c \<Rightarrow> Some (P\<lparr>sig_chan := c, main_goroutine := Uninstalled code\<rparr>))
      | _ \<Rightarrow> None)"

text \<open>The other deferred call of \<open>run\<close>, and the exit of \<open>main\<close>.\<close>

definition deferred_close :: "'w runner \<Rightarrow> 'w process \<Rightarrow> 'w process option" where
  "deferred_close r P =
     (case main_goroutine P of
        Uninstalled code \<Rightarrow>
          Some (P\<lparr>run_state := Close r (run_state P), main_goroutine := MainClosed code\<rparr>)
      | _ \<Rightarrow> None)"

definition main_exit :: "'w process \<Rightarrow> 'w process option" where
  "main_exit P =
     (case main_goroutine P of MainClosed code \<Rightarrow> Some (P\<lparr>ended := Some (Exits code)\<rparr>) | _ \<Rightarrow> None)"

text \<open>
  The body of \<open>run\<close> does what it does (theory Cli) between any two of these steps: it only
  adds to what has happened.
\<close>

datatype 'w process_label =
  Signal | TakeSignal | HandlerClose | HandlerExit
  | Work "'w st" | Return int | StopNotify | CloseSignals | DeferredClose | MainExit

fun process_step :: "'w runner \<Rightarrow> 'w process_label \<Rightarrow> 'w process \<Rightarrow> 'w process option" where
  "process_step r l P =
     (if ended P \<noteq> None then None
      else case l of
        Signal \<Rightarrow> Some (deliver P)
      | TakeSignal \<Rightarrow> take_signal P
      | HandlerClose \<Rightarrow> handler_close r P
      | HandlerExit \<Rightarrow> handler_exit P
      | Work u \<Rightarrow>
          if main_goroutine P = InBody \<and> prefix (trace (run_state P)) (trace u)
          then Some (P\<lparr>run_state := u\<rparr>) else None
      | Return code \<Rightarrow>
          if main_goroutine P = InBody then Some (P\<lparr>main_goroutine := Returned code\<rparr>) else None
      | StopNotify \<Rightarrow> stop_notify P
      | CloseSignals \<Rightarrow> close_signals P
      | DeferredClose \<Rightarrow> deferred_close r P
      | MainExit \<Rightarrow> main_exit P)"

section \<open>The invariant\<close>

text \<open>The control directory has been closed since \<open>s\<close>.\<close>

definition closed_since :: "'w runner \<Rightarrow> 'w st \<Rightarrow> 'w st \<Rightarrow> bool" where
  "closed_since r s t \<longleftrightarrow> (\<exists>u. prefix (trace s) (trace u) \<and> prefix (trace (Close r u)) (trace t))"

lemma Close_prefix: "prefix (trace s) (trace (Close r s))"
  using Close_from [of "\<lambda>_. True" s s r] by (simp add: extends_def)

lemma closed_since_Close [simp]: "prefix (trace s) (trace t) \<Longrightarrow> closed_since r s (Close r t)"
  by (auto simp: closed_since_def)

lemma closed_since_mono: "closed_since r s t \<Longrightarrow> prefix (trace t) (trace u) \<Longrightarrow> closed_since r s u"
  unfolding closed_since_def using prefix_order.trans by blast

fun main_ok :: "'w process \<Rightarrow> main_at \<Rightarrow> bool" where
  "main_ok P InBody \<longleftrightarrow> notified P \<and> \<not> closed (sig_chan P)"
| "main_ok P (Returned code) \<longleftrightarrow> notified P \<and> \<not> closed (sig_chan P)"
| "main_ok P (Stopped code) \<longleftrightarrow> \<not> notified P \<and> \<not> closed (sig_chan P)"
| "main_ok P (Uninstalled code) \<longleftrightarrow> \<not> notified P"
| "main_ok P (MainClosed code) \<longleftrightarrow> \<not> notified P"

definition ending_ok :: "'w process \<Rightarrow> ending \<Rightarrow> bool" where
  "ending_ok P e \<longleftrightarrow>
     (case e of
        Exits code \<Rightarrow> code = 130 \<and> handler P = Cleaned \<or> main_goroutine P = MainClosed code
      | Killed \<Rightarrow> \<not> notified P
      | Panicked \<Rightarrow> False)"

definition process_inv :: "'w runner \<Rightarrow> 'w st \<Rightarrow> 'w process \<Rightarrow> bool" where
  "process_inv r s P \<longleftrightarrow>
     prefix (trace s) (trace (run_state P)) \<and> main_ok P (main_goroutine P) \<and>
     (handler P = Cleaned \<or> (\<exists>code. main_goroutine P = MainClosed code) \<longrightarrow>
        closed_since r s (run_state P)) \<and>
     (\<forall>e. ended P = Some e \<longrightarrow> ending_ok P e)"

lemma process_inv_start: "process_inv r s (installSSHCleanup s)"
  by (simp add: process_inv_def installSSHCleanup_def make_chan_def)

lemma process_step_inv:
  assumes "process_inv r s P" and "process_step r l P = Some P'"
  shows "process_inv r s P'"
proof -
  have grows: "prefix (trace s) (trace (Close r t))" if "prefix (trace s) (trace t)" for t
    using that Close_prefix prefix_order.trans by blast
  show ?thesis
    using assms
    by (cases l; cases "main_goroutine P")
      (auto simp: process_inv_def ending_ok_def deliver_def take_signal_def handler_close_def
        handler_exit_def stop_notify_def close_signals_def deferred_close_def main_exit_def send_def
        receive_def close_def grows
        split: if_split_asm sent.splits received.splits list.splits option.splits
        intro: closed_since_mono prefix_order.trans)
qed

interpretation process: inductive_invariant "\<lambda>P. P = installSSHCleanup s" "process_step r" "process_inv r s"
  for r :: "'w runner" and s
  by unfold_locales (simp add: process_inv_start, rule process_step_inv)

section \<open>What an interrupt leaves behind\<close>

text \<open>
  C26: every exit cleans up. Whatever signals arrive and however the goroutines interleave,
  the handler never panics; a process that exits, with the code of the run or with 130, has
  closed the ssh control directory before; and a signal kills it only when the handler has
  been uninstalled.
\<close>

theorem exits_close_the_control:
  assumes "run_labels (process_step r) ls (installSSHCleanup s) = Some P" and "ended P = Some e"
  shows "case e of
      Exits code \<Rightarrow> closed_since r s (run_state P) \<and>
        (if handler P = Cleaned then code = 130 \<or> main_goroutine P = MainClosed code
         else main_goroutine P = MainClosed code)
    | Killed \<Rightarrow> \<not> notified P
    | Panicked \<Rightarrow> False"
  using process.everywhere [OF refl assms(1)] assms(2)
  by (auto simp: process_inv_def ending_ok_def split: ending.splits)

theorem exits_close_the_control_witness:
  "let r = \<lparr>Quiet = True, Control = Some \<lparr>Dir = ''/tmp/s''\<rparr>,
         os = (fake_machine [])\<lparr>list_dir := (\<lambda>dir calls. [''/tmp/s/a''])\<rparr>\<rparr> in
   \<exists>P. run_labels (process_step r) [Signal, TakeSignal, HandlerClose, HandlerExit] (installSSHCleanup fresh) = Some P \<and>
     ended P = Some (Exits 130) \<and> closed_since r fresh (run_state P) \<and>
     RemovedDir ''/tmp/s'' \<in> set (trace (run_state P))"
proof -
  let ?r = "\<lparr>Quiet = True, Control = Some \<lparr>Dir = ''/tmp/s''\<rparr>,
    os = (fake_machine [])\<lparr>list_dir := (\<lambda>dir calls. [''/tmp/s/a''])\<rparr>\<rparr>"
  let ?run = "run_labels (process_step ?r) [Signal, TakeSignal, HandlerClose, HandlerExit] (installSSHCleanup fresh)"
  obtain P where P: "?run = Some P" "ended P = Some (Exits 130)" "run_state P = Close ?r fresh"
    by (simp add: installSSHCleanup_def make_chan_def deliver_def send_def take_signal_def receive_def
        handler_close_def handler_exit_def)
  have "RemovedDir ''/tmp/s'' \<in> set (trace (Close ?r fresh))"
    by (simp add: Close_def enabled_def remove_dir_def Let_def)
  then show ?thesis using exits_close_the_control [OF P(1,2)] P by auto
qed

text \<open>
  The deferred calls leave a gap: the handler is uninstalled before the directory is
  closed, and a signal in between kills the process with its ssh masters running.
\<close>

theorem signal_during_cleanup:
  "\<exists>P. run_labels (process_step r) [Return 0, StopNotify, CloseSignals, Signal] (installSSHCleanup s) = Some P \<and>
     ended P = Some Killed \<and> run_state P = s"
  by (simp add: installSSHCleanup_def make_chan_def stop_notify_def close_signals_def close_def deliver_def)

end
