(* ===== verification/Go_Tests.thy ===== *)
theory Go_Tests
  imports Cli_Args
begin

text \<open>
  The expectations of the repository's own Go tests, evaluated on the model: each lemma is
  named after the test function under \<open>src/deployment/\<close> whose table or scenario it runs. They
  prove nothing general; they show that the definitions give the answers the authors of the
  code expect of it. The scenarios of whole deployments and pipelines are not run here; their
  subject is what theories Watchdog and Pipeline_Props prove.
\<close>

section \<open>\<open>hosts_test.go\<close>\<close>

lemma TestHostOrdering:
  "sorted (map Order AllHosts)"
  "dropWhile (\<lambda>h. InGroup h ''k3s'') AllHosts = filter (\<lambda>h. \<not> InGroup h ''k3s'') AllHosts"
  by code_simp+

lemma TestHostFQDN:
  "FQDN (zero_host\<lparr>Name := ''dragonsreach'', SSHAddress := ''10.28.0.1''\<rparr>) = ''10.28.0.1''"
  "FQDN (zero_host\<lparr>Name := ''talos''\<rparr>) = ''talos''"
  by code_simp+

definition selected :: "string list \<Rightarrow> string list option" where
  "selected names = (case SelectHosts AllHosts names of Inl unknown \<Rightarrow> None | Inr hs \<Rightarrow> Some (map Name hs))"

lemma TestSelectHosts:
  "selected [] = Some [''fus'', ''ro'', ''dah'', ''joor'', ''zah'', ''frul'', ''wabbajack'', ''talos'',
     ''lydia'', ''skyforge'', ''dragonsreach'']"
  "selected [''dragonsreach''] = Some [''dragonsreach'']"
  "selected [''dovahkiin''] = Some [''dovahkiin'']"
  "selected [''dragonsreach'', ''fus'', ''talos''] = Some [''fus'', ''talos'', ''dragonsreach'']"
  "selected [''fus'', ''fus''] = Some [''fus'']"
  "selected [''nonexistent''] = None"
  "selected [''  dragonsreach  ''] = Some [''dragonsreach'']"
  by code_simp+

lemma TestBuildOnlyHosts:
  "map Name (BuildOnlyHosts AllHosts []) = [''dovahkiin'', ''guevenne'', ''nelkir'']"
  "BuildOnlyHosts AllHosts [''talos''] = []"
  by code_simp+

lemma TestHostNames:
  "let hosts = [zero_host\<lparr>Name := ''late'', Order := 30, Default := True\<rparr>,
       zero_host\<lparr>Name := ''optin'', Order := 20\<rparr>, zero_host\<lparr>Name := ''early'', Order := 10, Default := True\<rparr>] in
   HostNames hosts Default = [''early'', ''late''] \<and> HostNames hosts (\<lambda>h. \<not> Default h) = [''optin''] \<and>
   HostNames hosts (\<lambda>h. False) = []"
  by code_simp

section \<open>\<open>main_test.go\<close>\<close>

definition accepted :: "string list \<Rightarrow> bool" where
  "accepted argv \<longleftrightarrow> \<not> isl (parseArgs argv)"

lemma TestParseArgsDefaults:
  "map_sum id (\<lambda>a. (arg_mode a, arg_reboot a, arg_hosts a, arg_self a, arg_build a, arg_force a)) (parseArgs []) =
     Inr (ModeSafe, RebootFlagNever, [], False, False, False)"
  by code_simp

lemma TestParseArgsHosts:
  "map_sum id arg_hosts (parseArgs [''--hosts'', ''dragonsreach,ro, skyforge'']) =
     Inr [''dragonsreach'', ''ro'', ''skyforge'']"
  by code_simp

lemma TestParseArgsAllValues:
  "map_sum id (\<lambda>a. (arg_mode a, arg_reboot a, arg_hosts a))
     (parseArgs [''--mode'', ''boot'', ''--reboot'', ''always'', ''--hosts'', ''talos'']) =
     Inr (ModeBoot, RebootFlagAlways, [''talos''])"
  by code_simp

lemma TestParseArgsInvalid:
  "\<not> accepted [''--mode'', ''yolo'']" "\<not> accepted [''--reboot'', ''maybe'']" "\<not> accepted [''extra'']"
  by code_simp+

lemma TestParseArgsBootRebootRestricted:
  "\<not> accepted [''--mode'', ''boot'', ''--reboot'', ''auto'']"
  "\<not> accepted [''--mode'', ''boot'', ''--reboot'', ''ask'']"
  "accepted [''--mode'', ''boot'']" "accepted [''--mode'', ''boot'', ''--reboot'', ''never'']"
  "accepted [''--mode'', ''boot'', ''--reboot'', ''always'']"
  "accepted [''--mode'', ''safe'', ''--reboot'', ''auto'']"
  "accepted [''--mode'', ''safe'', ''--reboot'', ''ask'']"
  "accepted [''--mode'', ''switch'', ''--reboot'', ''ask'']"
  by code_simp+

lemma TestParseArgsSwitches:
  "map_sum id arg_self (parseArgs [''--self'']) = Inr True"
  "map_sum id arg_build (parseArgs [''--build'']) = Inr True"
  "map_sum id arg_force (parseArgs [''--force'']) = Inr True"
  by code_simp+

lemma TestHostsFlagUsage:
  "hostsFlagUsage [zero_host\<lparr>Name := ''second'', Order := 20, Default := True\<rparr>,
     zero_host\<lparr>Name := ''optin'', Order := 30\<rparr>, zero_host\<lparr>Name := ''first'', Order := 10, Default := True\<rparr>] =
     ''Comma-separated host names (default: first,second); built only unless named: optin''"
  "hostsFlagUsage [zero_host\<lparr>Name := ''only'', Order := 10, Default := True\<rparr>] =
     ''Comma-separated host names (default: only)''"
  by code_simp+

section \<open>\<open>reboot_test.go\<close> and \<open>runner_test.go\<close>\<close>

lemma TestParseRebootFlag:
  "list_all (\<lambda>s. \<not> isl (ParseRebootFlag s)) [''auto'', ''never'', ''always'', ''ask'']"
  "list_all (\<lambda>s. isl (ParseRebootFlag s)) [[], ''yes'', ''no'', ''AUTO'', ''force'']"
  by code_simp+

lemma TestKernelChanged:
  "\<not> KernelChanged ''6.6.50'' ''6.6.50'' ''quiet a=1'' ''a=1 quiet''"
  "KernelChanged ''6.6.50'' ''6.6.51'' ''quiet'' ''quiet''"
  "\<not> KernelChanged ''6.6.50'' ''6.6.50'' ''a=1 b=2'' ''b=2 a=1''"
  "KernelChanged ''6.6.50'' ''6.6.50'' ''a=1'' ''a=1 b=2''"
  "KernelChanged ''6.6.50'' ''6.6.50'' ''a=1 b=2'' ''a=1''"
  "\<not> KernelChanged [] ''6.6.51'' ''a=1'' ''a=1''"
  "\<not> KernelChanged ''6.6.50'' [] ''a=1'' ''a=1''"
  "\<not> KernelChanged ''6.6.50'' ''6.6.50'' [] []"
  "\<not> KernelChanged (''6.6.50'' @ [newline]) (''6.6.50'' @ [newline]) [] []"
  by code_simp+

lemma TestMergeEnv:
  "mergeEnv [''PATH=/bin'', ''NIX_SSHOPTS=-i /old'', ''HOME=/home/x''] [''NIX_SSHOPTS=-o ControlPath=/tmp/x/%C''] =
     [''PATH=/bin'', ''NIX_SSHOPTS=-o ControlPath=/tmp/x/%C'', ''HOME=/home/x'']"
  "mergeEnv [''PATH=/bin''] [''NIX_SSHOPTS=-o X=1''] = [''PATH=/bin'', ''NIX_SSHOPTS=-o X=1'']"
  by code_simp+

lemma TestEchoArgv:
  "Join (echoArgv [''ssh'', ''-o'', ''BatchMode=yes'', ''-o'', ''ControlMaster=auto'', ''-o'',
     ''ControlPath=/tmp/deploy-ssh-1/%C'', ''-o'', ''ControlPersist=300'', ''ro'', ''readlink /run/current-system'']) '' '' =
     ''ssh -o BatchMode=yes ro readlink /run/current-system''"
  "let argv = [''ssh'', ''-o'', ''BatchMode=yes'', ''-o'', ''ConnectTimeout=10'', ''ro'', ''true''] in echoArgv argv = argv"
  by code_simp+

section \<open>\<open>ssh_test.go\<close>, \<open>build_test.go\<close> and \<open>copy_test.go\<close>\<close>

definition test_ctl :: "ssh_control option" where
  "test_ctl = Some \<lparr>Dir = ''/tmp/deploy-ssh-test''\<rparr>"

lemma TestSSHArgv:
  "let argv = SSHArgv None (zero_host\<lparr>Name := ''dragonsreach'', SSHAddress := ''10.28.0.1''\<rparr>) ''uname -r'' 0 in
   hd argv = ''ssh'' \<and> last argv = ''uname -r'' \<and>
   MatchContains [''-o BatchMode=yes'', ''-o ConnectTimeout=10'', ''-o ServerAliveInterval=15'', ''10.28.0.1''] argv"
  "last (butlast (SSHArgv None (zero_host\<lparr>Name := ''talos''\<rparr>) ''true'' 0)) = ''talos''"
  "MatchContains [''ConnectTimeout=5''] (SSHArgv None (zero_host\<lparr>Name := ''x''\<rparr>) ''true'' (5 * Second))"
  by code_simp+

lemma TestSSHControlDisabled:
  "Opts None = []" "Opts (Some \<lparr>Dir = []\<rparr>) = []"
  "SSHArgv None (zero_host\<lparr>Name := ''ro''\<rparr>) ''true'' 0 = SSHArgvDirect None (zero_host\<lparr>Name := ''ro''\<rparr>) ''true'' 0"
  "\<not> MatchContains [''Control''] (SSHArgv None (zero_host\<lparr>Name := ''ro''\<rparr>) ''true'' 0)"
  by code_simp+

lemma TestSSHControlOpts:
  "MatchContains [''ControlMaster=auto'', ''ControlPath=/tmp/deploy-ssh-test/%C'', ''ControlPersist=300''] (Opts test_ctl)"
  by code_simp

lemma TestSSHArgvDirectBypassesMaster:
  "let argv = SSHArgvDirect test_ctl (zero_host\<lparr>Name := ''ro''\<rparr>) ''echo ok'' 0 in
   MatchContains [''ControlMaster=no'', ''ControlPath=none''] argv \<and> \<not> MatchContains [''/tmp/deploy-ssh-test''] argv"
  by code_simp

lemma TestNixSSHOpts:
  "case NixSSHOpts test_ctl [] of [e] \<Rightarrow> HasPrefix e ''NIX_SSHOPTS='' \<and> Contains e ''ControlPath=/tmp/deploy-ssh-test/%C'' | _ \<Rightarrow> False"
  "case NixSSHOpts test_ctl ''-i /key'' of [e] \<Rightarrow> HasPrefix e ''NIX_SSHOPTS=-i /key '' | _ \<Rightarrow> False"
  "NixSSHOpts None ''-i /key'' = []"
  by code_simp+

text \<open>The counting runner of the tests: result \<open>i\<close> for call \<open>i\<close>, the last one from then on.\<close>

definition counting :: "run_result list \<Rightarrow> nat machine" where
  "counting rs =
     \<lparr>exec = (\<lambda>argv env timeout n. (process_of (rs ! min n (length rs - 1)), Suc n)),
      environ = [], nap = (\<lambda>d n. (0, n)), wall_clock = (\<lambda>n. 1700000000),
      mkdir_temp = (\<lambda>dir pre n. (Inl [], n)), list_dir = (\<lambda>dir n. []), remove_all = (\<lambda>dir n. n)\<rparr>"

definition counting_runner :: "ssh_control option \<Rightarrow> run_result list \<Rightarrow> nat runner" where
  "counting_runner c rs = \<lparr>Quiet = False, Control = c, os = counting rs\<rparr>"

definition idle_st :: "nat st" where
  "idle_st = \<lparr>world = 0, clock = 0, warnings = [], trace = []\<rparr>"

definition said :: "string \<Rightarrow> run_result" where
  "said out = zero_result\<lparr>Stdout := out\<rparr>"

definition exited :: "int \<Rightarrow> run_result" where
  "exited code = zero_result\<lparr>ExitCode := code\<rparr>"

text \<open>What an operation answers on such a runner, and how many commands it ran.\<close>

definition counted :: "('a \<times> nat st) \<Rightarrow> 'a \<times> nat" where
  "counted m = (fst m, world (snd m))"

lemma TestCheckSSHReachable:
  "map (\<lambda>res. counted (CheckSSHReachable (counting_runner None [res]) (zero_host\<lparr>Name := ''talos''\<rparr>) idle_st))
     [said (''ok'' @ [newline]), said (''nope'' @ [newline]), (said ''ok'')\<lparr>ExitCode := 1\<rparr>, zero_result\<lparr>TimedOut := True\<rparr>] =
   [(True, 1), (False, 1), (False, 1), (False, 1)]"
  by code_simp

text \<open>With a control the drop of the master is the third call; a failed command is not retried.\<close>

lemma TestSSHRunRetries:
  "map (\<lambda>bad. let (res, n) = counted (SSHRun (counting_runner test_ctl [bad, zero_result, said ''/nix/store/x''])
       (zero_host\<lparr>Name := ''ro''\<rparr>) ReadActive Second idle_st) in (Failed res, n))
     [exited 255, zero_result\<lparr>TimedOut := True\<rparr>, exited 1] = [(False, 3), (False, 3), (True, 1)]"
  "let (res, n) = counted (SSHRunOnce (counting_runner test_ctl [exited 255, zero_result])
     (zero_host\<lparr>Name := ''ro''\<rparr>) (ArmTimer ''x'' 1) Second idle_st) in Failed res \<and> n = 1"
  "let (res, n) = counted (SSHRun (counting_runner None [exited 255])
     (zero_host\<lparr>Name := ''ro''\<rparr>) EchoOk Second idle_st) in Failed res \<and> n = 1"
  by code_simp+

lemma TestEvalArgv:
  "MatchContains [''nix eval'', ''--json'', ''.#nixosConfigurations.dragonsreach.config.system.build.toplevel'',
     ''drvPath'', ''outPath'', ''--option eval-cache false''] (EvalArgv (zero_host\<lparr>Name := ''router'', FlakeName := ''dragonsreach''\<rparr>))"
  by code_simp

lemma TestBuildArgv:
  "let argv = BuildArgv [''/nix/store/a.drv'', ''/nix/store/b.drv''] \<lparr>MaxJobs = 0, Cores = 0, Stream = False\<rparr> in
   MatchContains [''nix build'', ''--keep-going'', ''--no-link'', ''/nix/store/a.drv^out'', ''/nix/store/b.drv^out''] argv \<and>
   \<not> MatchContains [''nixosConfigurations''] argv \<and> \<not> MatchContains [''--max-jobs''] argv \<and> \<not> MatchContains [''--cores''] argv"
  "MatchContains [''--max-jobs 8'', ''--cores 2''] (BuildArgv [''/nix/store/a.drv''] \<lparr>MaxJobs = 8, Cores = 2, Stream = False\<rparr>)"
  by code_simp+

lemma TestBuiltOK:
  "map (\<lambda>(res, path). counted (BuiltOK (counting_runner None [res]) path idle_st))
     [(zero_result, ''/nix/store/aaa''), (exited 1, ''/nix/store/aaa''), (zero_result, [])] = [(True, 1), (False, 1), (False, 0)]"
  "counted (BuildAll (counting_runner None [exited 1]) [] \<lparr>MaxJobs = 0, Cores = 0, Stream = False\<rparr> idle_st) = (True, 0)"
  by code_simp+

lemma TestCopyArgv:
  "MatchContains [''nix copy'', ''--to ssh-ng://10.28.0.1'', ''--substitute-on-destination'', ''--no-check-sigs'', ''/nix/store/aaa'']
     (CopyArgv (last AllHosts) ''/nix/store/aaa'')"
  "\<not> MatchContains [''sudo''] (CopyArgv (last AllHosts) ''/nix/store/aaa'')"
  by code_simp+

lemma TestResolveToplevelsErrorsOnPartialEntry:
  \<open>list_all (\<lambda>out. isl (fst (resolveToplevel (counting_runner None [said out]) (zero_host\<lparr>Name := ''router''\<rparr>) idle_st)))
     [''{}'', ''{"out":"/nix/store/bbb-dr"}'', ''{"drv":"/nix/store/bbb-dr.drv"}'', ''not json'']\<close>
  by code_simp

section \<open>\<open>health_test.go\<close> and \<open>printer_test.go\<close>\<close>

lemma TestK8sHealthPolling:
  "counted (WaitForK8sReady (counting_runner None [said ''NotReady'', said ''NotReady'', said ''True'']) (zero_host\<lparr>Name := ''ro''\<rparr>) idle_st) =
     (True, 3)"
  "counted (WaitForK8sReady (counting_runner None [said ''NotReady'']) (zero_host\<lparr>Name := ''ro''\<rparr>) idle_st) = (False, k8sHealthRetries)"
  by code_simp+

lemma TestVerifyConnectivity:
  "counted (VerifyConnectivity (counting_runner None [exited 1, said (''ok'' @ [newline])])
     (zero_host\<lparr>Name := ''x'', ConnChecks := [CheckSSH]\<rparr>) idle_st) = (True, 2)"
  "counted (VerifyConnectivity (counting_runner None [exited 1])
     (zero_host\<lparr>Name := ''x'', ConnChecks := [CheckSSH]\<rparr>) idle_st) = (False, verifyRetries)"
  by code_simp+

lemma TestCheckPrinterIdle:
  \<open>map (\<lambda>res. fst (CheckPrinterIdle (counting_runner None [res]) (zero_host\<lparr>Name := ''skyforge''\<rparr>) idle_st))
     [said ''{"result":{"status":{"print_stats":{"state":"standby"}}}}'',
      said ''{"result":{"status":{"print_stats":{"state":"printing"}}}}'',
      said ''{"result":{"status":{"print_stats":{"state":"paused"}}}}''] =
   [(True, ''standby'', True), (False, ''printing'', True), (False, ''paused'', True)]\<close>
  \<open>list_all (\<lambda>res. \<not> snd (snd (fst (CheckPrinterIdle (counting_runner None [res]) (zero_host\<lparr>Name := ''skyforge''\<rparr>) idle_st))))
     [exited 7, said ''not json'', said ''{"result":{"status":{"print_stats":{}}}}'']\<close>
  by code_simp+

end
